theory Spec2Isabelle
  imports Complex_Main
begin

section \<open>Arrays and errors\<close>

text \<open>
  The module \<^verbatim>\<open>statsmodels/tsa/statespace/tools.py\<close> works on numpy arrays of
  floating-point numbers. It is modelled twice. For the properties that do not depend on
  rounding (what a function reads, writes and returns, and the algebra of the
  transforms), a two-dimensional array is a list of rows over the real numbers and
  arithmetic is exact. For the properties that rounding decides, the section on double
  precision gives the same functions on IEEE 754 binary64 numbers, every operation
  rounded; these bear the suffix \<open>_f64\<close>. Every
  exception the code (or the numpy and scipy routine it calls) can raise is a value of
  \<open>error\<close>; a function that can raise returns \<open>error + 'a\<close>, with \<open>Inl\<close> for the
  exception.
\<close>

type_synonym vec = "real list"
type_synonym matrix = "real list list"

datatype error =
    ValueError
  | TypeError
  | AttributeError
  | LinAlgError
  | IndexError
  | ZeroDivisionError
  | NonFinite    \<comment> \<open>no exception: numpy fills the result with inf or nan (division by
                    zero under the default error state), which a real matrix cannot hold\<close>
  | Unmodelled   \<comment> \<open>no exception: an operand whose numpy broadcasting or conversion
                    rules are outside this model\<close>

definition ebind :: "error + 'a \<Rightarrow> ('a \<Rightarrow> error + 'b) \<Rightarrow> error + 'b" where
  "ebind r f = (case r of Inl e \<Rightarrow> Inl e | Inr x \<Rightarrow> f x)"

definition mat :: "nat \<Rightarrow> nat \<Rightarrow> (nat \<Rightarrow> nat \<Rightarrow> real) \<Rightarrow> matrix" where
  "mat r c f = map (\<lambda>i. map (\<lambda>j. f i j) [0..<c]) [0..<r]"

definition nrows :: "matrix \<Rightarrow> nat" where
  "nrows M = length M"

definition ncols :: "matrix \<Rightarrow> nat" where
  "ncols M = (case M of [] \<Rightarrow> 0 | r # _ \<Rightarrow> length r)"

definition is_shape :: "nat \<Rightarrow> nat \<Rightarrow> matrix \<Rightarrow> bool" where
  "is_shape r c M = (length M = r \<and> list_all (\<lambda>row. length row = c) M)"

definition zeros :: "nat \<Rightarrow> nat \<Rightarrow> matrix" where
  "zeros r c = mat r c (\<lambda>i j. 0)"

definition eye :: "nat \<Rightarrow> matrix" where
  "eye k = mat k k (\<lambda>i j. if i = j then 1 else 0)"

definition transpose_m :: "matrix \<Rightarrow> matrix" where
  "transpose_m M = mat (ncols M) (nrows M) (\<lambda>i j. M ! j ! i)"

definition neg :: "matrix \<Rightarrow> matrix" where
  "neg M = map (map uminus) M"

definition scale :: "real \<Rightarrow> matrix \<Rightarrow> matrix" where
  "scale a M = map (map ((*) a)) M"

definition add :: "matrix \<Rightarrow> matrix \<Rightarrow> matrix" where
  "add A B = mat (nrows A) (ncols A) (\<lambda>i j. A ! i ! j + B ! i ! j)"

definition sub :: "matrix \<Rightarrow> matrix \<Rightarrow> matrix" where
  "sub A B = mat (nrows A) (ncols A) (\<lambda>i j. A ! i ! j - B ! i ! j)"

text \<open>\<^verbatim>\<open>np.dot\<close> on two conformable two-dimensional arrays.\<close>

definition dot :: "matrix \<Rightarrow> matrix \<Rightarrow> matrix" where
  "dot A B = mat (nrows A) (ncols B) (\<lambda>i j. \<Sum>k<ncols A. A ! i ! k * B ! k ! j)"

subsection \<open>\<^verbatim>\<open>np.linalg.inv\<close>\<close>

text \<open>
  Gauss-Jordan elimination on the rows of \<open>[A | I]\<close>. LAPACK pivots on the entry of
  largest magnitude; in exact arithmetic every non-zero pivot leads to the same inverse,
  so the first non-zero entry of the column is taken. A column without a pivot is a
  singular matrix, which numpy reports as \<^verbatim>\<open>LinAlgError\<close>.
\<close>

fun find_pivot :: "matrix \<Rightarrow> nat \<Rightarrow> nat \<Rightarrow> nat option" where
  "find_pivot [] c i = None"
| "find_pivot (row # rows) c i =
     (if row ! c \<noteq> 0 then Some i else find_pivot rows c (Suc i))"

definition gj_step :: "matrix \<Rightarrow> nat \<Rightarrow> error + matrix" where
  "gj_step M c =
     (case find_pivot (drop c M) c c of
        None \<Rightarrow> Inl LinAlgError
      | Some p \<Rightarrow>
          let M1 = M[c := M ! p, p := M ! c];
              prow = map (\<lambda>x. x / (M1 ! c ! c)) (M1 ! c)
          in Inr (map (\<lambda>i. if i = c then prow
                            else map2 (\<lambda>x y. x - (M1 ! i ! c) * y) (M1 ! i) prow)
                    [0..<length M1]))"

fun gauss_jordan :: "matrix \<Rightarrow> nat list \<Rightarrow> error + matrix" where
  "gauss_jordan M [] = Inr M"
| "gauss_jordan M (c # cs) = ebind (gj_step M c) (\<lambda>M'. gauss_jordan M' cs)"

text \<open>\<^verbatim>\<open>np.linalg.solve(A, B)\<close> for a square \<open>A\<close>, and \<^verbatim>\<open>np.linalg.inv(A)\<close>.\<close>

definition solve :: "matrix \<Rightarrow> matrix \<Rightarrow> error + matrix" where
  "solve A B =
     (let n = length A in
      if \<not> is_shape n n A then Inl LinAlgError
      else ebind (gauss_jordan (map2 (@) A B) [0..<n])
             (\<lambda>M. Inr (map (drop n) M)))"

definition inv :: "matrix \<Rightarrow> error + matrix" where
  "inv A = solve A (eye (length A))"

subsection \<open>Cholesky factorisation and triangular systems\<close>

text \<open>
  \<open>forward_subst L b j\<close> is the first \<open>j\<close> unknowns of the lower triangular system
  \<open>L x = b\<close>; \<open>backward_subst L b n j\<close> is the last \<open>j\<close> unknowns of the upper
  triangular system \<open>L\<^sup>T x = b\<close> of size \<open>n\<close>. Both read the lower triangle of \<open>L\<close>
  only, as LAPACK's \<^verbatim>\<open>trtrs\<close> does.
\<close>

fun forward_subst :: "matrix \<Rightarrow> vec \<Rightarrow> nat \<Rightarrow> vec" where
  "forward_subst L b 0 = []"
| "forward_subst L b (Suc j) =
     (let x = forward_subst L b j
      in x @ [(b ! j - (\<Sum>k<j. L ! j ! k * x ! k)) / L ! j ! j])"

fun backward_subst :: "matrix \<Rightarrow> vec \<Rightarrow> nat \<Rightarrow> nat \<Rightarrow> vec" where
  "backward_subst L b n 0 = []"
| "backward_subst L b n (Suc j) =
     (let x = backward_subst L b n j; i = n - Suc j
      in ((b ! i - (\<Sum>k<j. L ! (i + 1 + k) ! i * x ! k)) / L ! i ! i) # x)"

definition column :: "matrix \<Rightarrow> nat \<Rightarrow> vec" where
  "column M j = map (\<lambda>row. row ! j) M"

text \<open>
  \<^verbatim>\<open>scipy.linalg.solve_triangular(L, B, lower=True)\<close> solves \<open>L X = B\<close>, and with
  \<^verbatim>\<open>trans='T'\<close> it solves \<open>L\<^sup>T X = B\<close>. A zero on the diagonal is a singular
  matrix: \<^verbatim>\<open>LinAlgError\<close>.
\<close>

definition solve_triangular :: "matrix \<Rightarrow> matrix \<Rightarrow> error + matrix" where
  "solve_triangular L B =
     (let n = length L in
      if list_ex (\<lambda>j. L ! j ! j = 0) [0..<n] then Inl LinAlgError
      else Inr (mat n (ncols B) (\<lambda>i j. forward_subst L (column B j) n ! i)))"

definition solve_triangular_T :: "matrix \<Rightarrow> matrix \<Rightarrow> error + matrix" where
  "solve_triangular_T L B =
     (let n = length L in
      if list_ex (\<lambda>j. L ! j ! j = 0) [0..<n] then Inl LinAlgError
      else Inr (mat n (ncols B) (\<lambda>i j. backward_subst L (column B j) n n ! i)))"

text \<open>
  The Cholesky factor, row by row: row \<open>i\<close> solves a triangular system against the
  rows before it, and its diagonal entry is the root of the pivot
  \<open>a\<^sub>i\<^sub>i - \<Sum>\<^sub>k\<^sub><\<^sub>i l\<^sub>i\<^sub>k\<^sup>2\<close>. LAPACK's \<^verbatim>\<open>potrf\<close> reads the lower triangle only and
  fails at the first pivot that is not positive, which scipy and numpy report as
  \<^verbatim>\<open>LinAlgError\<close>. \<open>cholesky_rows A i\<close> is the first \<open>i\<close> rows, row \<open>j\<close> up to
  its diagonal entry.
\<close>

fun cholesky_rows :: "matrix \<Rightarrow> nat \<Rightarrow> error + matrix" where
  "cholesky_rows A 0 = Inr []"
| "cholesky_rows A (Suc i) =
     ebind (cholesky_rows A i) (\<lambda>L.
       let x = forward_subst L (A ! i) i;
           d = A ! i ! i - (\<Sum>k<i. (x ! k)\<^sup>2)
       in if d \<le> 0 then Inl LinAlgError else Inr (L @ [x @ [sqrt d]]))"

text \<open>
  \<^verbatim>\<open>scipy.linalg.cholesky(a, lower=True)\<close> and \<^verbatim>\<open>np.linalg.cholesky(a)\<close>: the lower
  factor, with zeros above the diagonal. \<^verbatim>\<open>scipy.linalg.cho_factor(a, lower=True)\<close>
  returns the same lower triangle (what it leaves above the diagonal is never read by
  the triangular solver that takes it).
\<close>

definition cholesky :: "matrix \<Rightarrow> error + matrix" where
  "cholesky A =
     (let n = length A in
      if \<not> is_shape n n A then Inl ValueError
      else ebind (cholesky_rows A n)
             (\<lambda>L. Inr (mat n n (\<lambda>i j. if j \<le> i then L ! i ! j else 0))))"

definition cho_factor :: "matrix \<Rightarrow> error + matrix" where
  "cho_factor A = cholesky A"

text \<open>\<^verbatim>\<open>scipy.linalg.cho_solve((L, True), B)\<close> solves \<open>L L\<^sup>T X = B\<close>.\<close>

definition cho_solve :: "matrix \<Rightarrow> matrix \<Rightarrow> error + matrix" where
  "cho_solve L B = ebind (solve_triangular L B) (\<lambda>Y. solve_triangular_T L Y)"

text \<open>
  \<^verbatim>\<open>scipy.linalg.solve_discrete_lyapunov(a, q)\<close>: the solution \<open>X\<close> of
  \<open>X = a X a\<^sup>T + q\<close>, from the linear system \<open>(I - a \<otimes> a) vec X = vec q\<close>;
  \<^verbatim>\<open>LinAlgError\<close> when the system is singular.
\<close>

definition solve_discrete_lyapunov :: "matrix \<Rightarrow> matrix \<Rightarrow> error + matrix" where
  "solve_discrete_lyapunov a q =
     (let n = length a;
          lhs = mat (n * n) (n * n)
                  (\<lambda>r c. (if r = c then 1 else 0)
                           - a ! (r div n) ! (c div n) * a ! (r mod n) ! (c mod n));
          rhs = mat (n * n) 1 (\<lambda>r c. q ! (r div n) ! (r mod n))
      in ebind (solve lhs rhs) (\<lambda>x. Inr (mat n n (\<lambda>i j. x ! (i * n + j) ! 0))))"

text \<open>Slices and concatenation.\<close>

definition block :: "matrix \<Rightarrow> nat \<Rightarrow> nat \<Rightarrow> matrix" where
  \<comment> \<open>\<^verbatim>\<open>M[:, s*k:(s+1)*k]\<close>\<close>
  "block M s k = map (\<lambda>row. take k (drop (s * k) row)) M"

definition set_cols :: "matrix \<Rightarrow> nat \<Rightarrow> nat \<Rightarrow> matrix \<Rightarrow> matrix" where
  \<comment> \<open>\<^verbatim>\<open>M[:, s*k:(s+1)*k] = X\<close>\<close>
  "set_cols M s k X =
     mat (nrows M) (ncols M)
       (\<lambda>i j. if s * k \<le> j \<and> j < (s + 1) * k then X ! i ! (j - s * k) else M ! i ! j)"

fun concatenate :: "matrix list \<Rightarrow> error + matrix" where
  \<comment> \<open>\<^verbatim>\<open>np.concatenate(Ms, axis=1)\<close>\<close>
  "concatenate [] = Inl ValueError"
| "concatenate [M] = Inr M"
| "concatenate (M # Ms) =
     ebind (concatenate Ms) (\<lambda>R. if length R = length M then Inr (map2 (@) M R)
                                  else Inl ValueError)"

text \<open>A loop whose body can raise: the first exception ends it.\<close>

fun emap :: "('a \<Rightarrow> error + 'b) \<Rightarrow> 'a list \<Rightarrow> error + 'b list" where
  "emap f [] = Inr []"
| "emap f (x # xs) = ebind (f x) (\<lambda>y. ebind (emap f xs) (\<lambda>ys. Inr (y # ys)))"

fun efold :: "('a \<Rightarrow> 's \<Rightarrow> error + 's) \<Rightarrow> 'a list \<Rightarrow> 's \<Rightarrow> error + 's" where
  "efold f [] st = Inr st"
| "efold f (x # xs) st = ebind (f x st) (efold f xs)"

section \<open>\<^verbatim>\<open>companion_matrix\<close>\<close>

text \<open>
  The argument of \<^verbatim>\<open>companion_matrix\<close> is a Python integer or a sequence of
  coefficients. A coefficient is a number, a numpy array (\<open>Arr\<close>) or a nested Python
  list (\<open>Nested\<close>); the two kinds of matrix differ in what \<^verbatim>\<open>== 1\<close> and
  \<^verbatim>\<open>.T\<close> do. The sequence is a Python list, a tuple or a numpy array; a list is
  mutable, and the function returns, next to its result, the argument as the caller
  finds it after the call.
\<close>

datatype coef = Num real | Arr matrix | Nested matrix

datatype container = PyList | PyTuple | NdArray

datatype polynomial = PInt int | PSeq container "coef list"

text \<open>\<^verbatim>\<open>len(c)\<close>: a number has no length.\<close>

fun py_len :: "coef \<Rightarrow> error + nat" where
  "py_len (Num x) = Inl TypeError"
| "py_len (Arr M) = Inr (length M)"
| "py_len (Nested M) = Inr (length M)"

text \<open>
  The truth value of \<^verbatim>\<open>c == 1\<close>. A Python list never equals an integer. A numpy
  array is compared elementwise, and the truth value of the array of booleans is defined
  only when it has at most one element.
\<close>

fun eq_one :: "coef \<Rightarrow> error + bool" where
  "eq_one (Num x) = Inr (x = 1)"
| "eq_one (Nested M) = Inr False"
| "eq_one (Arr M) =
     (case concat M of [] \<Rightarrow> Inr False | [x] \<Rightarrow> Inr (x = 1) | _ \<Rightarrow> Inl ValueError)"

text \<open>
  \<^verbatim>\<open>matrix = np.zeros((n * m, n * m)); idx = np.diag_indices((n - 1) * m);
  idx = (idx[0], idx[1] + m); matrix[idx] = 1\<close>: the ones are at row \<open>i\<close>, column
  \<open>i + m\<close>, for \<open>i < (n - 1) * m\<close>.
\<close>

definition shifted_identity :: "nat \<Rightarrow> nat \<Rightarrow> matrix" where
  "shifted_identity n m =
     mat (n * m) (n * m) (\<lambda>i j. if i < (n - 1) * m \<and> j = i + m then 1 else 0)"

text \<open>\<^verbatim>\<open>matrix[:, 0] = v\<close>\<close>

definition set_first_column :: "matrix \<Rightarrow> vec \<Rightarrow> matrix" where
  "set_first_column M v =
     mat (nrows M) (ncols M) (\<lambda>i j. if j = 0 then v ! i else M ! i ! j)"

text \<open>\<^verbatim>\<open>matrix[i * m:(i + 1) * m, :m] = X\<close>\<close>

definition set_block :: "matrix \<Rightarrow> nat \<Rightarrow> nat \<Rightarrow> matrix \<Rightarrow> matrix" where
  "set_block M i m X =
     mat (nrows M) (ncols M)
       (\<lambda>r c. if i * m \<le> r \<and> r < (i + 1) * m \<and> c < m then X ! (r - i * m) ! c
               else M ! r ! c)"

text \<open>
  The scalar branch, \<^verbatim>\<open>matrix[:, 0] = -polynomial[1:] / polynomial[0]\<close> after
  \<^verbatim>\<open>np.asanyarray\<close>. The model covers sequences of numbers.
\<close>

fun scalars :: "coef list \<Rightarrow> vec option" where
  "scalars [] = Some []"
| "scalars (Num x # cs) = map_option ((#) x) (scalars cs)"
| "scalars (c # cs) = None"

definition scalar_companion :: "nat \<Rightarrow> coef list \<Rightarrow> error + matrix" where
  "scalar_companion n cs =
     (case scalars cs of
        None \<Rightarrow> Inl Unmodelled
      | Some p \<Rightarrow>
          if hd p = 0 then Inl NonFinite
          else Inr (set_first_column (shifted_identity n 1)
                      (map (\<lambda>c. - c / hd p) (tl p))))"

text \<open>
  \<^verbatim>\<open>for i in range(n): matrix[i * m:(i + 1) * m, :m] = block(polynomial[i+1])\<close>,
  where \<open>blk\<close> computes the block or raises.
\<close>

fun assign_blocks ::
  "nat \<Rightarrow> (coef \<Rightarrow> error + matrix) \<Rightarrow> coef list \<Rightarrow> nat \<Rightarrow> matrix \<Rightarrow> error + matrix" where
  "assign_blocks m blk [] i M = Inr M"
| "assign_blocks m blk (c # cs) i M =
     ebind (blk c) (\<lambda>X.
       if is_shape m m X then assign_blocks m blk cs (Suc i) (set_block M i m X)
       else Inl Unmodelled)"

text \<open>\<^verbatim>\<open>-polynomial[i+1].T\<close>: only a numpy array has the attribute \<^verbatim>\<open>T\<close>.\<close>

fun identity_block :: "coef \<Rightarrow> error + matrix" where
  "identity_block (Arr C) = Inr (neg (transpose_m C))"
| "identity_block c = Inl AttributeError"

text \<open>
  \<^verbatim>\<open>-np.dot(inv, polynomial[i+1]).T\<close>; \<^verbatim>\<open>np.dot\<close> with a number is the
  product by that number.
\<close>

fun general_block :: "matrix \<Rightarrow> coef \<Rightarrow> error + matrix" where
  "general_block iv (Arr C) = Inr (neg (transpose_m (dot iv C)))"
| "general_block iv (Nested C) = Inr (neg (transpose_m (dot iv C)))"
| "general_block iv (Num x) = Inr (neg (transpose_m (scale x iv)))"

text \<open>\<^verbatim>\<open>np.linalg.inv(polynomial[0])\<close>: a number is a 0-dimensional array.\<close>

fun inv_coef :: "coef \<Rightarrow> error + matrix" where
  "inv_coef (Num x) = Inl LinAlgError"
| "inv_coef (Arr C) = inv C"
| "inv_coef (Nested C) = inv C"

definition companion_matrix :: "polynomial \<Rightarrow> (error + matrix) \<times> polynomial" where
  "companion_matrix polynomial =
     (case polynomial of
        PInt n \<Rightarrow>
          (if n < 0 then Inl ValueError else Inr (shifted_identity (nat n) 1), polynomial)
      | PSeq c cs \<Rightarrow>
          if length cs < 2 then (Inl ValueError, polynomial)
          else
            let n = length cs - 1;
                m = (if c = NdArray then 1
                     else case py_len (cs ! 1) of Inl e \<Rightarrow> 1 | Inr l \<Rightarrow> l)
            in
              if m = 1 then (scalar_companion n cs, polynomial)
              else
                (case eq_one (cs ! 0) of
                   Inl e \<Rightarrow> (Inl e, polynomial)
                 | Inr True \<Rightarrow>
                     if c = PyTuple then (Inl TypeError, polynomial)
                     else (assign_blocks m identity_block (tl cs) 0 (shifted_identity n m),
                           PSeq c (cs[0 := Arr (eye m)]))
                 | Inr False \<Rightarrow>
                     (ebind (inv_coef (cs ! 0)) (\<lambda>iv.
                        assign_blocks m (general_block iv) (tl cs) 0 (shifted_identity n m)),
                      polynomial)))"

section \<open>The univariate transforms\<close>

subsection \<open>\<^verbatim>\<open>constrain_stationary_univariate\<close>\<close>

text \<open>
  \<^verbatim>\<open>r = unconstrained / ((1 + unconstrained**2)**0.5)\<close>, then the rows of \<open>y\<close> are
  filled in place. The array has \<open>n\<close> rows, so \<^verbatim>\<open>y[n - 1, :]\<close> raises
  \<^verbatim>\<open>IndexError\<close> for the empty input.
\<close>

definition squash :: "real \<Rightarrow> real" where
  "squash u = u / sqrt (1 + u\<^sup>2)"

definition set_entry :: "'a list list \<Rightarrow> nat \<Rightarrow> nat \<Rightarrow> 'a \<Rightarrow> 'a list list" where
  "set_entry y k i v = y[k := (y ! k)[i := v]]"

definition constrain_inner :: "vec \<Rightarrow> nat \<Rightarrow> matrix \<Rightarrow> matrix" where
  "constrain_inner r k y =
     fold (\<lambda>i y. set_entry y k i (y ! (k - 1) ! i + r ! k * y ! (k - 1) ! (k - i - 1)))
       [0..<k] y"

definition constrain_step :: "vec \<Rightarrow> nat \<Rightarrow> matrix \<Rightarrow> matrix" where
  "constrain_step r k y = set_entry (constrain_inner r k y) k k (r ! k)"

definition constrain_y :: "vec \<Rightarrow> matrix" where
  "constrain_y unconstrained =
     (let n = length unconstrained; r = map squash unconstrained
      in fold (constrain_step r) [0..<n] (zeros n n))"

definition constrain_stationary_univariate :: "vec \<Rightarrow> error + vec" where
  "constrain_stationary_univariate unconstrained =
     (let n = length unconstrained in
      if n = 0 then Inl IndexError
      else Inr (map uminus (constrain_y unconstrained ! (n - 1))))"

subsection \<open>\<^verbatim>\<open>unconstrain_stationary_univariate\<close>\<close>

text \<open>
  This function divides by \<open>1 - y[k, k]\<^sup>2\<close> and by its square root, with no test on
  the divisor. On a numpy array a division by zero is no exception: under the default
  error state it gives \<^verbatim>\<open>inf\<close> or \<^verbatim>\<open>nan\<close> and a warning, and the fractional
  power of a negative number gives \<^verbatim>\<open>nan\<close>. The values of the array are therefore
  the reals extended by the three special values of IEEE arithmetic (without rounding,
  overflow or the sign of zero: the divisors of this function are \<open>1 - r\<^sup>2\<close> and its
  root, which are never the negative zero).
\<close>

datatype npfloat = Fin real | PInf | NInf | NaN

definition inf_of_sign :: "real \<Rightarrow> npfloat" where
  "inf_of_sign s = (if 0 < s then PInf else if s < 0 then NInf else NaN)"

fun np_sign :: "npfloat \<Rightarrow> real" where
  "np_sign (Fin x) = sgn x"
| "np_sign PInf = 1"
| "np_sign NInf = - 1"
| "np_sign NaN = 0"

fun np_neg :: "npfloat \<Rightarrow> npfloat" where
  "np_neg (Fin x) = Fin (- x)"
| "np_neg PInf = NInf"
| "np_neg NInf = PInf"
| "np_neg NaN = NaN"

fun np_add :: "npfloat \<Rightarrow> npfloat \<Rightarrow> npfloat" where
  "np_add (Fin x) (Fin y) = Fin (x + y)"
| "np_add NaN b = NaN"
| "np_add a NaN = NaN"
| "np_add PInf NInf = NaN"
| "np_add NInf PInf = NaN"
| "np_add PInf b = PInf"
| "np_add a PInf = PInf"
| "np_add NInf b = NInf"
| "np_add a NInf = NInf"

definition np_sub :: "npfloat \<Rightarrow> npfloat \<Rightarrow> npfloat" where
  "np_sub a b = np_add a (np_neg b)"

fun np_mul :: "npfloat \<Rightarrow> npfloat \<Rightarrow> npfloat" where
  "np_mul (Fin x) (Fin y) = Fin (x * y)"
| "np_mul NaN b = NaN"
| "np_mul a NaN = NaN"
| "np_mul a b = inf_of_sign (np_sign a * np_sign b)"

fun np_div :: "npfloat \<Rightarrow> npfloat \<Rightarrow> npfloat" where
  "np_div (Fin x) (Fin y) = (if y = 0 then inf_of_sign x else Fin (x / y))"
| "np_div NaN b = NaN"
| "np_div a NaN = NaN"
| "np_div (Fin x) b = Fin 0"
| "np_div a (Fin y) = (if y < 0 then np_neg a else a)"
| "np_div a b = NaN"

text \<open>\<^verbatim>\<open>a**2\<close> and \<^verbatim>\<open>a**0.5\<close> (the C function \<^verbatim>\<open>pow\<close>).\<close>

definition np_square :: "npfloat \<Rightarrow> npfloat" where
  "np_square a = np_mul a a"

fun np_sqrt :: "npfloat \<Rightarrow> npfloat" where
  "np_sqrt (Fin x) = (if x < 0 then NaN else Fin (sqrt x))"
| "np_sqrt PInf = PInf"
| "np_sqrt NInf = PInf"
| "np_sqrt NaN = NaN"

text \<open>
  \<^verbatim>\<open>y[k-1, i] = (y[k, i] - y[k, k]*y[k, k-i-1]) / (1 - y[k, k]**2)\<close>
  for \<open>i\<close> in \<^verbatim>\<open>range(k)\<close>, for \<open>k\<close> from \<open>n - 1\<close> down to 1.
\<close>

definition unconstrain_inner :: "nat \<Rightarrow> npfloat list list \<Rightarrow> npfloat list list" where
  "unconstrain_inner k y =
     fold (\<lambda>i y. set_entry y (k - 1) i
             (np_div (np_sub (y ! k ! i) (np_mul (y ! k ! k) (y ! k ! (k - i - 1))))
                     (np_sub (Fin 1) (np_square (y ! k ! k)))))
       [0..<k] y"

fun unconstrain_loop :: "nat \<Rightarrow> npfloat list list \<Rightarrow> npfloat list list" where
  "unconstrain_loop 0 y = y"
| "unconstrain_loop (Suc k) y = unconstrain_loop k (unconstrain_inner (Suc k) y)"

text \<open>\<^verbatim>\<open>y = np.zeros((n, n)); y[n-1:] = -constrained\<close>, then the loops.\<close>

definition unconstrain_y :: "vec \<Rightarrow> npfloat list list" where
  "unconstrain_y constrained =
     (let n = length constrained;
          y = replicate n (replicate n (Fin 0))
      in unconstrain_loop (n - 1)
           (if n = 0 then y else y[n - 1 := map (\<lambda>c. Fin (- c)) constrained]))"

text \<open>\<^verbatim>\<open>r = y.diagonal()\<close>\<close>

definition diagonal :: "'a list list \<Rightarrow> 'a list" where
  "diagonal y = map (\<lambda>k. y ! k ! k) [0..<length y]"

text \<open>\<^verbatim>\<open>x = r / ((1 - r**2)**0.5)\<close>\<close>

definition unsquash :: "npfloat \<Rightarrow> npfloat" where
  "unsquash r = np_div r (np_sqrt (np_sub (Fin 1) (np_square r)))"

definition unconstrain_stationary_univariate :: "vec \<Rightarrow> npfloat list" where
  "unconstrain_stationary_univariate constrained =
     map unsquash (diagonal (unconstrain_y constrained))"

section \<open>The multivariate transforms\<close>

text \<open>
  A sequence of coefficient matrices reaches the public functions either as a Python list
  of arrays or as one array of shape \<open>(k_endog, order * k_endog)\<close>. An optional
  argument whose default is \<^verbatim>\<open>None\<close> is an \<open>option\<close>.
\<close>

datatype coefficients = CoefList "matrix list" | CoefStacked matrix

definition default_order :: "nat option \<Rightarrow> 'a list \<Rightarrow> nat" where
  \<comment> \<open>\<^verbatim>\<open>if order is None: order = len(xs)\<close>\<close>
  "default_order order xs = (case order of None \<Rightarrow> length xs | Some p \<Rightarrow> p)"

definition default_k_endog :: "nat option \<Rightarrow> matrix list \<Rightarrow> error + nat" where
  \<comment> \<open>\<^verbatim>\<open>if k_endog is None: k_endog = xs[0].shape[0]\<close>\<close>
  "default_k_endog k_endog xs =
     (case k_endog of
        Some k \<Rightarrow> Inr k
      | None \<Rightarrow> (case xs of [] \<Rightarrow> Inl IndexError | A # _ \<Rightarrow> Inr (length A)))"

definition item :: "'a list \<Rightarrow> nat \<Rightarrow> error + 'a" where
  \<comment> \<open>\<^verbatim>\<open>xs[i]\<close> for \<open>i \<ge> 0\<close>\<close>
  "item xs i = (if i < length xs then Inr (xs ! i) else Inl IndexError)"

definition has_rows :: "nat \<Rightarrow> matrix \<Rightarrow> bool" where
  "has_rows k A = is_shape k (ncols A) A"

subsection \<open>\<^verbatim>\<open>_constrain_sv_less_than_one_python\<close> and \<^verbatim>\<open>_unconstrain_sv_less_than_one\<close>\<close>

text \<open>
  The body of the loop of each function. A matrix that does not have \<open>k_endog\<close> rows
  would be broadcast against \<^verbatim>\<open>np.eye(k_endog)\<close> or rejected by numpy; the model
  covers matrices of \<open>k_endog\<close> rows.
\<close>

definition constrain_sv :: "nat \<Rightarrow> matrix \<Rightarrow> error + matrix" where
  "constrain_sv k_endog A =
     (if \<not> has_rows k_endog A then Inl Unmodelled
      else ebind (cho_factor (add (eye k_endog) (dot A (transpose_m A))))
             (\<lambda>B. solve_triangular B A))"

definition constrain_sv_less_than_one_python ::
  "matrix list \<Rightarrow> nat option \<Rightarrow> nat option \<Rightarrow> error + matrix list" where
  "constrain_sv_less_than_one_python unconstrained order k_endog =
     (let order = default_order order unconstrained in
      ebind (default_k_endog k_endog unconstrained) (\<lambda>k_endog.
        emap (\<lambda>i. ebind (item unconstrained i) (constrain_sv k_endog)) [0..<order]))"

definition unconstrain_sv :: "nat \<Rightarrow> matrix \<Rightarrow> error + matrix" where
  "unconstrain_sv k_endog P =
     (if \<not> has_rows k_endog P then Inl Unmodelled
      else ebind (cho_factor (sub (eye k_endog) (dot P (transpose_m P))))
             (\<lambda>B_inv. solve_triangular B_inv P))"

definition unconstrain_sv_less_than_one ::
  "matrix list \<Rightarrow> nat option \<Rightarrow> nat option \<Rightarrow> error + matrix list" where
  "unconstrain_sv_less_than_one constrained order k_endog =
     (let order = default_order order constrained in
      ebind (default_k_endog k_endog constrained) (\<lambda>k_endog.
        emap (\<lambda>i. ebind (item constrained i) (unconstrain_sv k_endog)) [0..<order]))"

subsection \<open>\<^verbatim>\<open>_compute_coefficients_from_multivariate_pacf_python\<close>\<close>

text \<open>The arrays and matrices the loop over \<open>s\<close> carries from one pass to the next.\<close>

record pacf_state =
  forwards :: matrix
  backwards :: matrix
  autocovariances :: matrix
  forward_variance :: matrix
  backward_variance :: matrix
  forward_factors :: matrix
  backward_factors :: matrix

text \<open>The body of \<^verbatim>\<open>for k in range(s)\<close>.\<close>

definition pacf_inner :: "nat \<Rightarrow> nat \<Rightarrow> matrix \<Rightarrow> matrix \<Rightarrow> nat \<Rightarrow> pacf_state \<Rightarrow> pacf_state" where
  "pacf_inner k_endog s prev_forwards prev_backwards k st =
     st\<lparr>forwards := set_cols (forwards st) k k_endog
           (sub (block prev_forwards k k_endog)
                (dot (block (forwards st) s k_endog) (block prev_backwards (s - k - 1) k_endog))),
        backwards := set_cols (backwards st) k k_endog
           (sub (block prev_backwards k k_endog)
                (dot (block (backwards st) s k_endog) (block prev_forwards (s - k - 1) k_endog))),
        autocovariances := set_cols (autocovariances st) (s + 1) k_endog
           (add (block (autocovariances st) (s + 1) k_endog)
                (dot (block (autocovariances st) (k + 1) k_endog)
                     (transpose_m (block prev_forwards (s - k - 1) k_endog))))\<rparr>"

text \<open>The body of \<^verbatim>\<open>for s in range(order)\<close>.\<close>

definition pacf_step :: "matrix \<Rightarrow> nat \<Rightarrow> nat \<Rightarrow> pacf_state \<Rightarrow> error + pacf_state" where
  "pacf_step P k_endog s st =
     (let prev_forwards = forwards st;
          prev_backwards = backwards st;
          Ps = block P s k_endog
      in
      ebind (solve_triangular_T (backward_factors st) (transpose_m Ps)) (\<lambda>x.
      ebind (solve_triangular_T (forward_factors st) Ps) (\<lambda>y.
        let fw = set_cols (forwards st) s k_endog (dot (forward_factors st) (transpose_m x));
            bw = set_cols (backwards st) s k_endog (dot (backward_factors st) (transpose_m y));
            tmp = dot (block fw s k_endog) (backward_variance st);
            ac = set_cols (autocovariances st) (s + 1) k_endog (transpose_m tmp);
            st1 = fold (pacf_inner k_endog s prev_forwards prev_backwards) [0..<s]
                    (st\<lparr>forwards := fw, backwards := bw, autocovariances := ac\<rparr>);
            bv = sub (backward_variance st)
                   (dot (dot (block (backwards st1) s k_endog) (forward_variance st))
                        (transpose_m (block (backwards st1) s k_endog)));
            fv = sub (forward_variance st)
                   (dot tmp (transpose_m (block (forwards st1) s k_endog)))
        in
        ebind (cholesky fv) (\<lambda>ff.
        ebind (cholesky bv) (\<lambda>bf.
          Inr (st1\<lparr>forward_variance := fv, backward_variance := bv,
                    forward_factors := ff, backward_factors := bf\<rparr>))))))"

definition pacf_init :: "matrix \<Rightarrow> matrix \<Rightarrow> nat \<Rightarrow> nat \<Rightarrow> pacf_state" where
  "pacf_init error_variance error_variance_factor order k_endog =
     \<lparr>forwards = zeros k_endog (k_endog * order),
      backwards = zeros k_endog (k_endog * order),
      autocovariances = set_cols (zeros k_endog (k_endog * (order + 1))) 0 k_endog error_variance,
      forward_variance = error_variance,
      backward_variance = error_variance,
      forward_factors = error_variance_factor,
      backward_factors = error_variance_factor\<rparr>"

text \<open>
  \<^verbatim>\<open>for s in range(order): forwards[:, s*k_endog:(s+1)*k_endog] =
  np.dot(np.dot(transform, forwards[:, s*k_endog:(s+1)*k_endog]), inv_transform)\<close>
\<close>

definition conjugate_blocks :: "matrix \<Rightarrow> matrix \<Rightarrow> nat \<Rightarrow> nat \<Rightarrow> matrix \<Rightarrow> matrix" where
  "conjugate_blocks transform inv_transform order k_endog F =
     fold (\<lambda>s F. set_cols F s k_endog
                   (dot (dot transform (block F s k_endog)) inv_transform))
       [0..<order] F"

definition compute_coefficients_from_multivariate_pacf_python ::
  "matrix list \<Rightarrow> matrix \<Rightarrow> nat \<Rightarrow> nat \<Rightarrow> bool \<Rightarrow> error + matrix \<times> matrix" where
  "compute_coefficients_from_multivariate_pacf_python
     partial_autocorrelations error_variance order k_endog transform_variance =
     ebind (concatenate partial_autocorrelations) (\<lambda>P.
       let initial_variance = error_variance;
           error_variance =
             (if \<not> transform_variance
              then scale (real ((order + k_endog) ^ 10)) (eye k_endog)
              else error_variance)
       in
       ebind (cholesky error_variance) (\<lambda>error_variance_factor.
       ebind (efold (pacf_step P k_endog) [0..<order]
                (pacf_init error_variance error_variance_factor order k_endog)) (\<lambda>st.
         let variance = forward_variance st in
         if \<not> transform_variance then
           ebind (cholesky initial_variance) (\<lambda>initial_variance_factor.
           ebind (cholesky variance) (\<lambda>transformed_variance_factor.
           ebind (inv transformed_variance_factor) (\<lambda>inv_factor.
             let transform = dot initial_variance_factor inv_factor in
             ebind (inv transform) (\<lambda>inv_transform.
               Inr (conjugate_blocks transform inv_transform order k_endog (forwards st),
                    variance)))))
         else Inr (forwards st, variance))))"

subsection \<open>\<^verbatim>\<open>_compute_multivariate_acovf_from_coefficients\<close>\<close>

text \<open>
  The companion matrix of \<^verbatim>\<open>[1] + [-coefficients[i] for i in range(order)]\<close>, a fresh
  Python list of numpy arrays behind the identity marker, transposed; the stationary
  covariance of the stacked process from the discrete Lyapunov equation; its blocks.
\<close>

definition last_cols :: "matrix \<Rightarrow> nat \<Rightarrow> matrix" where
  \<comment> \<open>\<^verbatim>\<open>M[:, -k:]\<close>\<close>
  "last_cols M k = map (\<lambda>row. if k = 0 then row else drop (length row - k) row) M"

fun acovf_tail :: "matrix \<Rightarrow> matrix \<Rightarrow> nat \<Rightarrow> nat \<Rightarrow> matrix list" where
  \<comment> \<open>\<^verbatim>\<open>stacked_cov = np.dot(companion, stacked_cov);
      autocovariances += [stacked_cov[:k_endog, -k_endog:]]\<close>, \<open>n\<close> times\<close>
  "acovf_tail companion stacked_cov k_endog 0 = []"
| "acovf_tail companion stacked_cov k_endog (Suc n) =
     (let stacked_cov = dot companion stacked_cov
      in last_cols (take k_endog stacked_cov) k_endog
           # acovf_tail companion stacked_cov k_endog n)"

definition compute_multivariate_acovf_from_coefficients ::
  "matrix list \<Rightarrow> matrix \<Rightarrow> nat option \<Rightarrow> nat option \<Rightarrow> nat option \<Rightarrow> error + matrix list" where
  "compute_multivariate_acovf_from_coefficients coefficients error_variance order k_endog maxlag =
     (let order = default_order order coefficients in
      ebind (default_k_endog k_endog coefficients) (\<lambda>k_endog.
        let lags = (case maxlag of None \<Rightarrow> order | Some l \<Rightarrow> l + 1) in
        ebind (emap (\<lambda>i. ebind (item coefficients i) (\<lambda>C. Inr (Arr (neg C)))) [0..<order])
          (\<lambda>cs.
        ebind (fst (companion_matrix (PSeq PyList (Num 1 # cs)))) (\<lambda>cm.
          let companion = transpose_m cm in
          if \<not> is_shape k_endog k_endog error_variance then Inl Unmodelled
          else
            let selected_variance =
                  mat (nrows companion) (ncols companion)
                    (\<lambda>i j. if i < k_endog \<and> j < k_endog then error_variance ! i ! j else 0)
            in
            ebind (solve_discrete_lyapunov companion selected_variance) (\<lambda>stacked_cov.
              Inr (map (\<lambda>i. block (take k_endog stacked_cov) i k_endog) [0..<min order lags]
                   @ acovf_tail companion stacked_cov k_endog (lags - order)))))))"

subsection \<open>\<^verbatim>\<open>_compute_multivariate_pacf_from_coefficients\<close>\<close>

record ladder =
  fwd :: "matrix list"     \<comment> \<open>\<^verbatim>\<open>forwards\<close>\<close>
  bwd :: "matrix list"     \<comment> \<open>\<^verbatim>\<open>backwards\<close>\<close>
  fwd_variances :: "matrix list"
  bwd_variances :: "matrix list"
  fwd_factors :: "matrix list"
  bwd_factors :: "matrix list"
  partial_autocorrelations :: "matrix list"

definition list_insert :: "'a list \<Rightarrow> nat \<Rightarrow> 'a \<Rightarrow> 'a list" where
  \<comment> \<open>\<^verbatim>\<open>xs.insert(k, v)\<close>\<close>
  "list_insert xs k v = take k xs @ v # drop k xs"

text \<open>
  \<^verbatim>\<open>for k in range(s): forwards.insert(k, prev_forwards[k] - np.dot(forwards[-1],
  prev_backwards[s-(k+1)]))\<close>, and the same for \<^verbatim>\<open>backwards\<close>.
\<close>

definition ladder_fill ::
  "nat \<Rightarrow> matrix list \<Rightarrow> matrix list \<Rightarrow> matrix list \<times> matrix list \<Rightarrow> matrix list \<times> matrix list" where
  "ladder_fill s prev_forwards prev_backwards =
     fold (\<lambda>k (fs, bs).
             (list_insert fs k (sub (prev_forwards ! k) (dot (last fs) (prev_backwards ! (s - (k + 1))))),
              list_insert bs k (sub (prev_backwards ! k) (dot (last bs) (prev_forwards ! (s - (k + 1)))))))
       [0..<s]"

definition ladder_step :: "matrix list \<Rightarrow> nat \<Rightarrow> ladder \<Rightarrow> error + ladder" where
  "ladder_step acov s st =
     (let prev_forwards = fwd st;
          prev_backwards = bwd st;
          forward_variance =
            fold (\<lambda>k v. sub v (dot (prev_forwards ! k) (acov ! (k + 1)))) [0..<s] (acov ! 0);
          backward_variance =
            fold (\<lambda>k v. sub v (dot (prev_backwards ! k) (transpose_m (acov ! (k + 1)))))
              [0..<s] (transpose_m (acov ! 0));
          forward_variances = fwd_variances st @ [forward_variance];
          backward_variances = bwd_variances st @ [backward_variance]
      in
      ebind (cholesky (forward_variances ! s)) (\<lambda>ff.
      ebind (cholesky (backward_variances ! s)) (\<lambda>bf.
        let forward_factors = fwd_factors st @ [ff];
            backward_factors = bwd_factors st @ [bf]
        in
        ebind
          (if s = 0 then
             ebind (cho_solve (forward_factors ! 0) (acov ! 1)) (\<lambda>x.
             ebind (cho_solve (backward_factors ! 0) (transpose_m (acov ! 1))) (\<lambda>y.
               Inr ([transpose_m x], [transpose_m y])))
           else
             let tmp_sum =
                   fold (\<lambda>k t. sub t (dot (prev_forwards ! k) (transpose_m (acov ! (s - k)))))
                     [0..<s] (transpose_m (acov ! (s + 1)))
             in
             ebind (cho_solve (backward_factors ! s) (transpose_m tmp_sum)) (\<lambda>x.
             ebind (cho_solve (forward_factors ! s) tmp_sum) (\<lambda>y.
               Inr ([transpose_m x], [transpose_m y]))))
          (\<lambda>lasts.
            let (forwards, backwards) = ladder_fill s prev_forwards prev_backwards lasts in
            ebind (solve_triangular (forward_factors ! s)
                     (dot (forwards ! s) (backward_factors ! s))) (\<lambda>pacf.
              Inr \<lparr>fwd = forwards, bwd = backwards,
                   fwd_variances = forward_variances, bwd_variances = backward_variances,
                   fwd_factors = forward_factors, bwd_factors = backward_factors,
                   partial_autocorrelations = partial_autocorrelations st @ [pacf]\<rparr>)))))"

definition compute_multivariate_pacf_from_coefficients ::
  "matrix list \<Rightarrow> matrix \<Rightarrow> nat option \<Rightarrow> nat option \<Rightarrow> error + matrix list" where
  "compute_multivariate_pacf_from_coefficients constrained error_variance order k_endog =
     (let order = default_order order constrained in
      ebind (default_k_endog k_endog constrained) (\<lambda>k_endog.
      ebind (compute_multivariate_acovf_from_coefficients constrained error_variance
               (Some order) (Some k_endog) (Some order)) (\<lambda>acovf.
        let autocovariances = map transpose_m acovf in
        ebind (efold (ladder_step autocovariances) [0..<order]
                 \<lparr>fwd = [], bwd = [], fwd_variances = [], bwd_variances = [],
                  fwd_factors = [], bwd_factors = [], partial_autocorrelations = []\<rparr>)
          (\<lambda>st. Inr (partial_autocorrelations st)))))"

subsection \<open>\<^verbatim>\<open>unconstrain_stationary_multivariate\<close>\<close>

definition as_list :: "coefficients \<Rightarrow> error + matrix list" where
  \<comment> \<open>\<^verbatim>\<open>k_endog, order = M.shape; order //= k_endog;
      [M[:k_endog, i*k_endog:(i+1)*k_endog] for i in range(order)]\<close>\<close>
  "as_list c =
     (case c of
        CoefList Ms \<Rightarrow> Inr Ms
      | CoefStacked M \<Rightarrow>
          let k_endog = nrows M; order = ncols M in
          if k_endog = 0 then Inl ZeroDivisionError
          else Inr (map (\<lambda>i. block (take k_endog M) i k_endog) [0..<order div k_endog]))"

definition like :: "coefficients \<Rightarrow> matrix list \<Rightarrow> error + coefficients" where
  \<comment> \<open>\<^verbatim>\<open>if not use_list: Ms = np.concatenate(Ms, axis=1)\<close>\<close>
  "like c Ms =
     (case c of
        CoefList _ \<Rightarrow> Inr (CoefList Ms)
      | CoefStacked _ \<Rightarrow> ebind (concatenate Ms) (\<lambda>M. Inr (CoefStacked M)))"

definition unconstrain_stationary_multivariate ::
  "coefficients \<Rightarrow> matrix \<Rightarrow> bool \<Rightarrow> error + coefficients \<times> matrix" where
  "unconstrain_stationary_multivariate constrained error_variance transform_variance =
     ebind (as_list constrained) (\<lambda>Cs.
       let order = length Cs in
       ebind (default_k_endog None Cs) (\<lambda>k_endog.
       ebind (compute_multivariate_pacf_from_coefficients Cs error_variance
                (Some order) (Some k_endog)) (\<lambda>pacf.
       ebind (unconstrain_sv_less_than_one pacf (Some order) (Some k_endog)) (\<lambda>unconstrained.
       ebind (like constrained unconstrained) (\<lambda>unconstrained.
         Inr (unconstrained, error_variance))))))"

section \<open>Positive definite matrices and singular values\<close>

text \<open>
  The notions the claims about the Cholesky factorisations are stated with. A vector is a
  function of its index where a quadratic form is written as a sum, and a list where it
  is multiplied by an array. \<open>low L\<close> reads a lower triangular factor, with the zeros
  above the diagonal.
\<close>

definition low :: "matrix \<Rightarrow> nat \<Rightarrow> nat \<Rightarrow> real" where
  "low L i k = (if k \<le> i then L ! i ! k else 0)"

definition quadratic_form :: "nat \<Rightarrow> matrix \<Rightarrow> (nat \<Rightarrow> real) \<Rightarrow> real" where
  "quadratic_form n A w = (\<Sum>i<n. \<Sum>j<n. w i * A ! i ! j * w j)"

definition pos_def :: "nat \<Rightarrow> matrix \<Rightarrow> bool" where
  "pos_def n A = (\<forall>w. (\<exists>i<n. w i \<noteq> 0) \<longrightarrow> 0 < quadratic_form n A w)"

definition symmetric :: "nat \<Rightarrow> matrix \<Rightarrow> bool" where
  "symmetric n A = (\<forall>i<n. \<forall>j<n. A ! i ! j = A ! j ! i)"

text \<open>\<open>M v\<close> for an array \<open>M\<close> and a vector \<open>v\<close>.\<close>

definition mat_vec :: "matrix \<Rightarrow> vec \<Rightarrow> vec" where
  "mat_vec M v = map (\<lambda>row. \<Sum>j<length v. row ! j * v ! j) M"

text \<open>
  \<open>s\<close> is a singular value of the \<open>k \<times> k\<close> matrix \<open>P\<close>: it is not negative and its
  square is an eigenvalue of \<open>P P\<^sup>T\<close>.
\<close>

definition singular_value :: "nat \<Rightarrow> matrix \<Rightarrow> real \<Rightarrow> bool" where
  "singular_value k P s =
     (0 \<le> s \<and> (\<exists>v. length v = k \<and> (\<exists>i<k. v ! i \<noteq> 0) \<and>
                    mat_vec (dot P (transpose_m P)) v = map ((*) (s\<^sup>2)) v))"

text \<open>
  A singular value decomposition \<open>P = U diag(s) V\<^sup>T\<close> of a \<open>k \<times> k\<close> matrix, with
  orthogonal \<open>U\<close> and \<open>V\<close> and no negative entry in \<open>s\<close>: the entries of \<open>s\<close> are
  the singular values of \<open>P\<close>.
\<close>

definition diag_m :: "vec \<Rightarrow> matrix" where
  "diag_m s = mat (length s) (length s) (\<lambda>i j. if i = j then s ! i else 0)"

definition orthogonal :: "nat \<Rightarrow> matrix \<Rightarrow> bool" where
  "orthogonal k U =
     (is_shape k k U \<and> dot U (transpose_m U) = eye k \<and> dot (transpose_m U) U = eye k)"

definition svd :: "nat \<Rightarrow> matrix \<Rightarrow> matrix \<Rightarrow> vec \<Rightarrow> matrix \<Rightarrow> bool" where
  "svd k P U s V =
     (orthogonal k U \<and> orthogonal k V \<and> length s = k \<and> list_all (\<lambda>x. 0 \<le> x) s \<and>
      P = dot (dot U (diag_m s)) (transpose_m V))"

section \<open>\<^verbatim>\<open>is_invertible\<close>\<close>

text \<open>
  \<^verbatim>\<open>np.linalg.eigvals\<close> returns the eigenvalues of a real matrix, which are complex
  numbers; \<^verbatim>\<open>is_invertible\<close> answers whether the modulus of each of them is below
  the threshold. \<open>l\<close> is an eigenvalue of \<open>M\<close> when \<open>M v = l v\<close> for a complex vector
  \<open>v\<close> that is not zero.
\<close>

definition eigenvalue :: "matrix \<Rightarrow> complex \<Rightarrow> bool" where
  "eigenvalue M l =
     (\<exists>v. (\<exists>i<length M. v i \<noteq> 0) \<and>
          (\<forall>i<length M. (\<Sum>j<length M. complex_of_real (M ! i ! j) * v j) = l * v i))"

definition is_invertible :: "polynomial \<Rightarrow> real \<Rightarrow> error + bool" where
  "is_invertible polynomial threshold =
     ebind (fst (companion_matrix polynomial))
       (\<lambda>M. Inr (\<forall>l. eigenvalue M l \<longrightarrow> cmod l < threshold))"

text \<open>
  The rows of the array \<open>y\<close> of \<^verbatim>\<open>constrain_stationary_univariate\<close>, entry by entry:
  \<open>y[k, i] = y[k - 1, i] + r[k] y[k - 1, k - i - 1]\<close> for \<open>i < k\<close>, \<open>y[k, k] = r[k]\<close>,
  and zero to the right of the diagonal.
\<close>

fun levinson :: "vec \<Rightarrow> nat \<Rightarrow> nat \<Rightarrow> real" where
  "levinson r 0 i = (if i = 0 then r ! 0 else 0)"
| "levinson r (Suc k) i =
     (if i \<le> k then levinson r k i + r ! Suc k * levinson r k (k - i)
      else if i = Suc k then r ! Suc k else 0)"

text \<open>
  The characteristic polynomial of the companion matrix of row \<open>k\<close> and its reversal:
  \<open>p\<^sub>k(l) = l\<^sup>k\<^sup>+\<^sup>1 + \<Sum>\<^sub>i y[k, i] l\<^sup>k\<^sup>-\<^sup>i\<close> and \<open>q\<^sub>k(l) = 1 + \<Sum>\<^sub>i y[k, i] l\<^sup>i\<^sup>+\<^sup>1\<close>.
\<close>

definition char_poly :: "vec \<Rightarrow> nat \<Rightarrow> complex \<Rightarrow> complex" where
  "char_poly r k l = l ^ Suc k + (\<Sum>i<Suc k. complex_of_real (levinson r k i) * l ^ (k - i))"

definition rev_poly :: "vec \<Rightarrow> nat \<Rightarrow> complex \<Rightarrow> complex" where
  "rev_poly r k l = 1 + (\<Sum>i<Suc k. complex_of_real (levinson r k i) * l ^ Suc i)"

text \<open>
  The lag polynomial of autoregressive coefficients \<open>c\<close>, \<^verbatim>\<open>np.r_[1, -c]\<close>, whose
  companion matrix has \<open>c\<close> in its first column.
\<close>

definition ar_polynomial :: "vec \<Rightarrow> polynomial" where
  "ar_polynomial c = PSeq NdArray (Num 1 # map (\<lambda>x. Num (- x)) c)"

text \<open>An array of any element type, from its entries.\<close>

definition table :: "nat \<Rightarrow> nat \<Rightarrow> (nat \<Rightarrow> nat \<Rightarrow> 'a) \<Rightarrow> 'a list list" where
  "table r c f = map (\<lambda>i. map (f i) [0..<c]) [0..<r]"

section \<open>Lag polynomials of coefficient matrices\<close>

text \<open>
  The product \<open>w M\<close> of a complex row vector and a real \<open>k \<times> k\<close> array, the inner
  product and the squared norm of complex vectors, and the form \<open>w A w\<^sup>*\<close>. Vectors
  are functions of their index.
\<close>

definition vec_mat :: "nat \<Rightarrow> (nat \<Rightarrow> complex) \<Rightarrow> matrix \<Rightarrow> nat \<Rightarrow> complex" where
  "vec_mat k w M j = (\<Sum>i<k. w i * complex_of_real (M ! i ! j))"

definition cinner :: "nat \<Rightarrow> (nat \<Rightarrow> complex) \<Rightarrow> (nat \<Rightarrow> complex) \<Rightarrow> complex" where
  "cinner k u v = (\<Sum>j<k. u j * cnj (v j))"

definition norm2 :: "nat \<Rightarrow> (nat \<Rightarrow> complex) \<Rightarrow> real" where
  "norm2 k v = (\<Sum>j<k. (cmod (v j))\<^sup>2)"

definition hermitian_form :: "nat \<Rightarrow> matrix \<Rightarrow> (nat \<Rightarrow> complex) \<Rightarrow> complex" where
  "hermitian_form k A w = (\<Sum>i<k. \<Sum>l<k. w i * cnj (w l) * complex_of_real (A ! i ! l))"

text \<open>
  With the first \<open>s\<close> blocks \<open>F\<^sub>0, \<dots>, F\<^sub>s\<^sub>-\<^sub>1\<close> of \<^verbatim>\<open>forwards\<close> and \<open>B\<^sub>0, \<dots>, B\<^sub>s\<^sub>-\<^sub>1\<close>
  of \<^verbatim>\<open>backwards\<close>, the row vectors \<open>w (I - \<Sum>\<^sub>t z\<^sup>t\<^sup>+\<^sup>1 F\<^sub>t)\<close> and
  \<open>w (z\<^sup>s I - \<Sum>\<^sub>t z\<^sup>s\<^sup>-\<^sup>1\<^sup>-\<^sup>t B\<^sub>t)\<close>.
\<close>

definition forward_lag ::
  "nat \<Rightarrow> nat \<Rightarrow> matrix \<Rightarrow> complex \<Rightarrow> (nat \<Rightarrow> complex) \<Rightarrow> nat \<Rightarrow> complex" where
  "forward_lag k s F z w j = w j - (\<Sum>t<s. z ^ Suc t * vec_mat k w (block F t k) j)"

definition backward_lag ::
  "nat \<Rightarrow> nat \<Rightarrow> matrix \<Rightarrow> complex \<Rightarrow> (nat \<Rightarrow> complex) \<Rightarrow> nat \<Rightarrow> complex" where
  "backward_lag k s B z w j = z ^ s * w j - (\<Sum>t<s. z ^ (s - 1 - t) * vec_mat k w (block B t k) j)"

text \<open>
  What the loop of \<^verbatim>\<open>_compute_coefficients_from_multivariate_pacf_python\<close> keeps true of
  its state: the shapes of the arrays, the symmetry of the two variances, and that the two
  factors are the Cholesky factors of the two variances.
\<close>

definition pacf_wf :: "nat \<Rightarrow> nat \<Rightarrow> pacf_state \<Rightarrow> bool" where
  "pacf_wf k order st =
     (is_shape k (order * k) (forwards st) \<and> is_shape k (order * k) (backwards st) \<and>
      is_shape k k (forward_variance st) \<and> is_shape k k (backward_variance st) \<and>
      symmetric k (forward_variance st) \<and> symmetric k (backward_variance st) \<and>
      (\<exists>L. cholesky_rows (forward_variance st) k = Inr L \<and> forward_factors st = mat k k (low L)) \<and>
      (\<exists>L. cholesky_rows (backward_variance st) k = Inr L \<and> backward_factors st = mat k k (low L)))"

text \<open>
  After \<open>s\<close> passes, with the forward factor \<open>L\<close> and the backward factor \<open>L\<^sup>*\<close>: whenever
  \<open>a (I - \<Sum>\<^sub>t z\<^sup>t\<^sup>+\<^sup>1 F\<^sub>t) + b (z\<^sup>s I - \<Sum>\<^sub>t z\<^sup>s\<^sup>-\<^sup>1\<^sup>-\<^sup>t B\<^sub>t) = 0\<close> for a \<open>z\<close> of the closed unit
  disc, \<open>\<parallel>a L\<parallel> \<le> \<parallel>b L\<^sup>*\<parallel>\<close>.
\<close>

definition pacf_stable :: "nat \<Rightarrow> nat \<Rightarrow> pacf_state \<Rightarrow> bool" where
  "pacf_stable k s st =
     (\<forall>z a b. cmod z \<le> 1 \<longrightarrow>
        (\<forall>j<k. forward_lag k s (forwards st) z a j + backward_lag k s (backwards st) z b j = 0) \<longrightarrow>
        norm2 k (vec_mat k a (forward_factors st)) \<le> norm2 k (vec_mat k b (backward_factors st)))"

text \<open>
  The matrix \<open>I - \<Sum>\<^sub>t z\<^sup>t\<^sup>+\<^sup>1 F\<^sub>t\<close> of the \<open>p\<close> blocks of \<open>F\<close> has no kernel on the left for
  any \<open>z\<close> of the closed unit disc.
\<close>

definition lag_regular :: "nat \<Rightarrow> nat \<Rightarrow> matrix \<Rightarrow> bool" where
  "lag_regular k p F =
     (\<forall>z a. cmod z \<le> 1 \<longrightarrow> (\<forall>j<k. forward_lag k p F z a j = 0) \<longrightarrow> (\<forall>j<k. a j = 0))"

text \<open>
  What Gauss-Jordan elimination on \<open>[T | I]\<close> keeps true of the array \<open>M = [X | Y]\<close> of
  \<open>n\<close> rows when it reaches column \<open>c\<close>: \<open>Y T = X\<close>, and the first \<open>c\<close> columns of
  \<open>X\<close> are those of the identity.
\<close>

definition gj_inv :: "matrix \<Rightarrow> nat \<Rightarrow> nat \<Rightarrow> matrix \<Rightarrow> bool" where
  "gj_inv T n c M =
     (length M = n \<and>
      (\<forall>i<n. length (M ! i) = 2 * n \<and>
              (\<forall>j<n. (\<Sum>l<n. M ! i ! (n + l) * T ! l ! j) = M ! i ! j)) \<and>
      (\<forall>i<n. \<forall>j<c. M ! i ! j = (if i = j then 1 else 0)))"

section \<open>Double precision\<close>

text \<open>
  The arrays of the module hold IEEE 754 binary64 numbers. Where a property depends on
  the rounding of the results, the functions are modelled on \<open>npfloat\<close> with every
  operation rounded: the exact result is rounded to the nearest number with 53 significant
  bits, a tie to the one whose last bit is even, gradually below \<open>2\<^sup>-\<^sup>1\<^sup>0\<^sup>2\<^sup>2\<close>, and to an
  infinity when the rounded magnitude reaches \<open>2\<^sup>1\<^sup>0\<^sup>2\<^sup>4\<close>. The sign of a zero is not
  part of the model (a quotient by zero takes the sign of its numerator), and no product
  is fused with a sum: each product is rounded before it is added.

  \<open>expo x\<close> is the exponent of the binade of \<open>x\<close> and \<open>ulp x\<close> the distance between
  neighbouring numbers there; \<open>rne\<close> rounds a real to the nearest integer, a tie to the
  even one.
\<close>

definition expo :: "real \<Rightarrow> int" where
  "expo x = max \<lfloor>log 2 \<bar>x\<bar>\<rfloor> (- 1022)"

definition ulp :: "real \<Rightarrow> real" where
  "ulp x = 2 powi (expo x - 52)"

definition rne :: "real \<Rightarrow> int" where
  "rne y =
     (let n = \<lfloor>y\<rfloor>; r = y - of_int n
      in if r < 1 / 2 then n else if 1 / 2 < r then n + 1 else if even n then n else n + 1)"

definition round64 :: "real \<Rightarrow> npfloat" where
  "round64 x =
     (if x = 0 then Fin 0
      else let y = of_int (rne (x / ulp x)) * ulp x
           in if 2 ^ 1024 \<le> \<bar>y\<bar> then inf_of_sign x else Fin y)"

fun fl :: "npfloat \<Rightarrow> npfloat" where
  "fl (Fin x) = round64 x"
| "fl PInf = PInf"
| "fl NInf = NInf"
| "fl NaN = NaN"

text \<open>
  The operations of numpy on two doubles, and \<^verbatim>\<open>a**0.5\<close> and the square root of
  LAPACK.
\<close>

definition f_add :: "npfloat \<Rightarrow> npfloat \<Rightarrow> npfloat" where
  "f_add a b = fl (np_add a b)"

definition f_sub :: "npfloat \<Rightarrow> npfloat \<Rightarrow> npfloat" where
  "f_sub a b = fl (np_sub a b)"

definition f_mul :: "npfloat \<Rightarrow> npfloat \<Rightarrow> npfloat" where
  "f_mul a b = fl (np_mul a b)"

definition f_div :: "npfloat \<Rightarrow> npfloat \<Rightarrow> npfloat" where
  "f_div a b = fl (np_div a b)"

definition f_sqrt :: "npfloat \<Rightarrow> npfloat" where
  "f_sqrt a = fl (np_sqrt a)"

type_synonym fvec = "npfloat list"
type_synonym fmatrix = "npfloat list list"

fun is_fin :: "npfloat \<Rightarrow> bool" where
  "is_fin (Fin x) = True"
| "is_fin a = False"

fun positive :: "npfloat \<Rightarrow> bool" where
  "positive (Fin x) = (0 < x)"
| "positive PInf = True"
| "positive a = False"

definition all_finite :: "fmatrix \<Rightarrow> bool" where
  "all_finite M = list_all (list_all is_fin) M"

definition width :: "'a list list \<Rightarrow> nat" where
  "width M = (case M of [] \<Rightarrow> 0 | r # _ \<Rightarrow> length r)"

definition eye_f64 :: "nat \<Rightarrow> fmatrix" where
  "eye_f64 k = table k k (\<lambda>i j. if i = j then Fin 1 else Fin 0)"

definition transpose_f64 :: "fmatrix \<Rightarrow> fmatrix" where
  "transpose_f64 M = table (width M) (length M) (\<lambda>i j. M ! j ! i)"

definition add_f64 :: "fmatrix \<Rightarrow> fmatrix \<Rightarrow> fmatrix" where
  "add_f64 A B = table (length A) (width A) (\<lambda>i j. f_add (A ! i ! j) (B ! i ! j))"

definition sub_f64 :: "fmatrix \<Rightarrow> fmatrix \<Rightarrow> fmatrix" where
  "sub_f64 A B = table (length A) (width A) (\<lambda>i j. f_sub (A ! i ! j) (B ! i ! j))"

text \<open>
  \<^verbatim>\<open>np.dot\<close>: the reference \<^verbatim>\<open>dgemm\<close> starts every entry of the product at zero and
  adds the products in the order of the index.
\<close>

definition dot_f64 :: "fmatrix \<Rightarrow> fmatrix \<Rightarrow> fmatrix" where
  "dot_f64 A B =
     table (length A) (width B)
       (\<lambda>i j. fold (\<lambda>l acc. f_add acc (f_mul (A ! i ! l) (B ! l ! j))) [0..<width A] (Fin 0))"

subsection \<open>\<^verbatim>\<open>cho_factor\<close> and \<^verbatim>\<open>solve_triangular\<close> in double precision\<close>

text \<open>
  The unblocked factorisation of LAPACK (\<^verbatim>\<open>dpotf2\<close>, lower triangle): the entry
  \<open>l\<^sub>i\<^sub>j\<close> below the diagonal is \<open>a\<^sub>i\<^sub>j\<close> less the products \<open>l\<^sub>i\<^sub>m l\<^sub>j\<^sub>m\<close>, one after
  the other, times the reciprocal of \<open>l\<^sub>j\<^sub>j\<close>; the pivot is \<open>a\<^sub>i\<^sub>i\<close> less the sum of the
  squares of the row, and the factorisation stops at a pivot that is not positive or is
  not a number. \<open>factor_row L a j\<close> is the first \<open>j\<close> entries of the row that comes
  after the rows \<open>L\<close>, for the row \<open>a\<close> of the matrix.
\<close>

fun factor_row :: "fmatrix \<Rightarrow> fvec \<Rightarrow> nat \<Rightarrow> fvec" where
  "factor_row L a 0 = []"
| "factor_row L a (Suc j) =
     (let x = factor_row L a j
      in x @ [f_mul (fold (\<lambda>m acc. f_sub acc (f_mul (x ! m) (L ! j ! m))) [0..<j] (a ! j))
                    (f_div (Fin 1) (L ! j ! j))])"

definition sum_squares :: "fvec \<Rightarrow> npfloat" where
  "sum_squares x = fold (\<lambda>v acc. f_add acc (f_mul v v)) x (Fin 0)"

fun cholesky_rows_f64 :: "fmatrix \<Rightarrow> nat \<Rightarrow> error + fmatrix" where
  "cholesky_rows_f64 A 0 = Inr []"
| "cholesky_rows_f64 A (Suc i) =
     ebind (cholesky_rows_f64 A i) (\<lambda>L.
       let x = factor_row L (A ! i) i;
           d = f_sub (A ! i ! i) (sum_squares x)
       in if positive d then Inr (L @ [x @ [f_sqrt d]]) else Inl LinAlgError)"

text \<open>
  \<^verbatim>\<open>scipy.linalg.cho_factor(a, lower=True)\<close> checks that the entries are finite and the
  array is square (\<^verbatim>\<open>ValueError\<close>), and returns the factor in the lower triangle and the
  entries of \<open>a\<close> above the diagonal.
\<close>

definition cho_factor_f64 :: "fmatrix \<Rightarrow> error + fmatrix" where
  "cho_factor_f64 A =
     (let n = length A in
      if \<not> all_finite A then Inl ValueError
      else if \<not> list_all (\<lambda>row. length row = n) A then Inl ValueError
      else ebind (cholesky_rows_f64 A n)
             (\<lambda>L. Inr (table n n (\<lambda>i j. if j \<le> i then L ! i ! j else A ! i ! j))))"

text \<open>
  \<^verbatim>\<open>scipy.linalg.solve_triangular(L, B, lower=True)\<close>: both arrays are checked to be
  finite (\<^verbatim>\<open>ValueError\<close>), a zero on the diagonal is \<^verbatim>\<open>LinAlgError\<close>, and each
  unknown is the right-hand side less the products with the unknowns before it, one
  after the other, divided by the diagonal entry (the reference \<^verbatim>\<open>dtrsm\<close>).
\<close>

fun forward_subst_f64 :: "fmatrix \<Rightarrow> fvec \<Rightarrow> nat \<Rightarrow> fvec" where
  "forward_subst_f64 L b 0 = []"
| "forward_subst_f64 L b (Suc j) =
     (let x = forward_subst_f64 L b j
      in x @ [f_div (fold (\<lambda>m acc. f_sub acc (f_mul (x ! m) (L ! j ! m))) [0..<j] (b ! j))
                    (L ! j ! j)])"

definition solve_triangular_f64 :: "fmatrix \<Rightarrow> fmatrix \<Rightarrow> error + fmatrix" where
  "solve_triangular_f64 L B =
     (let n = length L in
      if \<not> all_finite L \<or> \<not> all_finite B then Inl ValueError
      else if list_ex (\<lambda>j. L ! j ! j = Fin 0) [0..<n] then Inl LinAlgError
      else Inr (table n (width B)
                  (\<lambda>i j. forward_subst_f64 L (map (\<lambda>row. row ! j) B) n ! i)))"

subsection \<open>The transforms in double precision\<close>

text \<open>
  \<^verbatim>\<open>constrain_stationary_univariate\<close>,
  \<^verbatim>\<open>_constrain_sv_less_than_one_python\<close> and \<^verbatim>\<open>_unconstrain_sv_less_than_one\<close> once
  more, statement by statement, with the rounded operations.
\<close>

definition squash_f64 :: "npfloat \<Rightarrow> npfloat" where
  "squash_f64 u = f_div u (f_sqrt (f_add (Fin 1) (f_mul u u)))"

definition constrain_inner_f64 :: "fvec \<Rightarrow> nat \<Rightarrow> fmatrix \<Rightarrow> fmatrix" where
  "constrain_inner_f64 r k y =
     fold (\<lambda>i y. set_entry y k i
             (f_add (y ! (k - 1) ! i) (f_mul (r ! k) (y ! (k - 1) ! (k - i - 1)))))
       [0..<k] y"

definition constrain_step_f64 :: "fvec \<Rightarrow> nat \<Rightarrow> fmatrix \<Rightarrow> fmatrix" where
  "constrain_step_f64 r k y = set_entry (constrain_inner_f64 r k y) k k (r ! k)"

definition constrain_y_f64 :: "fvec \<Rightarrow> fmatrix" where
  "constrain_y_f64 unconstrained =
     (let n = length unconstrained; r = map squash_f64 unconstrained
      in fold (constrain_step_f64 r) [0..<n] (replicate n (replicate n (Fin 0))))"

definition constrain_stationary_univariate_f64 :: "fvec \<Rightarrow> error + fvec" where
  "constrain_stationary_univariate_f64 unconstrained =
     (let n = length unconstrained in
      if n = 0 then Inl IndexError
      else Inr (map np_neg (constrain_y_f64 unconstrained ! (n - 1))))"

definition has_rows_f64 :: "nat \<Rightarrow> fmatrix \<Rightarrow> bool" where
  "has_rows_f64 k A = (length A = k \<and> list_all (\<lambda>row. length row = width A) A)"

definition default_k_endog_f64 :: "nat option \<Rightarrow> fmatrix list \<Rightarrow> error + nat" where
  \<comment> \<open>\<^verbatim>\<open>if k_endog is None: k_endog = xs[0].shape[0]\<close>\<close>
  "default_k_endog_f64 k_endog xs =
     (case k_endog of
        Some k \<Rightarrow> Inr k
      | None \<Rightarrow> (case xs of [] \<Rightarrow> Inl IndexError | A # _ \<Rightarrow> Inr (length A)))"

definition constrain_sv_f64 :: "nat \<Rightarrow> fmatrix \<Rightarrow> error + fmatrix" where
  "constrain_sv_f64 k_endog A =
     (if \<not> has_rows_f64 k_endog A then Inl Unmodelled
      else ebind (cho_factor_f64 (add_f64 (eye_f64 k_endog) (dot_f64 A (transpose_f64 A))))
             (\<lambda>B. solve_triangular_f64 B A))"

definition constrain_sv_less_than_one_python_f64 ::
  "fmatrix list \<Rightarrow> nat option \<Rightarrow> nat option \<Rightarrow> error + fmatrix list" where
  "constrain_sv_less_than_one_python_f64 unconstrained order k_endog =
     (let order = default_order order unconstrained in
      ebind (default_k_endog_f64 k_endog unconstrained) (\<lambda>k_endog.
        emap (\<lambda>i. ebind (item unconstrained i) (constrain_sv_f64 k_endog)) [0..<order]))"

definition unconstrain_sv_f64 :: "nat \<Rightarrow> fmatrix \<Rightarrow> error + fmatrix" where
  "unconstrain_sv_f64 k_endog P =
     (if \<not> has_rows_f64 k_endog P then Inl Unmodelled
      else ebind (cho_factor_f64 (sub_f64 (eye_f64 k_endog) (dot_f64 P (transpose_f64 P))))
             (\<lambda>B_inv. solve_triangular_f64 B_inv P))"

definition unconstrain_sv_less_than_one_f64 ::
  "fmatrix list \<Rightarrow> nat option \<Rightarrow> nat option \<Rightarrow> error + fmatrix list" where
  "unconstrain_sv_less_than_one_f64 constrained order k_endog =
     (let order = default_order order constrained in
      ebind (default_k_endog_f64 k_endog constrained) (\<lambda>k_endog.
        emap (\<lambda>i. ebind (item constrained i) (unconstrain_sv_f64 k_endog)) [0..<order]))"

section \<open>Evaluation of concrete arrays\<close>

lemma mat_Suc: "mat (Suc r) c f = mat r c f @ [map (f r) [0..<c]]"
  by (simp add: mat_def)

lemma mat_0: "mat 0 c f = []"
  by (simp add: mat_def)

lemma ebind_Inl: "ebind (Inl e) f = Inl e"
  by (simp add: ebind_def)

lemma ebind_Inr: "ebind (Inr x) f = f x"
  by (simp add: ebind_def)

text \<open>
  With this congruence rule the simplifier evaluates the first argument of \<open>ebind\<close>
  before it looks at the continuation.
\<close>

lemma ebind_weak_cong: "r = r' \<Longrightarrow> ebind r f = ebind r' f"
  by simp

lemmas eval_simps =
  mat_def nrows_def ncols_def is_shape_def zeros_def eye_def transpose_m_def neg_def
  scale_def add_def sub_def dot_def ebind_Inl ebind_Inr shifted_identity_def
  set_first_column_def set_block_def scalar_companion_def companion_matrix_def inv_def
  solve_def gj_step_def column_def solve_triangular_def solve_triangular_T_def cholesky_def
  cho_factor_def cho_solve_def block_def set_cols_def last_cols_def
  upt_conv_Cons lessThan_Suc numeral_2_eq_2 numeral_3_eq_3 nth_Cons' Let_def
  squash_def set_entry_def constrain_inner_def constrain_step_def constrain_y_def
  constrain_stationary_univariate_def inf_of_sign_def np_sub_def np_square_def
  unconstrain_inner_def unconstrain_y_def diagonal_def unsquash_def
  unconstrain_stationary_univariate_def
  default_order_def default_k_endog_def item_def has_rows_def constrain_sv_def
  constrain_sv_less_than_one_python_def unconstrain_sv_def unconstrain_sv_less_than_one_def

section \<open>What \<^verbatim>\<open>companion_matrix\<close> returns\<close>

lemma companion_matrix_int:
  "companion_matrix (PInt (int n)) = (Inr (shifted_identity n 1), PInt (int n))"
  by (simp add: companion_matrix_def)

lemma shifted_identity_entry:
  "i < n * m \<Longrightarrow> j < n * m \<Longrightarrow>
   shifted_identity n m ! i ! j = (if j = i + m then 1 else 0)"
  by (auto simp: shifted_identity_def mat_def) (cases n; simp)+

text \<open>
  The argument is left as it was, except for a Python list of matrix coefficients whose
  first element equals 1: that element is overwritten by \<^verbatim>\<open>np.eye(m)\<close>.
\<close>

lemma companion_matrix_argument:
  "snd (companion_matrix p) = p \<or>
   (\<exists>cs m. p = PSeq PyList cs \<and> snd (companion_matrix p) = PSeq PyList (cs[0 := Arr (eye m)]))"
proof (cases p)
  case (PInt n)
  then show ?thesis by (simp add: companion_matrix_def)
next
  case (PSeq c cs)
  then show ?thesis
    by (cases c) (auto simp: companion_matrix_def Let_def split: sum.splits bool.splits)
qed

text \<open>
  C5 (as the code has it). \<^verbatim>\<open>companion_matrix(3)\<close> is the 3 x 3 matrix whose only
  non-zero entries are the ones immediately above the main diagonal, at (0, 1) and
  (1, 2), as in the matrix drawn in the docstring; \<^verbatim>\<open>companion_matrix([1, -0.5])\<close>
  is \<^verbatim>\<open>[[0.5]]\<close>.
\<close>

theorem companion_matrix_examples:
  "fst (companion_matrix (PInt 3)) = Inr [[0, 1, 0], [0, 0, 1], [0, 0, 0]] \<and>
   fst (companion_matrix (PSeq PyList [Num 1, Num (- 0.5)])) = Inr [[0.5]]"
  by (simp add: eval_simps cong: ebind_weak_cong let_weak_cong)

text \<open>
  C5 (as the specification words it) fails: the matrix with the ones immediately below
  the main diagonal is not what \<^verbatim>\<open>companion_matrix(3)\<close> returns.
\<close>

theorem companion_matrix_3_not_subdiagonal:
  "fst (companion_matrix (PInt 3)) \<noteq> Inr [[0, 0, 0], [1, 0, 0], [0, 1, 0]]"
  by (simp add: eval_simps cong: ebind_weak_cong let_weak_cong)

text \<open>
  C6 (the code against its docstring). For the matrix polynomial with
  \<open>C\<^sub>0 = [[1, 1], [0, 1]]\<close> and \<open>C\<^sub>1 = [[0, 0], [1, 0]]\<close>, given as nested lists, the
  inverse of \<open>C\<^sub>0\<close> is \<open>[[1, -1], [0, 1]]\<close> and the block the code stores is
  \<open>-(C\<^sub>0\<^sup>-\<^sup>1 C\<^sub>1)\<^sup>T = [[1, -1], [0, 0]]\<close>, while \<open>-C\<^sub>0\<^sup>-\<^sup>1 C\<^sub>1\<^sup>T\<close>, the block of the
  docstring and of the specification, is \<open>[[0, -1], [0, 0]]\<close>. With \<open>C\<^sub>0\<close> the explicit
  identity as a numpy array, the test \<^verbatim>\<open>polynomial[0] == 1\<close> raises
  \<^verbatim>\<open>ValueError\<close>, where the marker 1 gives a result.
\<close>

theorem companion_matrix_block_transposed:
  "inv [[1, 1], [0, 1]] = Inr [[1, - 1], [0, 1]] \<and>
   fst (companion_matrix (PSeq PyList [Nested [[1, 1], [0, 1]], Nested [[0, 0], [1, 0]]]))
     = Inr [[1, - 1], [0, 0]] \<and>
   neg (dot [[1, - 1], [0, 1]] (transpose_m [[0, 0], [1, 0]])) = [[0, - 1], [0, 0]] \<and>
   fst (companion_matrix (PSeq PyList [Arr (eye 2), Arr [[0, 0], [1, 0]]])) = Inl ValueError \<and>
   fst (companion_matrix (PSeq PyList [Num 1, Arr [[0, 0], [1, 0]]])) = Inr [[0, - 1], [0, 0]]"
  by (simp add: eval_simps cong: ebind_weak_cong let_weak_cong)

text \<open>
  C7 (the code against the specification). Called on the Python list
  \<^verbatim>\<open>[1, array([[1, 2], [3, 4]])]\<close>, \<^verbatim>\<open>companion_matrix\<close> overwrites the first element
  of the caller's list: after the call the list is
  \<^verbatim>\<open>[array([[1, 0], [0, 1]]), array([[1, 2], [3, 4]])]\<close>.
\<close>

theorem companion_matrix_overwrites_marker:
  "snd (companion_matrix (PSeq PyList [Num 1, Arr [[1, 2], [3, 4]]]))
     = PSeq PyList [Arr [[1, 0], [0, 1]], Arr [[1, 2], [3, 4]]] \<and>
   snd (companion_matrix (PSeq PyList [Num 1, Arr [[1, 2], [3, 4]]]))
     \<noteq> PSeq PyList [Num 1, Arr [[1, 2], [3, 4]]]"
  by (simp add: eval_simps cong: ebind_weak_cong let_weak_cong)

section \<open>The univariate inverse transform has no failure path\<close>

lemma length_set_entry [simp]: "length (set_entry y k i v) = length y"
  by (simp add: set_entry_def)

lemma length_fold_set_entry:
  "length (fold (\<lambda>i y. set_entry y (g i) i (h i y)) js y) = length y"
  by (induction js arbitrary: y) simp_all

lemma length_unconstrain_inner [simp]: "length (unconstrain_inner k y) = length y"
  unfolding unconstrain_inner_def by (rule length_fold_set_entry)

lemma length_unconstrain_loop [simp]: "length (unconstrain_loop k y) = length y"
  by (induction k arbitrary: y) simp_all

lemma length_unconstrain_y [simp]: "length (unconstrain_y c) = length c"
  by (simp add: unconstrain_y_def Let_def)

lemma unsquash_unit:
  "\<bar>s\<bar> = 1 \<Longrightarrow> unsquash (Fin s) = (if s = 1 then PInf else NInf)"
  by (auto simp: unsquash_def np_sub_def np_square_def inf_of_sign_def abs_if split: if_splits)

text \<open>
  C8 (as the code has it). \<^verbatim>\<open>unconstrain_stationary_univariate\<close> returns an array of
  the length of its input on every input, and where the reflection coefficient \<open>r\<^sub>k\<close>
  recovered on the diagonal is exactly 1 or -1, the \<open>k\<close>-th entry of the result is
  \<^verbatim>\<open>inf\<close> or \<^verbatim>\<open>-inf\<close>: the value of numpy's division by zero, not a failure.
\<close>

theorem unconstrain_univariate_no_failure:
  "length (unconstrain_stationary_univariate c) = length c \<and>
   (\<forall>k s. k < length c \<and> diagonal (unconstrain_y c) ! k = Fin s \<and> \<bar>s\<bar> = 1 \<longrightarrow>
      unconstrain_stationary_univariate c ! k = (if s = 1 then PInf else NInf))"
proof (intro conjI allI impI)
  show "length (unconstrain_stationary_univariate c) = length c"
    by (simp add: unconstrain_stationary_univariate_def diagonal_def)
next
  fix k s
  assume h: "k < length c \<and> diagonal (unconstrain_y c) ! k = Fin s \<and> \<bar>s\<bar> = 1"
  then have k: "k < length c" and d: "unconstrain_y c ! k ! k = Fin s"
    by (auto simp: diagonal_def)
  from k have "unconstrain_stationary_univariate c ! k = unsquash (unconstrain_y c ! k ! k)"
    by (simp add: unconstrain_stationary_univariate_def diagonal_def)
  with h d show "unconstrain_stationary_univariate c ! k = (if s = 1 then PInf else NInf)"
    by (simp add: unsquash_unit)
qed

theorem unconstrain_univariate_no_failure_witness:
  "0 < length [- 1 :: real] \<and> diagonal (unconstrain_y [- 1]) ! 0 = Fin 1 \<and> \<bar>1 :: real\<bar> = 1 \<and>
   unconstrain_stationary_univariate [- 1] ! 0 = PInf"
  using unconstrain_univariate_no_failure [of "[- 1]"]
  by (simp add: eval_simps cong: ebind_weak_cong let_weak_cong)

text \<open>
  C8 (as the specification words it) fails: on the unit-root input \<^verbatim>\<open>[-1.]\<close>, whose
  diagonal value is 1, the call returns the array \<^verbatim>\<open>[inf]\<close>.
\<close>

theorem unconstrain_univariate_unit_root_returns:
  "unconstrain_stationary_univariate [- 1] = [PInf]"
  by (simp add: eval_simps cong: ebind_weak_cong let_weak_cong)

section \<open>Shapes and entries\<close>

lemma length_mat [simp]: "length (mat r c f) = r"
  by (simp add: mat_def)

lemma length_row_mat [simp]: "i < r \<Longrightarrow> length (mat r c f ! i) = c"
  by (simp add: mat_def)

lemma mat_entry [simp]: "i < r \<Longrightarrow> j < c \<Longrightarrow> mat r c f ! i ! j = f i j"
  by (simp add: mat_def)

lemma is_shape_mat [simp]: "is_shape r c (mat r c f)"
  by (simp add: is_shape_def mat_def list_all_iff)

lemma is_shape_length: "is_shape r c M \<Longrightarrow> length M = r"
  by (simp add: is_shape_def)

lemma is_shape_row: "is_shape r c M \<Longrightarrow> i < r \<Longrightarrow> length (M ! i) = c"
  by (simp add: is_shape_def list_all_length)

lemma is_shape_ncols: "is_shape r c M \<Longrightarrow> 0 < r \<Longrightarrow> ncols M = c"
  by (cases M) (auto simp: is_shape_def ncols_def)

lemma is_shape_nrows: "is_shape r c M \<Longrightarrow> nrows M = r"
  by (simp add: is_shape_def nrows_def)

lemma mat_eqI:
  assumes "is_shape r c A" and "is_shape r c B"
    and "\<And>i j. i < r \<Longrightarrow> j < c \<Longrightarrow> A ! i ! j = B ! i ! j"
  shows "A = B"
proof (rule nth_equalityI)
  show "length A = length B"
    using assms(1,2) by (simp add: is_shape_def)
next
  fix i
  assume "i < length A"
  then have i: "i < r"
    using assms(1) by (simp add: is_shape_def)
  show "A ! i = B ! i"
  proof (rule nth_equalityI)
    show "length (A ! i) = length (B ! i)"
      using assms(1,2) i by (simp add: is_shape_row)
  next
    fix j
    assume "j < length (A ! i)"
    then have "j < c"
      using assms(1) i by (simp add: is_shape_row)
    with i show "A ! i ! j = B ! i ! j"
      by (rule assms(3))
  qed
qed

lemma mat_of_entries: "is_shape r c A \<Longrightarrow> mat r c (\<lambda>i j. A ! i ! j) = A"
  by (rule mat_eqI [of r c]) simp_all

lemma is_shape_block: "is_shape r (n * k) M \<Longrightarrow> s < n \<Longrightarrow> is_shape r k (block M s k)"
proof -
  assume M: "is_shape r (n * k) M" and s: "s < n"
  have "s * k + k \<le> n * k"
    using s by (metis Suc_leI mult_Suc mult_le_mono1 add.commute)
  with M show ?thesis
    by (auto simp: is_shape_def block_def list_all_iff)
qed

lemma block_entry:
  assumes "is_shape r (n * k) M" and "s < n" and "i < r" and "j < k"
  shows "block M s k ! i ! j = M ! i ! (s * k + j)"
proof -
  have "s * k + k \<le> n * k"
    using assms(2) by (metis Suc_leI mult_Suc mult_le_mono1 add.commute)
  with assms show ?thesis
    by (simp add: block_def is_shape_def list_all_length)
qed

lemma is_shape_mat_cols: "r = 0 \<or> c' = c \<Longrightarrow> is_shape r c (mat r c' f)"
  by (auto simp: is_shape_def mat_def list_all_iff)

lemma is_shape_set_cols: "is_shape r c M \<Longrightarrow> is_shape r c (set_cols M s k X)"
  unfolding set_cols_def
  by (cases "r = 0") (simp_all add: is_shape_nrows is_shape_ncols is_shape_mat_cols)

lemma block_set_cols:
  assumes M: "is_shape r (n * k) M" and X: "is_shape r k X" and s: "s < n" and t: "t < n"
  shows "block (set_cols M s k X) t k = (if t = s then X else block M t k)"
proof (rule mat_eqI [of r k])
  show "is_shape r k (block (set_cols M s k X) t k)"
    by (rule is_shape_block [OF is_shape_set_cols [OF M] t])
  show "is_shape r k (if t = s then X else block M t k)"
    using X is_shape_block [OF M t] by simp
next
  fix i j
  assume i: "i < r" and j: "j < k"
  have tk: "t * k + k \<le> n * k"
    using t by (metis Suc_leI mult_Suc mult_le_mono1 add.commute)
  have r: "0 < r"
    using i by simp
  have "block (set_cols M s k X) t k ! i ! j = set_cols M s k X ! i ! (t * k + j)"
    by (rule block_entry [OF is_shape_set_cols [OF M] t i j])
  also have "\<dots> = (if s * k \<le> t * k + j \<and> t * k + j < (s + 1) * k
                      then X ! i ! (t * k + j - s * k) else M ! i ! (t * k + j))"
    using M i j tk r by (simp add: set_cols_def is_shape_nrows is_shape_ncols)
  also have "\<dots> = (if t = s then X else block M t k) ! i ! j"
  proof (cases "t = s")
    case True
    with j show ?thesis by simp
  next
    case False
    then have "t < s \<or> s < t" by arith
    then have "\<not> (s * k \<le> t * k + j \<and> t * k + j < (s + 1) * k)"
    proof
      assume "t < s"
      then have "(t + 1) * k \<le> s * k"
        by (metis Suc_eq_plus1 Suc_leI mult_le_mono1)
      with j show ?thesis by simp
    next
      assume "s < t"
      then have "(s + 1) * k \<le> t * k"
        by (metis Suc_eq_plus1 Suc_leI mult_le_mono1)
      then show ?thesis by simp
    qed
    with False block_entry [OF M t i j] show ?thesis
      by auto
  qed
  finally show "block (set_cols M s k X) t k ! i ! j = (if t = s then X else block M t k) ! i ! j" .
qed

lemma is_shape_dot:
  "is_shape r c A \<Longrightarrow> is_shape c d B \<Longrightarrow> 0 < c \<Longrightarrow> is_shape r d (dot A B)"
  unfolding dot_def by (simp add: is_shape_nrows is_shape_ncols)

lemma dot_entry:
  "is_shape r c A \<Longrightarrow> is_shape c d B \<Longrightarrow> 0 < c \<Longrightarrow> i < r \<Longrightarrow> j < d \<Longrightarrow>
   dot A B ! i ! j = (\<Sum>k<c. A ! i ! k * B ! k ! j)"
  unfolding dot_def by (simp add: is_shape_nrows is_shape_ncols)

section \<open>The variance in the two directions of the multivariate transform\<close>

lemma conjugate_blocks_upto:
  assumes F: "is_shape k (order * k) F" and T: "is_shape k k T" and Ti: "is_shape k k Ti"
    and k: "0 < k" and n: "n \<le> order"
  defines "G \<equiv> fold (\<lambda>s F. set_cols F s k (dot (dot T (block F s k)) Ti)) [0..<n] F"
  shows "is_shape k (order * k) G \<and>
         (\<forall>t<order. block G t k = (if t < n then dot (dot T (block F t k)) Ti else block F t k))"
  using n unfolding G_def
proof (induction n)
  case 0
  then show ?case using F by simp
next
  case (Suc n)
  let ?G = "fold (\<lambda>s F. set_cols F s k (dot (dot T (block F s k)) Ti)) [0..<n] F"
  let ?X = "dot (dot T (block ?G n k)) Ti"
  from Suc have G: "is_shape k (order * k) ?G"
    and blocks: "\<And>t. t < order \<Longrightarrow>
        block ?G t k = (if t < n then dot (dot T (block F t k)) Ti else block F t k)"
    and n: "n < order"
    by simp_all
  have Gn: "block ?G n k = block F n k"
    using blocks [OF n] by simp
  have X: "is_shape k k ?X"
    using is_shape_dot [OF is_shape_dot [OF T is_shape_block [OF G n] k] Ti k] .
  have step: "fold (\<lambda>s F. set_cols F s k (dot (dot T (block F s k)) Ti)) [0..<Suc n] F
              = set_cols ?G n k ?X"
    by simp
  show ?case
    unfolding step
  proof (intro conjI allI impI)
    show "is_shape k (order * k) (set_cols ?G n k ?X)"
      by (rule is_shape_set_cols [OF G])
  next
    fix t
    assume t: "t < order"
    show "block (set_cols ?G n k ?X) t k
          = (if t < Suc n then dot (dot T (block F t k)) Ti else block F t k)"
      using block_set_cols [OF G X n t] blocks [OF t] Gn
      by (auto simp: less_Suc_eq)
  qed
qed

text \<open>
  After the final loop of \<^verbatim>\<open>_compute_coefficients_from_multivariate_pacf_python\<close> every
  block of \<^verbatim>\<open>forwards\<close> is \<open>T F\<^sub>s T\<^sup>-\<^sup>1\<close>.
\<close>

lemma block_conjugate_blocks:
  assumes "is_shape k (k * order) F" and "is_shape k k T" and "is_shape k k Ti"
    and "0 < k" and "s < order"
  shows "block (conjugate_blocks T Ti order k F) s k = dot (dot T (block F s k)) Ti"
  using conjugate_blocks_upto [of k order F T Ti order] assms
  by (simp add: conjugate_blocks_def mult.commute)

text \<open>
  The body of \<^verbatim>\<open>_compute_coefficients_from_multivariate_pacf_python\<close> as a chain of
  its calls, for the two values of \<^verbatim>\<open>transform_variance\<close>.
\<close>

lemma pacf_python_calls:
  "compute_coefficients_from_multivariate_pacf_python P V order k True =
     ebind (concatenate P) (\<lambda>Pc.
     ebind (cholesky V) (\<lambda>L.
     ebind (efold (pacf_step Pc k) [0..<order] (pacf_init V L order k)) (\<lambda>st.
       Inr (forwards st, forward_variance st)))) \<and>
   compute_coefficients_from_multivariate_pacf_python P V order k False =
     ebind (compute_coefficients_from_multivariate_pacf_python P
              (scale (real ((order + k) ^ 10)) (eye k)) order k True) (\<lambda>(F, V_out).
     ebind (cholesky V) (\<lambda>L_init.
     ebind (cholesky V_out) (\<lambda>L_out.
     ebind (inv L_out) (\<lambda>L_out_inv.
     ebind (inv (dot L_init L_out_inv)) (\<lambda>T_inv.
       Inr (conjugate_blocks (dot L_init L_out_inv) T_inv order k F, V_out))))))"
  by (auto simp: compute_coefficients_from_multivariate_pacf_python_def ebind_def Let_def
      split: sum.splits)

text \<open>
  The two settings at one input: the partial autocorrelation \<open>[[1/2, 0], [0, 0]]\<close> and
  the variance \<open>[[4, 0], [0, 1]]\<close>.
\<close>

lemma pacf_transform_variance_True_example:
  "compute_coefficients_from_multivariate_pacf_python [[[1 / 2, 0], [0, 0]]] [[4, 0], [0, 1]]
     1 2 True
   = Inr ([[1 / 2, 0], [0, 0]], [[3, 0], [0, 1]])"
  by (simp add: compute_coefficients_from_multivariate_pacf_python_def pacf_step_def
      pacf_init_def eval_simps cong: ebind_weak_cong let_weak_cong)

section \<open>The variance returned by \<^verbatim>\<open>unconstrain_stationary_multivariate\<close>\<close>

text \<open>
  C10. Whenever \<^verbatim>\<open>unconstrain_stationary_multivariate\<close> returns, the second component
  of its result is the \<^verbatim>\<open>error_variance\<close> it was given, for a list and for a stacked
  array of coefficients; and \<^verbatim>\<open>transform_variance\<close> has no influence on the result.
\<close>

theorem unconstrain_multivariate_variance_unchanged:
  "(\<forall>u v. unconstrain_stationary_multivariate c ev tv = Inr (u, v) \<longrightarrow> v = ev) \<and>
   unconstrain_stationary_multivariate c ev True = unconstrain_stationary_multivariate c ev False"
  by (auto simp: unconstrain_stationary_multivariate_def ebind_def Let_def split: sum.splits)

lemma lyapunov_example:
  "solve_discrete_lyapunov [[1 / 2, 0], [0, 0]] [[3, 0], [0, 1]] = Inr [[4, 0], [0, 1]]"
  by code_simp

lemma acovf_example:
  "compute_multivariate_acovf_from_coefficients [[[1 / 2, 0], [0, 0]]] [[3, 0], [0, 1]]
     (Some (Suc 0)) (Some (Suc (Suc 0))) (Some (Suc 0))
   = Inr [[[4, 0], [0, 1]], [[2, 0], [0, 0]]]"
  by (simp add: compute_multivariate_acovf_from_coefficients_def eval_simps lyapunov_example
      cong: ebind_weak_cong let_weak_cong)

lemma pacf_example:
  "compute_multivariate_pacf_from_coefficients [[[1 / 2, 0], [0, 0]]] [[3, 0], [0, 1]]
     (Some (Suc 0)) (Some (Suc (Suc 0)))
   = Inr [[[1 / 2, 0], [0, 0]]]"
  by (simp add: compute_multivariate_pacf_from_coefficients_def acovf_example ladder_step_def
      ladder_fill_def list_insert_def eval_simps cong: ebind_weak_cong let_weak_cong)

lemma unconstrain_multivariate_example:
  "unconstrain_stationary_multivariate (CoefList [[[1 / 2, 0], [0, 0]]]) [[3, 0], [0, 1]] tv
   = Inr (CoefList [[[1 / sqrt 3, 0], [0, 0]]], [[3, 0], [0, 1]])"
  by (simp add: unconstrain_stationary_multivariate_def as_list_def like_def pacf_example
      eval_simps real_sqrt_divide cong: ebind_weak_cong let_weak_cong)

lemma unconstrain_multivariate_stacked_example:
  "unconstrain_stationary_multivariate (CoefStacked [[1 / 2, 0], [0, 0]]) [[3, 0], [0, 1]] tv
   = Inr (CoefStacked [[1 / sqrt 3, 0], [0, 0]], [[3, 0], [0, 1]])"
  by (simp add: unconstrain_stationary_multivariate_def as_list_def like_def pacf_example
      eval_simps real_sqrt_divide cong: ebind_weak_cong let_weak_cong)

theorem unconstrain_multivariate_variance_unchanged_witness:
  "unconstrain_stationary_multivariate (CoefList [[[1 / 2, 0], [0, 0]]]) [[3, 0], [0, 1]] False
     = Inr (CoefList [[[1 / sqrt 3, 0], [0, 0]]], [[3, 0], [0, 1]]) \<and>
   unconstrain_stationary_multivariate (CoefList [[[1 / 2, 0], [0, 0]]]) [[3, 0], [0, 1]] True
     = Inr (CoefList [[[1 / sqrt 3, 0], [0, 0]]], [[3, 0], [0, 1]])"
  using unconstrain_multivariate_variance_unchanged
    [of "CoefList [[[1 / 2, 0], [0, 0]]]" "[[3, 0], [0, 1]]" False]
  by (simp add: unconstrain_multivariate_example)

section \<open>Triangular systems\<close>

lemma length_forward_subst [simp]: "length (forward_subst L b j) = j"
  by (induction j) (simp_all add: Let_def)

lemma forward_subst_last:
  "forward_subst L b (Suc j) ! j
   = (b ! j - (\<Sum>k<j. L ! j ! k * forward_subst L b j ! k)) / L ! j ! j"
  by (simp add: Let_def nth_append)

lemma forward_subst_butlast:
  "i < m \<Longrightarrow> forward_subst L b (Suc m) ! i = forward_subst L b m ! i"
  by (simp add: Let_def nth_append)

declare forward_subst.simps(2) [simp del]

lemma forward_subst_stable:
  "i < j \<Longrightarrow> j \<le> m \<Longrightarrow> forward_subst L b m ! i = forward_subst L b j ! i"
proof (induction m)
  case 0
  then show ?case by simp
next
  case (Suc m)
  show ?case
  proof (cases "j = Suc m")
    case True
    then show ?thesis by simp
  next
    case False
    with Suc.prems have jm: "j \<le> m" by simp
    with Suc.prems have "i < m" by simp
    then have "forward_subst L b (Suc m) ! i = forward_subst L b m ! i"
      by (rule forward_subst_butlast)
    with Suc.IH [OF Suc.prems(1) jm] show ?thesis by simp
  qed
qed

text \<open>The vector that \<open>forward_subst\<close> builds solves the lower triangular system.\<close>

lemma forward_subst_solves:
  assumes "i < m" and "L ! i ! i \<noteq> 0"
  shows "(\<Sum>k<Suc i. L ! i ! k * forward_subst L b m ! k) = b ! i"
proof -
  let ?x = "forward_subst L b m"
  have low: "(\<Sum>k<i. L ! i ! k * ?x ! k) = (\<Sum>k<i. L ! i ! k * forward_subst L b i ! k)"
    using assms(1) by (intro sum.cong refl) (simp add: forward_subst_stable [of _ i m])
  have "?x ! i = forward_subst L b (Suc i) ! i"
    using assms(1) by (simp add: forward_subst_stable [of i "Suc i" m])
  then have "?x ! i = (b ! i - (\<Sum>k<i. L ! i ! k * ?x ! k)) / L ! i ! i"
    by (simp add: forward_subst_last low)
  with assms(2) show ?thesis
    by (simp add: field_simps)
qed

text \<open>
  Matrices as functions of two indices. \<open>gram F m\<close> is \<open>F F\<^sup>T\<close> for the first \<open>m\<close>
  columns, and a matrix is lower triangular when it vanishes above the diagonal.
\<close>

lemma gram_quadratic_form:
  fixes F :: "nat \<Rightarrow> nat \<Rightarrow> real" and w :: "nat \<Rightarrow> real"
  shows "(\<Sum>i<n. \<Sum>j<n. w i * (\<Sum>k<m. F i k * F j k) * w j) = (\<Sum>k<m. (\<Sum>i<n. w i * F i k)\<^sup>2)"
proof -
  have "(\<Sum>i<n. \<Sum>j<n. w i * (\<Sum>k<m. F i k * F j k) * w j)
        = (\<Sum>i<n. \<Sum>j<n. \<Sum>k<m. (w i * F i k) * (w j * F j k))"
    by (simp add: sum_distrib_left sum_distrib_right mult_ac)
  also have "\<dots> = (\<Sum>i<n. \<Sum>k<m. \<Sum>j<n. (w i * F i k) * (w j * F j k))"
    by (intro sum.cong refl sum.swap)
  also have "\<dots> = (\<Sum>k<m. \<Sum>i<n. \<Sum>j<n. (w i * F i k) * (w j * F j k))"
    by (rule sum.swap)
  also have "\<dots> = (\<Sum>k<m. (\<Sum>i<n. w i * F i k)\<^sup>2)"
    by (simp add: power2_eq_square sum_product)
  finally show ?thesis .
qed

lemma triangular_kernel:
  fixes F :: "nat \<Rightarrow> nat \<Rightarrow> real" and w :: "nat \<Rightarrow> real"
  assumes "\<And>i k. i < k \<Longrightarrow> F i k = 0" and "\<And>i. i < m \<Longrightarrow> F i i \<noteq> 0"
    and "\<And>k. k < m \<Longrightarrow> (\<Sum>i<m. w i * F i k) = 0"
  shows "i < m \<Longrightarrow> w i = 0"
  using assms(2,3)
proof (induction m arbitrary: i)
  case 0
  then show ?case by simp
next
  case (Suc m)
  have "(\<Sum>i<Suc m. w i * F i m) = 0"
    using Suc.prems(3) by simp
  moreover have "(\<Sum>i<m. w i * F i m) = 0"
    by (rule sum.neutral) (simp add: assms(1))
  ultimately have "w m * F m m = 0"
    by simp
  then have wm: "w m = 0"
    using Suc.prems(2) [of m] by simp
  show ?case
  proof (cases "i = m")
    case True
    with wm show ?thesis by simp
  next
    case False
    with Suc.prems(1) have im: "i < m" by simp
    show ?thesis
    proof (rule Suc.IH [OF im])
      fix i assume "i < m"
      then show "F i i \<noteq> 0" using Suc.prems(2) by simp
    next
      fix k assume "k < m"
      then have "(\<Sum>i<Suc m. w i * F i k) = 0"
        using Suc.prems(3) by simp
      with wm show "(\<Sum>i<m. w i * F i k) = 0"
        by simp
    qed
  qed
qed

lemma triangular_solution:
  fixes F :: "nat \<Rightarrow> nat \<Rightarrow> real"
  assumes "\<And>i k. i < k \<Longrightarrow> F i k = 0" and "\<And>i. i < m \<Longrightarrow> F i i \<noteq> 0"
  shows "\<exists>z. \<forall>k<m. (\<Sum>i<m. z i * F i k) = x k"
  using assms(2)
proof (induction m arbitrary: x)
  case 0
  then show ?case by simp
next
  case (Suc m)
  define zm where "zm = x m / F m m"
  have "\<exists>z. \<forall>k<m. (\<Sum>i<m. z i * F i k) = x k - zm * F m k"
    using Suc.prems by (intro Suc.IH) simp
  then obtain z where z: "\<And>k. k < m \<Longrightarrow> (\<Sum>i<m. z i * F i k) = x k - zm * F m k"
    by blast
  let ?z = "z(m := zm)"
  have "(\<Sum>i<Suc m. ?z i * F i k) = x k" if k: "k < Suc m" for k
  proof (cases "k = m")
    case True
    have "(\<Sum>i<m. ?z i * F i m) = 0"
      by (rule sum.neutral) (simp add: assms(1))
    with True Suc.prems [of m] show ?thesis
      by (simp add: zm_def)
  next
    case False
    with k have km: "k < m" by simp
    have "(\<Sum>i<m. ?z i * F i k) = (\<Sum>i<m. z i * F i k)"
      by (intro sum.cong refl) simp
    with z [OF km] show ?thesis by simp
  qed
  then show ?case by blast
qed

section \<open>The Cholesky factor\<close>

lemma cholesky_rows_Suc_Inr:
  assumes "cholesky_rows A (Suc n) = Inr L"
  obtains L' where "cholesky_rows A n = Inr L'"
    and "0 < A ! n ! n - (\<Sum>k<n. (forward_subst L' (A ! n) n ! k)\<^sup>2)"
    and "L = L' @ [forward_subst L' (A ! n) n
                   @ [sqrt (A ! n ! n - (\<Sum>k<n. (forward_subst L' (A ! n) n ! k)\<^sup>2))]]"
  using assms by (auto simp: ebind_def Let_def split: sum.splits if_splits)

lemma cholesky_rows_error: "cholesky_rows A n = Inl e \<Longrightarrow> e = LinAlgError"
  by (induction n arbitrary: e) (auto simp: ebind_def Let_def split: sum.splits if_splits)

text \<open>
  What a successful factorisation returns: rows of the right lengths, a positive
  diagonal, and \<open>L L\<^sup>T\<close> equal to \<open>A\<close> on the lower triangle of \<open>A\<close>.
\<close>

lemma cholesky_rows_factor:
  assumes "cholesky_rows A n = Inr L"
  shows "length L = n"
    and "i < n \<Longrightarrow> length (L ! i) = Suc i"
    and "i < n \<Longrightarrow> 0 < L ! i ! i"
    and "i < n \<Longrightarrow> j \<le> i \<Longrightarrow> (\<Sum>k<Suc j. L ! i ! k * L ! j ! k) = A ! i ! j"
proof -
  have "length L = n \<and>
        (\<forall>i<n. length (L ! i) = Suc i \<and> 0 < L ! i ! i \<and>
                (\<forall>j\<le>i. (\<Sum>k<Suc j. L ! i ! k * L ! j ! k) = A ! i ! j))"
    using assms
  proof (induction n arbitrary: L)
    case 0
    then show ?case by simp
  next
    case (Suc n)
    from Suc.prems obtain L' where L': "cholesky_rows A n = Inr L'"
      and d: "0 < A ! n ! n - (\<Sum>k<n. (forward_subst L' (A ! n) n ! k)\<^sup>2)"
      and L: "L = L' @ [forward_subst L' (A ! n) n
                   @ [sqrt (A ! n ! n - (\<Sum>k<n. (forward_subst L' (A ! n) n ! k)\<^sup>2))]]"
      by (rule cholesky_rows_Suc_Inr)
    let ?x = "forward_subst L' (A ! n) n"
    let ?d = "A ! n ! n - (\<Sum>k<n. (?x ! k)\<^sup>2)"
    from Suc.IH [OF L'] have len: "length L' = n"
      and IH: "\<And>i. i < n \<Longrightarrow> length (L' ! i) = Suc i \<and> 0 < L' ! i ! i \<and>
                (\<forall>j\<le>i. (\<Sum>k<Suc j. L' ! i ! k * L' ! j ! k) = A ! i ! j)"
      by simp_all
    have old: "L ! i = L' ! i" if "i < n" for i
      using that len by (simp add: L nth_append)
    have new: "L ! n = ?x @ [sqrt ?d]"
      using len by (simp add: L nth_append)
    have newk: "L ! n ! k = ?x ! k" if "k < n" for k
      using that by (simp add: new nth_append)
    have newn: "L ! n ! n = sqrt ?d"
      by (simp add: new nth_append)
    have row: "length (L ! i) = Suc i \<and> 0 < L ! i ! i \<and>
               (\<forall>j\<le>i. (\<Sum>k<Suc j. L ! i ! k * L ! j ! k) = A ! i ! j)" if i: "i < Suc n" for i
    proof (cases "i = n")
      case False
      with i have "i < n" by simp
      then show ?thesis
        using IH [of i] by (auto simp: old)
    next
      case True
      have eq: "(\<Sum>k<Suc j. L ! n ! k * L ! j ! k) = A ! n ! j" if j: "j \<le> n" for j
      proof (cases "j = n")
        case False
        with j have jn: "j < n" by simp
        have "(\<Sum>k<Suc j. L ! n ! k * L ! j ! k) = (\<Sum>k<Suc j. L' ! j ! k * ?x ! k)"
          using jn by (intro sum.cong refl) (simp add: newk old mult.commute)
        also have "\<dots> = A ! n ! j"
          using IH [OF jn] by (intro forward_subst_solves [OF jn]) simp
        finally show ?thesis .
      next
        case True
        have "(\<Sum>k<Suc n. L ! n ! k * L ! n ! k) = (\<Sum>k<n. (?x ! k)\<^sup>2) + (sqrt ?d)\<^sup>2"
          by (simp add: newk newn power2_eq_square)
        also have "\<dots> = A ! n ! n"
          using d by simp
        finally show ?thesis
          using True by simp
      qed
      have "length (L ! n) = Suc n"
        by (simp add: new)
      moreover have "0 < L ! n ! n"
        using d by (simp add: newn)
      ultimately show ?thesis
        using True eq by blast
    qed
    show ?case
      using row len by (simp add: L)
  qed
  then show "length L = n"
    and "i < n \<Longrightarrow> length (L ! i) = Suc i"
    and "i < n \<Longrightarrow> 0 < L ! i ! i"
    and "i < n \<Longrightarrow> j \<le> i \<Longrightarrow> (\<Sum>k<Suc j. L ! i ! k * L ! j ! k) = A ! i ! j"
    by simp_all
qed

lemma cholesky_rows_prefix:
  "cholesky_rows A n = Inr L \<Longrightarrow> m \<le> n \<Longrightarrow> \<exists>L'. cholesky_rows A m = Inr L'"
proof (induction n arbitrary: L)
  case 0
  then show ?case by simp
next
  case (Suc n)
  show ?case
  proof (cases "m = Suc n")
    case True
    with Suc.prems show ?thesis by blast
  next
    case False
    with Suc.prems have "m \<le> n" by simp
    moreover from Suc.prems(1) obtain L' where "cholesky_rows A n = Inr L'"
      by (rule cholesky_rows_Suc_Inr)
    ultimately show ?thesis
      by (rule Suc.IH [rotated])
  qed
qed

text \<open>In terms of \<open>low\<close>: the sums run over all columns.\<close>

lemma low_gram:
  assumes "cholesky_rows A n = Inr L" and "i < n" and "j \<le> i"
  shows "(\<Sum>k<n. low L i k * low L j k) = A ! i ! j"
proof -
  have "(\<Sum>k<n. low L i k * low L j k) = (\<Sum>k\<in>{..<Suc j} \<union> {Suc j..<n}. low L i k * low L j k)"
    using assms(2,3) by (intro sum.cong) auto
  also have "\<dots> = (\<Sum>k<Suc j. low L i k * low L j k) + (\<Sum>k=Suc j..<n. low L i k * low L j k)"
    by (intro sum.union_disjoint) auto
  also have "(\<Sum>k=Suc j..<n. low L i k * low L j k) = 0"
    by (rule sum.neutral) (simp add: low_def)
  also have "(\<Sum>k<Suc j. low L i k * low L j k) = (\<Sum>k<Suc j. L ! i ! k * L ! j ! k)"
    using assms(3) by (intro sum.cong refl) (simp add: low_def)
  finally show ?thesis
    using cholesky_rows_factor(4) [OF assms] by simp
qed

lemma low_gram_symmetric:
  assumes "cholesky_rows A n = Inr L" and "symmetric n A" and "i < n" and "j < n"
  shows "(\<Sum>k<n. low L i k * low L j k) = A ! i ! j"
proof (cases "j \<le> i")
  case True
  with assms show ?thesis by (simp add: low_gram)
next
  case False
  then have "i \<le> j" by simp
  with assms have "(\<Sum>k<n. low L j k * low L i k) = A ! j ! i"
    by (simp add: low_gram)
  with assms(2-4) show ?thesis
    by (simp add: symmetric_def mult.commute)
qed

section \<open>The factorisation succeeds exactly on positive definite matrices\<close>

lemma symmetric_mono: "symmetric n A \<Longrightarrow> m \<le> n \<Longrightarrow> symmetric m A"
  by (simp add: symmetric_def)

lemma quadratic_form_factor:
  assumes L: "cholesky_rows A n = Inr L" and A: "symmetric n A"
  shows "quadratic_form n A w = (\<Sum>k<n. (\<Sum>i<n. w i * low L i k)\<^sup>2)"
proof -
  have "quadratic_form n A w = (\<Sum>i<n. \<Sum>j<n. w i * (\<Sum>k<n. low L i k * low L j k) * w j)"
    unfolding quadratic_form_def
    by (intro sum.cong refl) (simp add: low_gram_symmetric [OF L A])
  then show ?thesis
    by (simp add: gram_quadratic_form)
qed

lemma low_triangular: "i < k \<Longrightarrow> low L i k = 0"
  by (simp add: low_def)

lemma low_diagonal:
  "cholesky_rows A n = Inr L \<Longrightarrow> i < n \<Longrightarrow> low L i i \<noteq> 0"
  using cholesky_rows_factor(3) [of A n L i] by (simp add: low_def)

lemma factor_pos_def:
  assumes L: "cholesky_rows A n = Inr L" and A: "symmetric n A"
  shows "pos_def n A"
  unfolding pos_def_def
proof (intro allI impI)
  fix w :: "nat \<Rightarrow> real"
  assume w: "\<exists>i<n. w i \<noteq> 0"
  let ?y = "\<lambda>k. \<Sum>i<n. w i * low L i k"
  have q: "quadratic_form n A w = (\<Sum>k<n. (?y k)\<^sup>2)"
    by (rule quadratic_form_factor [OF L A])
  have "0 \<le> (\<Sum>k<n. (?y k)\<^sup>2)"
    by (rule sum_nonneg) simp
  moreover have "(\<Sum>k<n. (?y k)\<^sup>2) \<noteq> 0"
  proof
    assume "(\<Sum>k<n. (?y k)\<^sup>2) = 0"
    then have "\<forall>k\<in>{..<n}. (?y k)\<^sup>2 = 0"
      by (subst (asm) sum_nonneg_eq_0_iff) simp_all
    then have y: "\<And>k. k < n \<Longrightarrow> ?y k = 0"
      by simp
    have "w i = 0" if "i < n" for i
    proof (rule triangular_kernel [of "low L" n w])
      show "i < n" by (rule that)
    qed (simp_all add: low_triangular low_diagonal [OF L] y)
    with w show False by blast
  qed
  ultimately show "0 < quadratic_form n A w"
    using q by simp
qed

lemma pos_def_pivot:
  assumes L: "cholesky_rows A m = Inr L" and A: "symmetric n A" and pd: "pos_def n A"
    and m: "m < n"
  shows "0 < A ! m ! m - (\<Sum>k<m. (forward_subst L (A ! m) m ! k)\<^sup>2)"
proof -
  let ?x = "\<lambda>k. forward_subst L (A ! m) m ! k"
  let ?S = "\<Sum>k<m. (?x k)\<^sup>2"
  have Am: "symmetric m A"
    using A m by (simp add: symmetric_def)
  have "\<exists>z. \<forall>k<m. (\<Sum>i<m. z i * low L i k) = ?x k"
    by (rule triangular_solution) (simp_all add: low_triangular low_diagonal [OF L])
  then obtain z where z: "\<And>k. k < m \<Longrightarrow> (\<Sum>i<m. z i * low L i k) = ?x k"
    by blast
  define w where "w i = (if i < m then - z i else if i = m then 1 else 0)" for i
  have row: "A ! m ! j = (\<Sum>k<m. low L j k * ?x k)" if j: "j < m" for j
  proof -
    have "A ! m ! j = (\<Sum>k<Suc j. L ! j ! k * ?x k)"
      using cholesky_rows_factor(3) [OF L j]
      by (subst forward_subst_solves [OF j]) simp_all
    also have "\<dots> = (\<Sum>k<Suc j. low L j k * ?x k)"
      by (intro sum.cong refl) (simp add: low_def)
    also have "\<dots> = (\<Sum>k<m. low L j k * ?x k)"
      using j by (intro sum.mono_neutral_left) (auto simp: low_def)
    finally show ?thesis .
  qed
  have cross: "(\<Sum>j<m. z j * A ! m ! j) = ?S"
  proof -
    have "(\<Sum>j<m. z j * A ! m ! j) = (\<Sum>j<m. \<Sum>k<m. (z j * low L j k) * ?x k)"
      by (intro sum.cong refl) (simp add: row sum_distrib_left mult.assoc)
    also have "\<dots> = (\<Sum>k<m. \<Sum>j<m. (z j * low L j k) * ?x k)"
      by (rule sum.swap)
    also have "\<dots> = (\<Sum>k<m. (\<Sum>j<m. z j * low L j k) * ?x k)"
      by (simp add: sum_distrib_right)
    also have "\<dots> = ?S"
      by (intro sum.cong refl) (simp add: z power2_eq_square)
    finally show ?thesis .
  qed
  have inner: "(\<Sum>i<m. \<Sum>j<m. z i * A ! i ! j * z j) = ?S"
  proof -
    have "(\<Sum>i<m. \<Sum>j<m. z i * A ! i ! j * z j) = quadratic_form m A z"
      by (simp add: quadratic_form_def)
    also have "\<dots> = (\<Sum>k<m. (\<Sum>i<m. z i * low L i k)\<^sup>2)"
      by (rule quadratic_form_factor [OF L Am])
    also have "\<dots> = ?S"
      by (intro sum.cong refl) (simp add: z)
    finally show ?thesis .
  qed
  have sym: "A ! i ! m = A ! m ! i" if "i < m" for i
    using A m that by (simp add: symmetric_def)
  have cut: "(\<Sum>i<n. f i) = (\<Sum>i<Suc m. f i)" if "\<And>i. Suc m \<le> i \<Longrightarrow> f i = 0"
    for f :: "nat \<Rightarrow> real"
    using m that by (intro sum.mono_neutral_right) auto
  have "quadratic_form n A w = (\<Sum>i<Suc m. \<Sum>j<n. w i * A ! i ! j * w j)"
    unfolding quadratic_form_def by (rule cut) (simp add: w_def)
  also have "\<dots> = (\<Sum>i<Suc m. \<Sum>j<Suc m. w i * A ! i ! j * w j)"
    by (intro sum.cong refl cut) (simp add: w_def)
  also have "\<dots> = (\<Sum>i<m. (\<Sum>j<m. w i * A ! i ! j * w j) + w i * A ! i ! m * w m)
                  + ((\<Sum>j<m. w m * A ! m ! j * w j) + w m * A ! m ! m * w m)"
    by simp
  also have "\<dots> = (\<Sum>i<m. (\<Sum>j<m. z i * A ! i ! j * z j) - z i * A ! m ! i)
                  + (- (\<Sum>j<m. z j * A ! m ! j) + A ! m ! m)"
    by (simp add: w_def sym sum_negf mult.commute)
  also have "\<dots> = (\<Sum>i<m. \<Sum>j<m. z i * A ! i ! j * z j) - (\<Sum>i<m. z i * A ! m ! i)
                  - (\<Sum>j<m. z j * A ! m ! j) + A ! m ! m"
    by (simp add: sum_subtractf)
  also have "\<dots> = A ! m ! m - ?S"
    by (simp add: inner cross)
  finally have "quadratic_form n A w = A ! m ! m - ?S" .
  moreover have "0 < quadratic_form n A w"
  proof -
    have "w m \<noteq> 0" by (simp add: w_def)
    with m pd show ?thesis
      unfolding pos_def_def by blast
  qed
  ultimately show ?thesis by simp
qed

lemma pos_def_cholesky_rows:
  assumes A: "symmetric n A" and pd: "pos_def n A"
  shows "m \<le> n \<Longrightarrow> \<exists>L. cholesky_rows A m = Inr L"
proof (induction m)
  case 0
  then show ?case by simp
next
  case (Suc m)
  then obtain L where L: "cholesky_rows A m = Inr L"
    by auto
  from Suc.prems have "m < n" by simp
  from pos_def_pivot [OF L A pd this] show ?case
    by (simp add: L ebind_def Let_def)
qed

section \<open>Entries of products and sums of square matrices\<close>

lemma is_shape_0 [simp]: "is_shape 0 c M \<longleftrightarrow> M = []"
  by (auto simp: is_shape_def)

lemma is_shape_transpose: "is_shape k k A \<Longrightarrow> is_shape k k (transpose_m A)"
proof (cases "k = 0")
  case True
  assume "is_shape k k A"
  with True show ?thesis
    by (simp add: transpose_m_def nrows_def ncols_def mat_def)
next
  case False
  assume "is_shape k k A"
  with False show ?thesis
    by (simp add: transpose_m_def is_shape_nrows is_shape_ncols)
qed

lemma transpose_entry:
  "is_shape k k A \<Longrightarrow> i < k \<Longrightarrow> j < k \<Longrightarrow> transpose_m A ! i ! j = A ! j ! i"
  by (simp add: transpose_m_def is_shape_nrows is_shape_ncols)

lemma is_shape_eye [simp]: "is_shape k k (eye k)"
  by (simp add: eye_def)

lemma eye_entry: "i < k \<Longrightarrow> j < k \<Longrightarrow> eye k ! i ! j = (if i = j then 1 else 0)"
  by (simp add: eye_def)

lemma is_shape_add: "is_shape k k A \<Longrightarrow> is_shape k k (add A B)"
proof (cases "k = 0")
  case True
  assume "is_shape k k A"
  with True show ?thesis
    by (simp add: add_def nrows_def ncols_def mat_def)
next
  case False
  assume "is_shape k k A"
  with False show ?thesis
    by (simp add: add_def is_shape_nrows is_shape_ncols)
qed

lemma add_entry:
  "is_shape k k A \<Longrightarrow> i < k \<Longrightarrow> j < k \<Longrightarrow> add A B ! i ! j = A ! i ! j + B ! i ! j"
  by (simp add: add_def is_shape_nrows is_shape_ncols)

lemma is_shape_sub: "is_shape k k A \<Longrightarrow> is_shape k k (sub A B)"
proof (cases "k = 0")
  case True
  assume "is_shape k k A"
  with True show ?thesis
    by (simp add: sub_def nrows_def ncols_def mat_def)
next
  case False
  assume "is_shape k k A"
  with False show ?thesis
    by (simp add: sub_def is_shape_nrows is_shape_ncols)
qed

lemma sub_entry:
  "is_shape k k A \<Longrightarrow> i < k \<Longrightarrow> j < k \<Longrightarrow> sub A B ! i ! j = A ! i ! j - B ! i ! j"
  by (simp add: sub_def is_shape_nrows is_shape_ncols)

lemma gram_entry:
  assumes "is_shape k k A" and "0 < k" and "i < k" and "j < k"
  shows "dot A (transpose_m A) ! i ! j = (\<Sum>l<k. A ! i ! l * A ! j ! l)"
proof -
  have "dot A (transpose_m A) ! i ! j = (\<Sum>l<k. A ! i ! l * transpose_m A ! l ! j)"
    by (rule dot_entry [OF assms(1) is_shape_transpose [OF assms(1)] assms(2,3,4)])
  also have "\<dots> = (\<Sum>l<k. A ! i ! l * A ! j ! l)"
    using assms by (intro sum.cong refl) (simp add: transpose_entry [of k])
  finally show ?thesis .
qed

lemma is_shape_gram: "is_shape k k A \<Longrightarrow> 0 < k \<Longrightarrow> is_shape k k (dot A (transpose_m A))"
  by (simp add: is_shape_dot is_shape_transpose)

text \<open>The quadratic forms of \<open>I + A A\<^sup>T\<close> and of \<open>I - P P\<^sup>T\<close>.\<close>

lemma sum_delta_square:
  fixes w :: "nat \<Rightarrow> real"
  shows "(\<Sum>i<k. \<Sum>j<k. w i * (if i = j then 1 else 0) * w j) = (\<Sum>i<k. (w i)\<^sup>2)"
proof (intro sum.cong refl)
  fix i
  assume "i \<in> {..<k}"
  then have "(\<Sum>j<k. w i * (if i = j then 1 else 0) * w j) = (\<Sum>j\<in>{i}. w i * w j)"
    by (intro sum.mono_neutral_cong_right) auto
  then show "(\<Sum>j<k. w i * (if i = j then 1 else 0) * w j) = (w i)\<^sup>2"
    by (simp add: power2_eq_square)
qed

lemma quadratic_form_eye_plus_gram:
  assumes "is_shape k k A" and "0 < k"
  shows "quadratic_form k (add (eye k) (dot A (transpose_m A))) w
         = (\<Sum>i<k. (w i)\<^sup>2) + (\<Sum>l<k. (\<Sum>i<k. w i * A ! i ! l)\<^sup>2)"
proof -
  have "quadratic_form k (add (eye k) (dot A (transpose_m A))) w
        = (\<Sum>i<k. \<Sum>j<k. w i * (if i = j then 1 else 0) * w j
                         + w i * (\<Sum>l<k. A ! i ! l * A ! j ! l) * w j)"
    unfolding quadratic_form_def using assms
    by (intro sum.cong refl) (simp add: add_entry [of k] eye_entry gram_entry [of k] algebra_simps)
  also have "\<dots> = (\<Sum>i<k. \<Sum>j<k. w i * (if i = j then 1 else 0) * w j)
                  + (\<Sum>i<k. \<Sum>j<k. w i * (\<Sum>l<k. A ! i ! l * A ! j ! l) * w j)"
    by (simp add: sum.distrib)
  finally show ?thesis
    by (simp add: sum_delta_square gram_quadratic_form)
qed

lemma quadratic_form_eye_minus_gram:
  assumes "is_shape k k P" and "0 < k"
  shows "quadratic_form k (sub (eye k) (dot P (transpose_m P))) w
         = (\<Sum>i<k. (w i)\<^sup>2) - (\<Sum>l<k. (\<Sum>i<k. w i * P ! i ! l)\<^sup>2)"
proof -
  have "quadratic_form k (sub (eye k) (dot P (transpose_m P))) w
        = (\<Sum>i<k. \<Sum>j<k. w i * (if i = j then 1 else 0) * w j
                         - w i * (\<Sum>l<k. P ! i ! l * P ! j ! l) * w j)"
    unfolding quadratic_form_def using assms
    by (intro sum.cong refl) (simp add: sub_entry [of k] eye_entry gram_entry [of k] algebra_simps)
  also have "\<dots> = (\<Sum>i<k. \<Sum>j<k. w i * (if i = j then 1 else 0) * w j)
                  - (\<Sum>i<k. \<Sum>j<k. w i * (\<Sum>l<k. P ! i ! l * P ! j ! l) * w j)"
    by (simp add: sum_subtractf)
  finally show ?thesis
    by (simp add: sum_delta_square gram_quadratic_form)
qed

lemma symmetric_eye_plus_gram:
  "is_shape k k A \<Longrightarrow> 0 < k \<Longrightarrow> symmetric k (add (eye k) (dot A (transpose_m A)))"
  by (auto simp: symmetric_def add_entry [of k] eye_entry gram_entry [of k] mult.commute)

lemma symmetric_eye_minus_gram:
  "is_shape k k P \<Longrightarrow> 0 < k \<Longrightarrow> symmetric k (sub (eye k) (dot P (transpose_m P)))"
  by (auto simp: symmetric_def sub_entry [of k] eye_entry gram_entry [of k] mult.commute)

lemma sum_squares_pos:
  fixes w :: "nat \<Rightarrow> real"
  assumes "\<exists>i<k. w i \<noteq> 0"
  shows "0 < (\<Sum>i<k. (w i)\<^sup>2)"
proof -
  from assms obtain i where i: "i < k" "w i \<noteq> 0" by blast
  have "0 < (w i)\<^sup>2" using i by simp
  also have "(w i)\<^sup>2 = (\<Sum>j\<in>{i}. (w j)\<^sup>2)" by simp
  also have "\<dots> \<le> (\<Sum>j<k. (w j)\<^sup>2)"
    using i by (intro sum_mono2) auto
  finally show ?thesis .
qed

lemma pos_def_eye_plus_gram:
  assumes "is_shape k k A" and "0 < k"
  shows "pos_def k (add (eye k) (dot A (transpose_m A)))"
  unfolding pos_def_def
proof (intro allI impI)
  fix w :: "nat \<Rightarrow> real"
  assume "\<exists>i<k. w i \<noteq> 0"
  then have "0 < (\<Sum>i<k. (w i)\<^sup>2)"
    by (rule sum_squares_pos)
  moreover have "0 \<le> (\<Sum>l<k. (\<Sum>i<k. w i * A ! i ! l)\<^sup>2)"
    by (rule sum_nonneg) simp
  ultimately show "0 < quadratic_form k (add (eye k) (dot A (transpose_m A))) w"
    by (simp add: quadratic_form_eye_plus_gram [OF assms])
qed

section \<open>\<^verbatim>\<open>cholesky\<close> and \<^verbatim>\<open>solve_triangular\<close> on square matrices\<close>

lemma low_eq: "(\<lambda>i j. if j \<le> i then L ! i ! j else 0) = low L"
  by (intro ext) (simp add: low_def)

lemma cholesky_Inr:
  assumes "cholesky A = Inr B"
  obtains L where "cholesky_rows A (length A) = Inr L"
    and "B = mat (length A) (length A) (low L)"
  using assms
  by (auto simp: cholesky_def ebind_def Let_def low_eq split: if_splits sum.splits)

lemma cholesky_pos_def:
  assumes "is_shape k k A" and "symmetric k A" and "pos_def k A"
  obtains L where "cholesky_rows A k = Inr L" and "cholesky A = Inr (mat k k (low L))"
proof -
  from pos_def_cholesky_rows [OF assms(2,3), of k] obtain L where L: "cholesky_rows A k = Inr L"
    by auto
  have "length A = k"
    using assms(1) by (simp add: is_shape_def)
  with assms(1) L have "cholesky A = Inr (mat k k (low L))"
    by (simp add: cholesky_def ebind_def low_eq)
  with L show ?thesis by (rule that)
qed

lemma cholesky_square_error:
  "is_shape k k A \<Longrightarrow> cholesky A = Inl e \<Longrightarrow> e = LinAlgError"
  by (auto simp: cholesky_def ebind_def Let_def is_shape_def
      dest: cholesky_rows_error split: if_splits sum.splits)

text \<open>
  \<open>forward_subst\<close> reads the lower triangle only, so it takes the full factor for the
  rows it was built from.
\<close>

lemma forward_subst_cong:
  assumes "\<And>i l. i < m \<Longrightarrow> l \<le> i \<Longrightarrow> B ! i ! l = L ! i ! l"
  shows "forward_subst B b m = forward_subst L b m"
  using assms
proof (induction m)
  case 0
  then show ?case by simp
next
  case (Suc m)
  then have IH: "forward_subst B b m = forward_subst L b m"
    by simp
  have "(\<Sum>k<m. B ! m ! k * forward_subst L b m ! k) = (\<Sum>k<m. L ! m ! k * forward_subst L b m ! k)"
    by (intro sum.cong refl) (simp add: Suc.prems)
  then show ?case
    by (simp add: forward_subst.simps(2) IH Suc.prems)
qed

lemma solve_triangular_factor:
  assumes L: "cholesky_rows M k = Inr L" and A: "is_shape k k A" and k: "0 < k"
  defines "B \<equiv> mat k k (low L)"
  obtains P where "solve_triangular B A = Inr P" and "is_shape k k P"
    and "\<And>i j. i < k \<Longrightarrow> j < k \<Longrightarrow> (\<Sum>l<k. low L i l * P ! l ! j) = A ! i ! j"
proof -
  let ?P = "mat k k (\<lambda>i j. forward_subst B (column A j) k ! i)"
  have diag: "B ! j ! j \<noteq> 0" if "j < k" for j
    using that cholesky_rows_factor(3) [OF L that] by (simp add: B_def low_def)
  have "\<not> list_ex (\<lambda>j. B ! j ! j = 0) [0..<k]"
    using diag by (simp add: list_ex_iff)
  then have solve: "solve_triangular B A = Inr ?P"
    using A k by (simp add: solve_triangular_def B_def is_shape_ncols)
  have eq: "(\<Sum>l<k. low L i l * ?P ! l ! j) = A ! i ! j" if i: "i < k" and j: "j < k" for i j
  proof -
    let ?x = "forward_subst B (column A j) k"
    have "(\<Sum>l<k. low L i l * ?P ! l ! j) = (\<Sum>l<k. low L i l * ?x ! l)"
      using j by (intro sum.cong refl) simp
    also have "\<dots> = (\<Sum>l<Suc i. low L i l * ?x ! l)"
      using i by (intro sum.mono_neutral_right) (auto simp: low_def)
    also have "\<dots> = (\<Sum>l<Suc i. B ! i ! l * ?x ! l)"
      using i by (intro sum.cong refl) (simp add: B_def)
    also have "\<dots> = column A j ! i"
      using i diag by (intro forward_subst_solves) simp_all
    also have "\<dots> = A ! i ! j"
      using A i by (simp add: column_def is_shape_def)
    finally show ?thesis .
  qed
  show ?thesis
    by (rule that [OF solve _ eq]) simp_all
qed

section \<open>\<^verbatim>\<open>_constrain_sv_less_than_one_python\<close>: singular values below one\<close>

lemma has_rows_square: "is_shape k k A \<Longrightarrow> has_rows k A"
  by (cases "k = 0") (simp_all add: has_rows_def is_shape_ncols)

lemma dot_low_factor:
  assumes L: "cholesky_rows M k = Inr L" and P: "is_shape k k P" and A: "is_shape k k A"
    and k: "0 < k"
    and eq: "\<And>i j. i < k \<Longrightarrow> j < k \<Longrightarrow> (\<Sum>l<k. low L i l * P ! l ! j) = A ! i ! j"
  shows "dot (mat k k (low L)) P = A"
proof (rule mat_eqI [of k k])
  show "is_shape k k (dot (mat k k (low L)) P)"
    by (rule is_shape_dot [OF is_shape_mat P k])
  show "is_shape k k A"
    by (rule A)
next
  fix i j
  assume i: "i < k" and j: "j < k"
  have "dot (mat k k (low L)) P ! i ! j = (\<Sum>l<k. mat k k (low L) ! i ! l * P ! l ! j)"
    by (rule dot_entry [OF is_shape_mat P k i j])
  also have "\<dots> = (\<Sum>l<k. low L i l * P ! l ! j)"
    using i by (intro sum.cong refl) simp
  finally show "dot (mat k k (low L)) P ! i ! j = A ! i ! j"
    using eq [OF i j] by simp
qed

text \<open>
  If \<open>L L\<^sup>T = I + A A\<^sup>T\<close> and \<open>L P = A\<close>, then \<open>\<parallel>P\<^sup>T w\<parallel>\<^sup>2 = \<parallel>w\<parallel>\<^sup>2 - \<parallel>z\<parallel>\<^sup>2\<close> for the
  solution \<open>z\<close> of \<open>L\<^sup>T z = w\<close>, and \<open>z\<close> is not zero when \<open>w\<close> is not.
\<close>

lemma constrain_sv_contracts:
  assumes L: "cholesky_rows (add (eye k) (dot A (transpose_m A))) k = Inr L"
    and A: "is_shape k k A" and k: "0 < k"
    and eq: "\<And>i j. i < k \<Longrightarrow> j < k \<Longrightarrow> (\<Sum>l<k. low L i l * P ! l ! j) = A ! i ! j"
    and w: "\<exists>i<k. w i \<noteq> 0"
  shows "(\<Sum>j<k. (\<Sum>i<k. w i * P ! i ! j)\<^sup>2) < (\<Sum>i<k. (w i)\<^sup>2)"
proof -
  let ?M = "add (eye k) (dot A (transpose_m A))"
  have sym: "symmetric k ?M"
    by (rule symmetric_eye_plus_gram [OF A k])
  have "\<exists>z. \<forall>i<k. (\<Sum>l<k. z l * low L l i) = w i"
    by (rule triangular_solution) (simp_all add: low_triangular low_diagonal [OF L])
  then obtain z where z: "\<And>i. i < k \<Longrightarrow> (\<Sum>l<k. z l * low L l i) = w i"
    by blast
  have Pw: "(\<Sum>i<k. w i * P ! i ! j) = (\<Sum>l<k. z l * A ! l ! j)" if j: "j < k" for j
  proof -
    have "(\<Sum>i<k. w i * P ! i ! j) = (\<Sum>i<k. \<Sum>l<k. z l * (low L l i * P ! i ! j))"
      by (intro sum.cong refl) (simp add: z [symmetric] sum_distrib_right mult.assoc)
    also have "\<dots> = (\<Sum>l<k. \<Sum>i<k. z l * (low L l i * P ! i ! j))"
      by (rule sum.swap)
    also have "\<dots> = (\<Sum>l<k. z l * (\<Sum>i<k. low L l i * P ! i ! j))"
      by (simp add: sum_distrib_left)
    also have "\<dots> = (\<Sum>l<k. z l * A ! l ! j)"
      using j by (intro sum.cong refl) (simp add: eq)
    finally show ?thesis .
  qed
  have "(\<Sum>i<k. (w i)\<^sup>2) = (\<Sum>i<k. (\<Sum>l<k. z l * low L l i)\<^sup>2)"
    by (intro sum.cong refl) (simp add: z)
  also have "\<dots> = quadratic_form k ?M z"
    by (rule quadratic_form_factor [OF L sym, symmetric])
  also have "\<dots> = (\<Sum>i<k. (z i)\<^sup>2) + (\<Sum>j<k. (\<Sum>l<k. z l * A ! l ! j)\<^sup>2)"
    by (rule quadratic_form_eye_plus_gram [OF A k])
  also have "(\<Sum>j<k. (\<Sum>l<k. z l * A ! l ! j)\<^sup>2) = (\<Sum>j<k. (\<Sum>i<k. w i * P ! i ! j)\<^sup>2)"
    by (intro sum.cong refl) (simp add: Pw)
  finally have norm: "(\<Sum>i<k. (w i)\<^sup>2)
      = (\<Sum>i<k. (z i)\<^sup>2) + (\<Sum>j<k. (\<Sum>i<k. w i * P ! i ! j)\<^sup>2)" .
  have "\<exists>i<k. z i \<noteq> 0"
  proof (rule ccontr)
    assume "\<not> (\<exists>i<k. z i \<noteq> 0)"
    then have "(\<Sum>l<k. z l * low L l i) = 0" for i
      by (intro sum.neutral) simp
    with z have "w i = 0" if "i < k" for i
      using that by fastforce
    with w show False by blast
  qed
  then have "0 < (\<Sum>i<k. (z i)\<^sup>2)"
    by (rule sum_squares_pos)
  with norm show ?thesis by simp
qed

text \<open>The square of a singular value is a Rayleigh quotient of \<open>P P\<^sup>T\<close>.\<close>

lemma singular_value_rayleigh:
  assumes P: "is_shape k k P" and k: "0 < k" and s: "singular_value k P s"
  obtains w where "\<exists>i<k. w i \<noteq> 0"
    and "(\<Sum>j<k. (\<Sum>i<k. w i * P ! i ! j)\<^sup>2) = s\<^sup>2 * (\<Sum>i<k. (w i)\<^sup>2)"
proof -
  from s obtain v where len: "length v = k" and nz: "\<exists>i<k. v ! i \<noteq> 0"
    and ev: "mat_vec (dot P (transpose_m P)) v = map ((*) (s\<^sup>2)) v"
    by (auto simp: singular_value_def)
  let ?G = "dot P (transpose_m P)"
  have G: "is_shape k k ?G"
    by (rule is_shape_gram [OF P k])
  have row: "(\<Sum>j<k. ?G ! i ! j * v ! j) = s\<^sup>2 * v ! i" if i: "i < k" for i
  proof -
    have "mat_vec ?G v ! i = (\<Sum>j<k. ?G ! i ! j * v ! j)"
      using G i len by (simp add: mat_vec_def is_shape_def)
    moreover have "map ((*) (s\<^sup>2)) v ! i = s\<^sup>2 * v ! i"
      using i len by simp
    ultimately show ?thesis
      using ev by simp
  qed
  have "(\<Sum>j<k. (\<Sum>i<k. v ! i * P ! i ! j)\<^sup>2)
        = (\<Sum>i<k. \<Sum>j<k. v ! i * (\<Sum>l<k. P ! i ! l * P ! j ! l) * v ! j)"
    by (rule gram_quadratic_form [symmetric])
  also have "\<dots> = (\<Sum>i<k. \<Sum>j<k. v ! i * (?G ! i ! j * v ! j))"
    using P k by (intro sum.cong refl) (simp add: gram_entry [of k] mult.assoc)
  also have "\<dots> = (\<Sum>i<k. v ! i * (\<Sum>j<k. ?G ! i ! j * v ! j))"
    by (simp add: sum_distrib_left)
  also have "\<dots> = (\<Sum>i<k. s\<^sup>2 * (v ! i)\<^sup>2)"
    by (intro sum.cong refl) (simp add: row power2_eq_square)
  also have "\<dots> = s\<^sup>2 * (\<Sum>i<k. (v ! i)\<^sup>2)"
    by (simp add: sum_distrib_left)
  finally show ?thesis
    using nz by (intro that [of "\<lambda>i. v ! i"])
qed

lemma contraction_singular_value:
  assumes P: "is_shape k k P" and k: "0 < k" and s: "singular_value k P s"
    and c: "\<And>w. \<exists>i<k. w i \<noteq> 0 \<Longrightarrow> (\<Sum>j<k. (\<Sum>i<k. w i * P ! i ! j)\<^sup>2) < (\<Sum>i<k. (w i)\<^sup>2)"
  shows "s < 1"
proof -
  from singular_value_rayleigh [OF P k s] obtain w where w: "\<exists>i<k. w i \<noteq> 0"
    and r: "(\<Sum>j<k. (\<Sum>i<k. w i * P ! i ! j)\<^sup>2) = s\<^sup>2 * (\<Sum>i<k. (w i)\<^sup>2)"
    by blast
  have pos: "0 < (\<Sum>i<k. (w i)\<^sup>2)"
    using w by (rule sum_squares_pos)
  from c [OF w] r have "s\<^sup>2 * (\<Sum>i<k. (w i)\<^sup>2) < 1 * (\<Sum>i<k. (w i)\<^sup>2)"
    by simp
  with pos have "s\<^sup>2 < 1"
    by (simp only: mult_less_cancel_right_pos)
  moreover have "0 \<le> s"
    using s by (simp add: singular_value_def)
  ultimately show ?thesis
    by (simp add: power2_less_1_iff abs_square_less_1)
qed

lemma constrain_sv_square:
  assumes A: "is_shape k k A" and k: "0 < k"
  obtains B P where "cho_factor (add (eye k) (dot A (transpose_m A))) = Inr B"
    and "constrain_sv k A = Inr P" and "is_shape k k P" and "dot B P = A"
    and "\<And>s. singular_value k P s \<Longrightarrow> s < 1"
proof -
  let ?M = "add (eye k) (dot A (transpose_m A))"
  have M: "is_shape k k ?M"
    by (rule is_shape_add) simp
  obtain L where L: "cholesky_rows ?M k = Inr L" and chol: "cholesky ?M = Inr (mat k k (low L))"
    using M symmetric_eye_plus_gram [OF A k] pos_def_eye_plus_gram [OF A k]
    by (rule cholesky_pos_def)
  obtain P where solve: "solve_triangular (mat k k (low L)) A = Inr P"
    and P: "is_shape k k P"
    and eq: "\<And>i j. i < k \<Longrightarrow> j < k \<Longrightarrow> (\<Sum>l<k. low L i l * P ! l ! j) = A ! i ! j"
    by (rule solve_triangular_factor [OF L A k]) (rule that, simp_all)
  have run: "constrain_sv k A = Inr P"
    using has_rows_square [OF A] chol solve
    by (simp add: constrain_sv_def cho_factor_def ebind_def)
  have bound: "s < 1" if "singular_value k P s" for s
    using P k that
  proof (rule contraction_singular_value)
    fix w :: "nat \<Rightarrow> real"
    assume "\<exists>i<k. w i \<noteq> 0"
    with L A k eq show "(\<Sum>j<k. (\<Sum>i<k. w i * P ! i ! j)\<^sup>2) < (\<Sum>i<k. (w i)\<^sup>2)"
      by (rule constrain_sv_contracts)
  qed
  show ?thesis
    using chol run P dot_low_factor [OF L P A k eq] bound
    by (intro that [of "mat k k (low L)" P]) (simp_all add: cho_factor_def)
qed

text \<open>A loop over the indices of a list whose body succeeds on every element.\<close>

lemma emap_append:
  "emap g (js @ [j]) = ebind (emap g js) (\<lambda>ys. ebind (g j) (\<lambda>y. Inr (ys @ [y])))"
  by (induction js) (auto simp: ebind_def split: sum.splits)

lemma emap_cong: "(\<And>j. j \<in> set js \<Longrightarrow> g j = h j) \<Longrightarrow> emap g js = emap h js"
  by (induction js) simp_all

lemma emap_items:
  assumes "\<And>x. x \<in> set xs \<Longrightarrow> \<exists>y. f x = Inr y \<and> Q x y"
  shows "\<exists>ys. emap (\<lambda>i. ebind (item xs i) f) [0..<length xs] = Inr ys \<and> length ys = length xs \<and>
              (\<forall>i<length xs. Q (xs ! i) (ys ! i))"
  using assms
proof (induction xs rule: rev_induct)
  case Nil
  then show ?case by simp
next
  case (snoc x xs)
  from snoc.prems have "\<exists>ys. emap (\<lambda>i. ebind (item xs i) f) [0..<length xs] = Inr ys \<and>
      length ys = length xs \<and> (\<forall>i<length xs. Q (xs ! i) (ys ! i))"
    by (intro snoc.IH) simp
  then obtain ys where ys: "emap (\<lambda>i. ebind (item xs i) f) [0..<length xs] = Inr ys"
    and len: "length ys = length xs" and Q: "\<And>i. i < length xs \<Longrightarrow> Q (xs ! i) (ys ! i)"
    by blast
  from snoc.prems obtain y where y: "f x = Inr y" "Q x y"
    by auto
  have same: "emap (\<lambda>i. ebind (item (xs @ [x]) i) f) [0..<length xs]
              = emap (\<lambda>i. ebind (item xs i) f) [0..<length xs]"
    by (rule emap_cong) (simp add: item_def nth_append)
  have last: "item (xs @ [x]) (length xs) = Inr x"
    by (simp add: item_def)
  have "emap (\<lambda>i. ebind (item (xs @ [x]) i) f) [0..<length (xs @ [x])]
        = ebind (emap (\<lambda>i. ebind (item (xs @ [x]) i) f) [0..<length xs])
            (\<lambda>ys. ebind (ebind (item (xs @ [x]) (length xs)) f) (\<lambda>y. Inr (ys @ [y])))"
    by (simp add: emap_append)
  also have "\<dots> = Inr (ys @ [y])"
    by (simp add: same ys last y ebind_Inr)
  finally have run: "emap (\<lambda>i. ebind (item (xs @ [x]) i) f) [0..<length (xs @ [x])]
                     = Inr (ys @ [y])" .
  have "Q ((xs @ [x]) ! i) ((ys @ [y]) ! i)" if "i < length (xs @ [x])" for i
  proof (cases "i = length xs")
    case True
    with y len show ?thesis by (simp add: nth_append)
  next
    case False
    with that have "i < length xs" by simp
    with Q [OF this] len show ?thesis by (simp add: nth_append)
  qed
  with run len show ?case
    by simp
qed

text \<open>
  Over the reals, without rounding: for a non-empty list of \<open>k \<times> k\<close> matrices
  \<open>A\<^sub>i\<close>, the function returns a list \<open>P\<^sub>i\<close> of the same length; the Cholesky
  factorisation of \<open>I + A\<^sub>i A\<^sub>i\<^sup>T\<close> succeeds with a factor \<open>B\<close>, \<open>B P\<^sub>i = A\<^sub>i\<close>, and
  every singular value of \<open>P\<^sub>i\<close> is strictly less than 1. (In double precision the last
  part fails, see below.)
\<close>

lemma constrain_sv_singular_values_exact:
  assumes "0 < k" and "As \<noteq> []" and "\<forall>A\<in>set As. is_shape k k A"
  shows "\<exists>Ps. constrain_sv_less_than_one_python As None None = Inr Ps \<and>
              length Ps = length As \<and>
              (\<forall>i<length As.
                  (\<exists>B. cho_factor (add (eye k) (dot (As ! i) (transpose_m (As ! i)))) = Inr B \<and>
                       dot B (Ps ! i) = As ! i) \<and>
                  (\<forall>s. singular_value k (Ps ! i) s \<longrightarrow> s < 1))"
proof -
  let ?Q = "\<lambda>A P. (\<exists>B. cho_factor (add (eye k) (dot A (transpose_m A))) = Inr B \<and> dot B P = A) \<and>
                   (\<forall>s. singular_value k P s \<longrightarrow> s < 1)"
  have one: "\<exists>P. constrain_sv k A = Inr P \<and> ?Q A P" if "A \<in> set As" for A
  proof -
    from that assms(3) have "is_shape k k A" by blast
    then show ?thesis
      using assms(1) by (rule constrain_sv_square) blast
  qed
  have k_endog: "default_k_endog None As = Inr k"
    using assms(2,3) by (cases As) (auto simp: default_k_endog_def is_shape_def)
  from emap_items [of As "constrain_sv k" ?Q, OF one]
  show ?thesis
    by (simp add: constrain_sv_less_than_one_python_def default_order_def k_endog ebind_def)
qed

lemma sqrt_25_16: "sqrt (25 / 16) = 5 / 4"
  by (rule real_sqrt_unique) (simp_all add: power2_eq_square)

lemma constrain_sv_example:
  "constrain_sv_less_than_one_python [[[3 / 4, 0], [0, 0]]] None None = Inr [[[3 / 5, 0], [0, 0]]]"
  by (simp add: eval_simps forward_subst.simps sqrt_25_16 cong: ebind_weak_cong let_weak_cong)

lemma constrain_sv_singular_values_exact_example:
  "0 < (2 :: nat) \<and> [[[3 / 4, 0], [0, 0 :: real]]] \<noteq> [] \<and> is_shape 2 2 [[3 / 4, 0], [0, 0]] \<and>
   constrain_sv_less_than_one_python [[[3 / 4, 0], [0, 0]]] None None
     = Inr [[[3 / 5, 0], [0, 0]]] \<and>
   \<not> singular_value 2 [[3 / 5, 0], [0, 0]] 1"
proof -
  have shape: "\<forall>A\<in>set [[[3 / 4, 0], [0, 0 :: real]]]. is_shape 2 2 A"
    by (simp add: is_shape_def)
  from constrain_sv_singular_values_exact [of 2 "[[[3 / 4, 0], [0, 0]]]", OF _ _ shape]
  have "\<forall>s. singular_value 2 [[3 / 5, 0], [0, 0]] s \<longrightarrow> s < 1"
    by (simp add: constrain_sv_example)
  then have "\<not> singular_value 2 [[3 / 5, 0], [0, 0]] 1"
    by fastforce
  then show ?thesis
    by (simp add: constrain_sv_example is_shape_def)
qed

section \<open>\<^verbatim>\<open>_unconstrain_sv_less_than_one\<close>: its domain\<close>

lemma dot_assoc:
  assumes A: "is_shape k k A" and B: "is_shape k k B" and C: "is_shape k k C" and k: "0 < k"
  shows "dot (dot A B) C = dot A (dot B C)"
proof (rule mat_eqI [of k k])
  show "is_shape k k (dot (dot A B) C)"
    by (rule is_shape_dot [OF is_shape_dot [OF A B k] C k])
  show "is_shape k k (dot A (dot B C))"
    by (rule is_shape_dot [OF A is_shape_dot [OF B C k] k])
next
  fix i j
  assume i: "i < k" and j: "j < k"
  have "dot (dot A B) C ! i ! j = (\<Sum>l<k. dot A B ! i ! l * C ! l ! j)"
    by (rule dot_entry [OF is_shape_dot [OF A B k] C k i j])
  also have "\<dots> = (\<Sum>l<k. \<Sum>m<k. A ! i ! m * (B ! m ! l * C ! l ! j))"
    using i by (intro sum.cong refl)
      (simp add: dot_entry [OF A B k] sum_distrib_right mult.assoc)
  also have "\<dots> = (\<Sum>m<k. \<Sum>l<k. A ! i ! m * (B ! m ! l * C ! l ! j))"
    by (rule sum.swap)
  also have "\<dots> = (\<Sum>m<k. A ! i ! m * dot B C ! m ! j)"
    using j by (intro sum.cong refl) (simp add: dot_entry [OF B C k] sum_distrib_left)
  also have "\<dots> = dot A (dot B C) ! i ! j"
    by (rule dot_entry [OF A is_shape_dot [OF B C k] k i j, symmetric])
  finally show "dot (dot A B) C ! i ! j = dot A (dot B C) ! i ! j" .
qed

lemma sum_delta_left:
  fixes f :: "nat \<Rightarrow> real"
  assumes "i < k"
  shows "(\<Sum>l<k. (if i = l then 1 else 0) * f l) = f i"
proof -
  have "(\<Sum>l<k. (if i = l then 1 else 0) * f l) = (\<Sum>l\<in>{i}. f l)"
    using assms by (intro sum.mono_neutral_cong_right) auto
  then show ?thesis by simp
qed

lemma dot_eye_left:
  assumes A: "is_shape k k A" and k: "0 < k"
  shows "dot (eye k) A = A"
proof (rule mat_eqI [of k k])
  show "is_shape k k (dot (eye k) A)"
    by (rule is_shape_dot [OF is_shape_eye A k])
  show "is_shape k k A"
    by (rule A)
next
  fix i j
  assume i: "i < k" and j: "j < k"
  have "dot (eye k) A ! i ! j = (\<Sum>l<k. eye k ! i ! l * A ! l ! j)"
    by (rule dot_entry [OF is_shape_eye A k i j])
  also have "\<dots> = (\<Sum>l<k. (if i = l then 1 else 0) * A ! l ! j)"
    using i by (intro sum.cong refl) (simp add: eye_entry)
  also have "\<dots> = A ! i ! j"
    by (rule sum_delta_left [OF i])
  finally show "dot (eye k) A ! i ! j = A ! i ! j" .
qed

text \<open>A lower triangular factor with a non-zero diagonal has a left inverse.\<close>

lemma factor_left_inverse:
  assumes L: "cholesky_rows M k = Inr L" and k: "0 < k"
  obtains B where "is_shape k k B" and "dot B (mat k k (low L)) = eye k"
proof -
  have "\<exists>z. \<forall>j<k. (\<Sum>l<k. z l * low L l j) = (if i = j then 1 else 0)" for i
    by (rule triangular_solution) (simp_all add: low_triangular low_diagonal [OF L])
  then obtain z where z: "\<And>i j. j < k \<Longrightarrow> (\<Sum>l<k. z i l * low L l j) = (if i = j then 1 else 0)"
    by metis
  let ?B = "mat k k z"
  have "dot ?B (mat k k (low L)) = eye k"
  proof (rule mat_eqI [of k k])
    show "is_shape k k (dot ?B (mat k k (low L)))"
      by (rule is_shape_dot [OF is_shape_mat is_shape_mat k])
    show "is_shape k k (eye k)"
      by simp
  next
    fix i j
    assume i: "i < k" and j: "j < k"
    have "dot ?B (mat k k (low L)) ! i ! j = (\<Sum>l<k. ?B ! i ! l * mat k k (low L) ! l ! j)"
      by (rule dot_entry [OF is_shape_mat is_shape_mat k i j])
    also have "\<dots> = (\<Sum>l<k. z i l * low L l j)"
      using i j by (intro sum.cong refl) simp
    finally show "dot ?B (mat k k (low L)) ! i ! j = eye k ! i ! j"
      using i j by (simp add: z eye_entry)
  qed
  then show ?thesis
    by (intro that [of ?B]) simp_all
qed

text \<open>
  The body of the loop on one \<open>k \<times> k\<close> matrix: the only failure is that of the
  factorisation, and it happens exactly when \<open>I - P P\<^sup>T\<close> is not positive definite.
\<close>

lemma unconstrain_sv_pos_def:
  assumes P: "is_shape k k P" and k: "0 < k"
    and pd: "pos_def k (sub (eye k) (dot P (transpose_m P)))"
  obtains B_inv B A where "cho_factor (sub (eye k) (dot P (transpose_m P))) = Inr B_inv"
    and "unconstrain_sv k P = Inr A" and "dot B B_inv = eye k" and "A = dot B P"
proof -
  let ?M = "sub (eye k) (dot P (transpose_m P))"
  have M: "is_shape k k ?M"
    by (rule is_shape_sub) simp
  obtain L where L: "cholesky_rows ?M k = Inr L" and chol: "cholesky ?M = Inr (mat k k (low L))"
    using M symmetric_eye_minus_gram [OF P k] pd
    by (rule cholesky_pos_def)
  obtain A where solve: "solve_triangular (mat k k (low L)) P = Inr A"
    and A: "is_shape k k A"
    and eq: "\<And>i j. i < k \<Longrightarrow> j < k \<Longrightarrow> (\<Sum>l<k. low L i l * A ! l ! j) = P ! i ! j"
    by (rule solve_triangular_factor [OF L P k]) (rule that, simp_all)
  have run: "unconstrain_sv k P = Inr A"
    using has_rows_square [OF P] chol solve
    by (simp add: unconstrain_sv_def cho_factor_def ebind_def)
  have BA: "dot (mat k k (low L)) A = P"
    by (rule dot_low_factor [OF L A P k eq])
  obtain B where B: "is_shape k k B" and inv: "dot B (mat k k (low L)) = eye k"
    using L k by (rule factor_left_inverse)
  have "dot B P = dot (dot B (mat k k (low L))) A"
    using dot_assoc [OF B is_shape_mat A k, of "low L"] BA by simp
  also have "\<dots> = A"
    by (simp add: inv dot_eye_left [OF A k])
  finally have "A = dot B P" by simp
  with chol run inv show ?thesis
    by (intro that [of "mat k k (low L)" A B]) (simp_all add: cho_factor_def)
qed

lemma unconstrain_sv_not_pos_def:
  assumes P: "is_shape k k P" and k: "0 < k"
    and npd: "\<not> pos_def k (sub (eye k) (dot P (transpose_m P)))"
  shows "unconstrain_sv k P = Inl LinAlgError"
proof -
  let ?M = "sub (eye k) (dot P (transpose_m P))"
  have M: "is_shape k k ?M"
    by (rule is_shape_sub) simp
  then have len: "length ?M = k"
    by (simp add: is_shape_def)
  have "cholesky ?M = Inl LinAlgError"
  proof (cases "cholesky ?M")
    case (Inl e)
    with cholesky_square_error [OF M] show ?thesis by simp
  next
    case (Inr B)
    then obtain L where "cholesky_rows ?M (length ?M) = Inr L"
      by (rule cholesky_Inr)
    then have "pos_def k ?M"
      using symmetric_eye_minus_gram [OF P k] by (simp add: len factor_pos_def)
    with npd show ?thesis by simp
  qed
  with has_rows_square [OF P] show ?thesis
    by (simp add: unconstrain_sv_def cho_factor_def ebind_def)
qed

lemma singular_value_not_pos_def:
  assumes P: "is_shape k k P" and k: "0 < k" and s: "singular_value k P s" and s1: "1 \<le> s"
  shows "\<not> pos_def k (sub (eye k) (dot P (transpose_m P)))"
proof
  assume pd: "pos_def k (sub (eye k) (dot P (transpose_m P)))"
  from singular_value_rayleigh [OF P k s] obtain w where w: "\<exists>i<k. w i \<noteq> 0"
    and r: "(\<Sum>j<k. (\<Sum>i<k. w i * P ! i ! j)\<^sup>2) = s\<^sup>2 * (\<Sum>i<k. (w i)\<^sup>2)"
    by blast
  have "0 < quadratic_form k (sub (eye k) (dot P (transpose_m P))) w"
    using pd w unfolding pos_def_def by blast
  then have "s\<^sup>2 * (\<Sum>i<k. (w i)\<^sup>2) < 1 * (\<Sum>i<k. (w i)\<^sup>2)"
    by (simp add: quadratic_form_eye_minus_gram [OF P k] r)
  moreover have "0 < (\<Sum>i<k. (w i)\<^sup>2)"
    using w by (rule sum_squares_pos)
  ultimately have "s\<^sup>2 < 1"
    by (simp only: mult_less_cancel_right_pos)
  moreover have "1 \<le> s\<^sup>2"
    using s1 by (simp add: one_le_power)
  ultimately show False by simp
qed

text \<open>
  With a singular value decomposition whose singular values are all below one,
  \<open>w\<^sup>T (I - P P\<^sup>T) w = \<Sum>\<^sub>l (1 - s\<^sub>l\<^sup>2) (U\<^sup>T w)\<^sub>l\<^sup>2\<close> is positive.
\<close>

lemma svd_entry:
  assumes U: "is_shape k k U" and V: "is_shape k k V" and s: "length s = k" and k: "0 < k"
    and i: "i < k" and j: "j < k"
  shows "dot (dot U (diag_m s)) (transpose_m V) ! i ! j = (\<Sum>l<k. U ! i ! l * s ! l * V ! j ! l)"
proof -
  have D: "is_shape k k (diag_m s)"
    by (simp add: diag_m_def s)
  have UD: "dot U (diag_m s) ! i ! l = U ! i ! l * s ! l" if l: "l < k" for l
  proof -
    have "dot U (diag_m s) ! i ! l = (\<Sum>m<k. U ! i ! m * diag_m s ! m ! l)"
      by (rule dot_entry [OF U D k i l])
    also have "\<dots> = (\<Sum>m<k. (if l = m then 1 else 0) * (U ! i ! m * s ! m))"
      using l by (intro sum.cong refl) (simp add: diag_m_def s)
    also have "\<dots> = U ! i ! l * s ! l"
      by (rule sum_delta_left [OF l])
    finally show ?thesis .
  qed
  have "dot (dot U (diag_m s)) (transpose_m V) ! i ! j
        = (\<Sum>l<k. dot U (diag_m s) ! i ! l * transpose_m V ! l ! j)"
    by (rule dot_entry [OF is_shape_dot [OF U D k] is_shape_transpose [OF V] k i j])
  also have "\<dots> = (\<Sum>l<k. U ! i ! l * s ! l * V ! j ! l)"
    using j by (intro sum.cong refl) (simp add: UD transpose_entry [OF V])
  finally show ?thesis .
qed

lemma svd_pos_def:
  assumes svd: "svd k P U s V" and small: "\<forall>x\<in>set s. x < 1" and k: "0 < k"
  shows "is_shape k k P" and "pos_def k (sub (eye k) (dot P (transpose_m P)))"
proof -
  from svd have U: "is_shape k k U" and UUt: "dot U (transpose_m U) = eye k"
    and V: "is_shape k k V" and VtV: "dot (transpose_m V) V = eye k"
    and s: "length s = k" and nonneg: "\<And>l. l < k \<Longrightarrow> 0 \<le> s ! l"
    and P: "P = dot (dot U (diag_m s)) (transpose_m V)"
    by (auto simp: svd_def orthogonal_def list_all_length)
  have D: "is_shape k k (diag_m s)"
    by (simp add: diag_m_def s)
  show shape: "is_shape k k P"
    unfolding P
    by (rule is_shape_dot [OF is_shape_dot [OF U D k] is_shape_transpose [OF V] k])
  have P_entry: "P ! i ! j = (\<Sum>l<k. U ! i ! l * s ! l * V ! j ! l)" if "i < k" "j < k" for i j
    unfolding P using U V s k that by (rule svd_entry)
  have UU: "(\<Sum>l<k. U ! i ! l * U ! j ! l) = (if i = j then 1 else 0)" if "i < k" "j < k" for i j
    using gram_entry [OF U k that] that by (simp add: UUt eye_entry)
  have VV: "(\<Sum>j<k. V ! j ! l * V ! j ! m) = (if l = m then 1 else 0)" if l: "l < k" and m: "m < k"
    for l m
  proof -
    have "dot (transpose_m V) V ! l ! m = (\<Sum>j<k. transpose_m V ! l ! j * V ! j ! m)"
      by (rule dot_entry [OF is_shape_transpose [OF V] V k l m])
    also have "\<dots> = (\<Sum>j<k. V ! j ! l * V ! j ! m)"
      using l by (intro sum.cong refl) (simp add: transpose_entry [OF V])
    finally show ?thesis
      using l m by (simp add: VtV eye_entry)
  qed
  show "pos_def k (sub (eye k) (dot P (transpose_m P)))"
    unfolding pos_def_def
  proof (intro allI impI)
    fix w :: "nat \<Rightarrow> real"
    assume w: "\<exists>i<k. w i \<noteq> 0"
    define y where "y l = (\<Sum>i<k. w i * U ! i ! l)" for l
    have norm_w: "(\<Sum>i<k. (w i)\<^sup>2) = (\<Sum>l<k. (y l)\<^sup>2)"
    proof -
      have "(\<Sum>l<k. (y l)\<^sup>2) = (\<Sum>i<k. \<Sum>j<k. w i * (\<Sum>l<k. U ! i ! l * U ! j ! l) * w j)"
        unfolding y_def by (rule gram_quadratic_form [symmetric])
      also have "\<dots> = (\<Sum>i<k. \<Sum>j<k. w i * (if i = j then 1 else 0) * w j)"
        by (intro sum.cong refl) (simp add: UU)
      also have "\<dots> = (\<Sum>i<k. (w i)\<^sup>2)"
        by (rule sum_delta_square)
      finally show ?thesis by simp
    qed
    have Pw: "(\<Sum>i<k. w i * P ! i ! j) = (\<Sum>l<k. (y l * s ! l) * V ! j ! l)" if j: "j < k" for j
    proof -
      have "(\<Sum>i<k. w i * P ! i ! j) = (\<Sum>i<k. \<Sum>l<k. (w i * U ! i ! l) * (s ! l * V ! j ! l))"
        using j by (intro sum.cong refl) (simp add: P_entry sum_distrib_left mult.assoc)
      also have "\<dots> = (\<Sum>l<k. \<Sum>i<k. (w i * U ! i ! l) * (s ! l * V ! j ! l))"
        by (rule sum.swap)
      also have "\<dots> = (\<Sum>l<k. (y l * s ! l) * V ! j ! l)"
        by (simp add: y_def sum_distrib_right mult.assoc)
      finally show ?thesis .
    qed
    have norm_Pw: "(\<Sum>j<k. (\<Sum>i<k. w i * P ! i ! j)\<^sup>2) = (\<Sum>l<k. (s ! l)\<^sup>2 * (y l)\<^sup>2)"
    proof -
      have "(\<Sum>j<k. (\<Sum>i<k. w i * P ! i ! j)\<^sup>2) = (\<Sum>j<k. (\<Sum>l<k. (y l * s ! l) * V ! j ! l)\<^sup>2)"
        by (intro sum.cong refl) (simp add: Pw)
      also have "\<dots> = (\<Sum>l<k. \<Sum>m<k. (y l * s ! l) * (\<Sum>j<k. V ! j ! l * V ! j ! m) * (y m * s ! m))"
        by (rule gram_quadratic_form
            [where n = k and m = k and w = "\<lambda>l. y l * s ! l" and F = "\<lambda>l j. V ! j ! l", symmetric])
      also have "\<dots> = (\<Sum>l<k. \<Sum>m<k. (y l * s ! l) * (if l = m then 1 else 0) * (y m * s ! m))"
        by (intro sum.cong refl) (simp add: VV)
      also have "\<dots> = (\<Sum>l<k. (y l * s ! l)\<^sup>2)"
        by (rule sum_delta_square)
      finally show ?thesis
        by (simp add: power_mult_distrib mult.commute)
    qed
    have "quadratic_form k (sub (eye k) (dot P (transpose_m P))) w
          = (\<Sum>l<k. (1 - (s ! l)\<^sup>2) * (y l)\<^sup>2)"
      by (simp add: quadratic_form_eye_minus_gram [OF shape k] norm_w norm_Pw
          sum_subtractf left_diff_distrib)
    moreover have "0 < (\<Sum>l<k. (1 - (s ! l)\<^sup>2) * (y l)\<^sup>2)"
    proof -
      have sq: "(s ! l)\<^sup>2 < 1" if "l < k" for l
      proof -
        have "s ! l < 1"
          using small s that by simp
        with nonneg [OF that] have "\<bar>s ! l\<bar> < 1"
          by simp
        then show ?thesis
          by (simp only: abs_square_less_1)
      qed
      have "0 < (\<Sum>l<k. (y l)\<^sup>2)"
        using w norm_w sum_squares_pos [of k w] by simp
      then obtain l where l: "l < k" "y l \<noteq> 0"
        by (metis (no_types, lifting) lessThan_iff power_zero_numeral sum.neutral less_irrefl)
      show ?thesis
      proof (rule sum_pos2 [of _ l])
        show "0 < (1 - (s ! l)\<^sup>2) * (y l)\<^sup>2"
          using sq [OF l(1)] l(2) by simp
        show "0 \<le> (1 - (s ! i)\<^sup>2) * (y i)\<^sup>2" if "i \<in> {..<k}" for i
          using sq [of i] that by simp
      qed (use l in simp_all)
    qed
    ultimately show "0 < quadratic_form k (sub (eye k) (dot P (transpose_m P))) w"
      by simp
  qed
qed

text \<open>A loop over the indices of a list whose body raises on some element.\<close>

lemma emap_items_error:
  assumes "\<And>x. x \<in> set xs \<Longrightarrow> f x = Inl E \<or> (\<exists>y. f x = Inr y)"
    and "\<exists>x\<in>set xs. f x = Inl E"
  shows "emap (\<lambda>i. ebind (item xs i) f) [0..<length xs] = Inl E"
  using assms
proof (induction xs rule: rev_induct)
  case Nil
  then show ?case by simp
next
  case (snoc x xs)
  have same: "emap (\<lambda>i. ebind (item (xs @ [x]) i) f) [0..<length xs]
              = emap (\<lambda>i. ebind (item xs i) f) [0..<length xs]"
    by (rule emap_cong) (simp add: item_def nth_append)
  have last: "item (xs @ [x]) (length xs) = Inr x"
    by (simp add: item_def)
  have unfold: "emap (\<lambda>i. ebind (item (xs @ [x]) i) f) [0..<length (xs @ [x])]
        = ebind (emap (\<lambda>i. ebind (item xs i) f) [0..<length xs])
            (\<lambda>ys. ebind (f x) (\<lambda>y. Inr (ys @ [y])))"
    by (simp add: emap_append same last ebind_Inr)
  show ?case
  proof (cases "\<exists>x\<in>set xs. f x = Inl E")
    case True
    with snoc.prems(1) have "emap (\<lambda>i. ebind (item xs i) f) [0..<length xs] = Inl E"
      by (intro snoc.IH) simp_all
    then show ?thesis
      unfolding unfold by (simp add: ebind_Inl)
  next
    case False
    with snoc.prems have x: "f x = Inl E" and ok: "\<And>z. z \<in> set xs \<Longrightarrow> \<exists>y. f z = Inr y \<and> True"
      by auto
    from emap_items [of xs f "\<lambda>x y. True", OF ok]
    obtain ys where "emap (\<lambda>i. ebind (item xs i) f) [0..<length xs] = Inr ys"
      by blast
    with x show ?thesis
      unfolding unfold by (simp add: ebind_Inl ebind_Inr)
  qed
qed

text \<open>
  Over the reals, without rounding: on a non-empty list of \<open>k \<times> k\<close> matrices
  \<open>P\<^sub>i\<close>, if some \<open>P\<^sub>i\<close> has a singular value that is at least 1, the call fails with
  \<^verbatim>\<open>LinAlgError\<close>, the exception of the Cholesky factorisation; if every \<open>P\<^sub>i\<close> has a
  singular value decomposition with all singular values below 1, the call returns a list
  \<open>A\<^sub>i\<close> of the same length, and \<open>A\<^sub>i = B P\<^sub>i\<close> for an inverse \<open>B\<close> of the lower
  Cholesky factor of \<open>I - P\<^sub>i P\<^sub>i\<^sup>T\<close>. (In double precision the first part fails, see
  below.)
\<close>

lemma unconstrain_sv_domain_exact:
  assumes "0 < k" and "Ps \<noteq> []" and "\<forall>P\<in>set Ps. is_shape k k P"
  shows "((\<exists>P\<in>set Ps. \<exists>s. singular_value k P s \<and> 1 \<le> s) \<longrightarrow>
            unconstrain_sv_less_than_one Ps None None = Inl LinAlgError) \<and>
         ((\<forall>P\<in>set Ps. \<exists>U s V. svd k P U s V \<and> (\<forall>x\<in>set s. x < 1)) \<longrightarrow>
            (\<exists>As. unconstrain_sv_less_than_one Ps None None = Inr As \<and>
                  length As = length Ps \<and>
                  (\<forall>i<length Ps. \<exists>B_inv B.
                      cho_factor (sub (eye k) (dot (Ps ! i) (transpose_m (Ps ! i)))) = Inr B_inv \<and>
                      dot B B_inv = eye k \<and> As ! i = dot B (Ps ! i))))"
proof (intro conjI impI)
  have k_endog: "default_k_endog None Ps = Inr k"
    using assms(2,3) by (cases Ps) (auto simp: default_k_endog_def is_shape_def)
  have run: "unconstrain_sv_less_than_one Ps None None
             = emap (\<lambda>i. ebind (item Ps i) (unconstrain_sv k)) [0..<length Ps]"
    by (simp add: unconstrain_sv_less_than_one_def default_order_def k_endog ebind_Inr)
  {
    assume bad: "\<exists>P\<in>set Ps. \<exists>s. singular_value k P s \<and> 1 \<le> s"
    have outcome: "unconstrain_sv k P = Inl LinAlgError \<or> (\<exists>A. unconstrain_sv k P = Inr A)"
      if "P \<in> set Ps" for P
    proof -
      from that assms(3) have P: "is_shape k k P" by blast
      show ?thesis
      proof (cases "pos_def k (sub (eye k) (dot P (transpose_m P)))")
        case True
        with P assms(1) show ?thesis
          by (rule unconstrain_sv_pos_def) blast
      next
        case False
        with P assms(1) show ?thesis
          by (simp add: unconstrain_sv_not_pos_def)
      qed
    qed
    from bad obtain P s where P: "P \<in> set Ps" and s: "singular_value k P s" "1 \<le> s"
      by blast
    from P assms(3) have "is_shape k k P" by blast
    then have "unconstrain_sv k P = Inl LinAlgError"
      using assms(1) s
      by (intro unconstrain_sv_not_pos_def singular_value_not_pos_def)
    with P have "\<exists>P\<in>set Ps. unconstrain_sv k P = Inl LinAlgError"
      by blast
    with outcome show "unconstrain_sv_less_than_one Ps None None = Inl LinAlgError"
      unfolding run by (rule emap_items_error)
  }
  {
    assume good: "\<forall>P\<in>set Ps. \<exists>U s V. svd k P U s V \<and> (\<forall>x\<in>set s. x < 1)"
    let ?Q = "\<lambda>P A. \<exists>B_inv B. cho_factor (sub (eye k) (dot P (transpose_m P))) = Inr B_inv \<and>
                        dot B B_inv = eye k \<and> A = dot B P"
    have one: "\<exists>A. unconstrain_sv k P = Inr A \<and> ?Q P A" if "P \<in> set Ps" for P
    proof -
      from that good obtain U s V where "svd k P U s V" "\<forall>x\<in>set s. x < 1"
        by blast
      from svd_pos_def [OF this assms(1)]
      have "is_shape k k P" and "pos_def k (sub (eye k) (dot P (transpose_m P)))"
        by simp_all
      from this(1) assms(1) this(2) show ?thesis
        by (rule unconstrain_sv_pos_def) blast
    qed
    from emap_items [of Ps "unconstrain_sv k" ?Q, OF one]
    show "\<exists>As. unconstrain_sv_less_than_one Ps None None = Inr As \<and>
               length As = length Ps \<and>
               (\<forall>i<length Ps. \<exists>B_inv B.
                   cho_factor (sub (eye k) (dot (Ps ! i) (transpose_m (Ps ! i)))) = Inr B_inv \<and>
                   dot B B_inv = eye k \<and> As ! i = dot B (Ps ! i))"
      unfolding run by simp
  }
qed

lemma sqrt_16_25: "sqrt (16 / 25) = 4 / 5"
  by (rule real_sqrt_unique) (simp_all add: power2_eq_square)

lemma unconstrain_sv_example:
  "unconstrain_sv_less_than_one [[[3 / 5, 0], [0, 0]]] None None = Inr [[[3 / 4, 0], [0, 0]]]"
  by (simp add: eval_simps forward_subst.simps sqrt_16_25 cong: ebind_weak_cong let_weak_cong)

lemma unconstrain_sv_error_example:
  "unconstrain_sv_less_than_one [[[1, 0], [0, 0]]] None None = Inl LinAlgError"
  by (simp add: eval_simps forward_subst.simps cong: ebind_weak_cong let_weak_cong)

lemma singular_value_example: "singular_value 2 [[1, 0], [0, 0]] 1"
  unfolding singular_value_def
  by (intro conjI exI [of _ "[1, 0]"] exI [of _ 0])
    (simp_all add: mat_vec_def eval_simps)

lemma svd_example: "svd 2 [[3 / 5, 0], [0, 0]] (eye 2) [3 / 5, 0] (eye 2)"
  by (simp add: svd_def orthogonal_def diag_m_def eval_simps)

lemma unconstrain_sv_domain_exact_example:
  "0 < (2 :: nat) \<and> is_shape 2 2 [[1, 0], [0, 0]] \<and> is_shape 2 2 [[3 / 5, 0], [0, 0]] \<and>
   singular_value 2 [[1, 0], [0, 0]] 1 \<and>
   unconstrain_sv_less_than_one [[[1, 0], [0, 0]]] None None = Inl LinAlgError \<and>
   svd 2 [[3 / 5, 0], [0, 0]] (eye 2) [3 / 5, 0] (eye 2) \<and>
   unconstrain_sv_less_than_one [[[3 / 5, 0], [0, 0]]] None None = Inr [[[3 / 4, 0], [0, 0]]] \<and>
   dot [[5 / 4, 0], [0, 1]] [[3 / 5, 0], [0, 0]] = [[3 / 4, 0], [0, 0]]"
proof -
  have bad: "unconstrain_sv_less_than_one [[[1, 0], [0, 0]]] None None = Inl LinAlgError"
    using unconstrain_sv_domain_exact [of 2 "[[[1, 0], [0, 0]]]"] singular_value_example
    by (auto simp: is_shape_def)
  have "\<exists>U s V. svd 2 [[3 / 5, 0], [0, 0]] U s V \<and> (\<forall>x\<in>set s. x < 1)"
    by (intro exI conjI, rule svd_example) simp
  then have good: "\<exists>As. unconstrain_sv_less_than_one [[[3 / 5, 0], [0, 0]]] None None = Inr As"
    using unconstrain_sv_domain_exact [of 2 "[[[3 / 5, 0], [0, 0]]]"]
    by (simp add: is_shape_def) blast
  have shapes: "is_shape 2 2 [[1, 0], [0, 0 :: real]]" "is_shape 2 2 [[3 / 5, 0], [0, 0 :: real]]"
    by (simp_all add: is_shape_def)
  have inverse: "dot [[5 / 4, 0], [0, 1]] [[3 / 5, 0], [0, 0]] = [[3 / 4, 0], [0, 0 :: real]]"
    by (simp add: eval_simps)
  from bad good shapes inverse singular_value_example svd_example unconstrain_sv_example
  show ?thesis
    by simp
qed

section \<open>The array of \<^verbatim>\<open>constrain_stationary_univariate\<close>\<close>

lemma set_entry_nth:
  "k < length y \<Longrightarrow> set_entry y k i v ! k' = (if k' = k then (y ! k)[i := v] else y ! k')"
  by (simp add: set_entry_def)

text \<open>
  The inner loop writes the entries left of the diagonal of row \<open>k\<close>, reading row
  \<open>k - 1\<close> only.
\<close>

lemma constrain_inner_upto:
  fixes r :: vec and y :: matrix
  assumes "0 < k" and "k < length y" and "m \<le> length (y ! k)"
  defines "f \<equiv> \<lambda>i. y ! (k - 1) ! i + r ! k * y ! (k - 1) ! (k - i - 1)"
  defines "row \<equiv> \<lambda>m. map (\<lambda>i. if i < m then f i else y ! k ! i) [0..<length (y ! k)]"
  shows "fold (\<lambda>i y. set_entry y k i (y ! (k - 1) ! i + r ! k * y ! (k - 1) ! (k - i - 1)))
           [0..<m] y
         = y[k := row m]"
  using assms(3)
proof (induction m)
  case 0
  have "map (\<lambda>i. y ! k ! i) [0..<length (y ! k)] = y ! k"
    by (rule map_nth)
  then show ?case by (simp add: row_def)
next
  case (Suc m)
  define F where "F = (\<lambda>i y. set_entry y k i
    (y ! (k - 1) ! i + r ! k * y ! (k - 1) ! (k - i - 1)))"
  from Suc have IH: "fold F [0..<m] y = y[k := row m]" and m: "m < length (y ! k)"
    by (simp_all add: F_def)
  have prev: "y[k := row m] ! (k - 1) = y ! (k - 1)"
    using assms(1) by simp
  have "fold F [0..<Suc m] y = F m (y[k := row m])"
    by (simp add: IH)
  also have "\<dots> = set_entry (y[k := row m]) k m (f m)"
    unfolding F_def prev f_def ..
  also have "\<dots> = y[k := (row m)[m := f m]]"
    using assms(2) by (simp add: set_entry_def)
  also have "(row m)[m := f m] = row (Suc m)"
    unfolding row_def using m
    by (intro nth_equalityI) (auto simp: nth_list_update less_Suc_eq)
  finally show ?case
    by (simp add: F_def)
qed

lemma constrain_step_row:
  assumes "k < length y" and "length (y ! k) = n" and "k < n"
    and "\<And>i. i < n \<Longrightarrow> y ! k ! i = 0"
    and "0 < k \<Longrightarrow> (\<forall>i<n. y ! (k - 1) ! i = levinson r (k - 1) i)"
  shows "constrain_step r k y = y[k := map (levinson r k) [0..<n]]"
proof (cases k)
  case 0
  have "(y ! 0)[0 := r ! 0] = map (levinson r 0) [0..<n]"
    using assms(2,3,4) 0 by (intro nth_equalityI) (auto simp: nth_list_update)
  with 0 assms(1) show ?thesis
    by (simp add: constrain_step_def constrain_inner_def set_entry_def)
next
  case (Suc k')
  define row where "row = map (\<lambda>i. if i < k
      then y ! (k - 1) ! i + r ! k * y ! (k - 1) ! (k - i - 1) else y ! k ! i) [0..<n]"
  have inner: "constrain_inner r k y = y[k := row]"
    unfolding constrain_inner_def row_def
    using constrain_inner_upto [of k y k r] assms(1,2,3) Suc by simp
  have prev: "y ! k' ! i = levinson r k' i" if "i < n" for i
    using assms(5) Suc that by simp
  have "row[k := r ! k] = map (levinson r k) [0..<n]"
  proof (rule nth_equalityI)
    show "length (row[k := r ! k]) = length (map (levinson r k) [0..<n])"
      by (simp add: row_def)
  next
    fix i
    assume "i < length (row[k := r ! k])"
    then have i: "i < n" by (simp add: row_def)
    show "row[k := r ! k] ! i = map (levinson r k) [0..<n] ! i"
    proof (cases "i < k")
      case True
      then have "k' - i < n"
        using assms(3) Suc by simp
      with True i Suc show ?thesis
        by (simp add: row_def nth_list_update prev)
    next
      case False
      with i assms(3,4) Suc show ?thesis
        by (auto simp: row_def nth_list_update)
    qed
  qed
  moreover have "constrain_step r k y = y[k := row[k := r ! k]]"
    using assms(1) by (simp add: constrain_step_def inner set_entry_def)
  ultimately show ?thesis
    by simp
qed

lemma constrain_y_upto:
  assumes "m \<le> n"
  shows "fold (constrain_step r) [0..<m] (zeros n n)
         = mat n n (\<lambda>k i. if k < m then levinson r k i else 0)"
  using assms
proof (induction m)
  case 0
  then show ?case by (simp add: zeros_def)
next
  case (Suc m)
  let ?y = "mat n n (\<lambda>k i. if k < m then levinson r k i else 0)"
  from Suc have IH: "fold (constrain_step r) [0..<m] (zeros n n) = ?y" and m: "m < n"
    by simp_all
  have "constrain_step r m ?y = ?y[m := map (levinson r m) [0..<n]]"
    using m by (intro constrain_step_row) auto
  also have "\<dots> = mat n n (\<lambda>k i. if k < Suc m then levinson r k i else 0)"
    using m by (intro mat_eqI [of n n]) (auto simp: is_shape_def list_all_length nth_list_update less_Suc_eq)
  finally show ?case
    by (simp add: IH)
qed

lemma constrain_y_eq:
  "constrain_y u = mat (length u) (length u) (\<lambda>k i. levinson (map squash u) k i)"
proof -
  have "constrain_y u = mat (length u) (length u)
          (\<lambda>k i. if k < length u then levinson (map squash u) k i else 0)"
    by (simp add: constrain_y_def Let_def constrain_y_upto)
  also have "\<dots> = mat (length u) (length u) (\<lambda>k i. levinson (map squash u) k i)"
    by (intro mat_eqI [of "length u" "length u"]) simp_all
  finally show ?thesis .
qed

lemma constrain_stationary_univariate_eq:
  "u \<noteq> [] \<Longrightarrow>
   constrain_stationary_univariate u
   = Inr (map (\<lambda>i. - levinson (map squash u) (length u - 1) i) [0..<length u])"
  by (simp add: constrain_stationary_univariate_def constrain_y_eq mat_def Let_def comp_def)

section \<open>The roots of the characteristic polynomial lie inside the unit circle\<close>

lemma squash_bound: "\<bar>squash u\<bar> < 1"
proof -
  have "\<bar>u\<bar> = sqrt (u\<^sup>2)"
    by simp
  also have "\<dots> < sqrt (1 + u\<^sup>2)"
    by (rule real_sqrt_less_mono) simp
  finally have "\<bar>u\<bar> < sqrt (1 + u\<^sup>2)" .
  moreover have "0 < sqrt (1 + u\<^sup>2)"
    by (simp add: add_pos_nonneg)
  ultimately show ?thesis
    by (simp add: squash_def)
qed

lemma char_poly_Suc:
  "char_poly r (Suc k) l = l * char_poly r k l + complex_of_real (r ! Suc k) * rev_poly r k l"
proof -
  let ?y = "\<lambda>i. complex_of_real (levinson r k i)"
  let ?c = "complex_of_real (r ! Suc k)"
  have rev: "(\<Sum>i<Suc k. ?y (k - i) * l ^ (Suc k - i)) = (\<Sum>i<Suc k. ?y i * l ^ Suc i)"
  proof -
    have "(\<Sum>i<Suc k. ?y (k - i) * l ^ (Suc k - i))
          = (\<Sum>i<Suc k. (\<lambda>j. ?y j * l ^ Suc j) (Suc k - Suc i))"
      by (intro sum.cong refl) (simp add: Suc_diff_le)
    also have "\<dots> = (\<Sum>i<Suc k. ?y i * l ^ Suc i)"
      by (rule sum.nat_diff_reindex)
    finally show ?thesis .
  qed
  have shift: "(\<Sum>i<Suc k. ?y i * l ^ (Suc k - i)) = l * (\<Sum>i<Suc k. ?y i * l ^ (k - i))"
    unfolding sum_distrib_left
    by (intro sum.cong refl) (simp add: Suc_diff_le)
  have "(\<Sum>i<Suc k. complex_of_real (levinson r (Suc k) i) * l ^ (Suc k - i))
        = (\<Sum>i<Suc k. ?y i * l ^ (Suc k - i) + ?c * (?y (k - i) * l ^ (Suc k - i)))"
    by (intro sum.cong refl) (simp add: algebra_simps)
  also have "\<dots> = (\<Sum>i<Suc k. ?y i * l ^ (Suc k - i))
                  + ?c * (\<Sum>i<Suc k. ?y (k - i) * l ^ (Suc k - i))"
    by (simp only: sum.distrib sum_distrib_left)
  also have "\<dots> = l * (\<Sum>i<Suc k. ?y i * l ^ (k - i)) + ?c * (\<Sum>i<Suc k. ?y i * l ^ Suc i)"
    by (simp only: rev shift)
  finally have low: "(\<Sum>i<Suc k. complex_of_real (levinson r (Suc k) i) * l ^ (Suc k - i))
        = l * (\<Sum>i<Suc k. ?y i * l ^ (k - i)) + ?c * (\<Sum>i<Suc k. ?y i * l ^ Suc i)" .
  have "char_poly r (Suc k) l
        = l ^ Suc (Suc k)
          + ((\<Sum>i<Suc k. complex_of_real (levinson r (Suc k) i) * l ^ (Suc k - i)) + ?c)"
    by (simp add: char_poly_def)
  then show ?thesis
    unfolding low char_poly_def rev_poly_def
    by (simp add: algebra_simps)
qed

lemma rev_poly_Suc:
  "rev_poly r (Suc k) l = rev_poly r k l + complex_of_real (r ! Suc k) * (l * char_poly r k l)"
proof -
  let ?y = "\<lambda>i. complex_of_real (levinson r k i)"
  let ?c = "complex_of_real (r ! Suc k)"
  have rev: "(\<Sum>i<Suc k. ?y (k - i) * l ^ Suc i) = (\<Sum>i<Suc k. ?y i * l ^ Suc (k - i))"
  proof -
    have "(\<Sum>i<Suc k. ?y i * l ^ Suc (k - i))
          = (\<Sum>i<Suc k. (\<lambda>j. ?y (k - j) * l ^ Suc j) (Suc k - Suc i))"
      by (intro sum.cong refl) simp
    also have "\<dots> = (\<Sum>i<Suc k. ?y (k - i) * l ^ Suc i)"
      by (rule sum.nat_diff_reindex)
    finally show ?thesis by simp
  qed
  have shift: "(\<Sum>i<Suc k. ?y i * l ^ Suc (k - i)) = l * (\<Sum>i<Suc k. ?y i * l ^ (k - i))"
    unfolding sum_distrib_left
    by (intro sum.cong refl) simp
  have "(\<Sum>i<Suc k. complex_of_real (levinson r (Suc k) i) * l ^ Suc i)
        = (\<Sum>i<Suc k. ?y i * l ^ Suc i + ?c * (?y (k - i) * l ^ Suc i))"
    by (intro sum.cong refl) (simp add: algebra_simps)
  also have "\<dots> = (\<Sum>i<Suc k. ?y i * l ^ Suc i) + ?c * (\<Sum>i<Suc k. ?y (k - i) * l ^ Suc i)"
    by (simp only: sum.distrib sum_distrib_left)
  also have "\<dots> = (\<Sum>i<Suc k. ?y i * l ^ Suc i) + ?c * (l * (\<Sum>i<Suc k. ?y i * l ^ (k - i)))"
    by (simp only: rev shift)
  finally have low: "(\<Sum>i<Suc k. complex_of_real (levinson r (Suc k) i) * l ^ Suc i)
        = (\<Sum>i<Suc k. ?y i * l ^ Suc i) + ?c * (l * (\<Sum>i<Suc k. ?y i * l ^ (k - i)))" .
  have "rev_poly r (Suc k) l
        = 1 + ((\<Sum>i<Suc k. complex_of_real (levinson r (Suc k) i) * l ^ Suc i)
               + ?c * l ^ Suc (Suc k))"
    by (simp add: rev_poly_def)
  then show ?thesis
    unfolding low char_poly_def rev_poly_def
    by (simp add: algebra_simps)
qed

lemma reflection_norms:
  fixes a b :: complex and c :: real
  shows "(cmod (a + complex_of_real c * b))\<^sup>2 - (cmod (b + complex_of_real c * a))\<^sup>2
         = (1 - c\<^sup>2) * ((cmod a)\<^sup>2 - (cmod b)\<^sup>2)"
  unfolding cmod_power2 by (simp add: power2_eq_square algebra_simps)

lemma reflection_step:
  fixes a b :: complex and c :: real
  assumes c: "\<bar>c\<bar> < 1" and ab: "cmod b \<le> cmod a" and a: "a \<noteq> 0"
  shows "cmod (b + complex_of_real c * a) \<le> cmod (a + complex_of_real c * b)"
    and "a + complex_of_real c * b \<noteq> 0"
proof -
  have c2: "0 \<le> 1 - c\<^sup>2"
    using c by (simp add: abs_square_le_1 less_imp_le)
  have "(cmod b)\<^sup>2 \<le> (cmod a)\<^sup>2"
    using ab by (simp add: power_mono)
  then have "0 \<le> (1 - c\<^sup>2) * ((cmod a)\<^sup>2 - (cmod b)\<^sup>2)"
    using c2 by simp
  then have "(cmod (b + complex_of_real c * a))\<^sup>2 \<le> (cmod (a + complex_of_real c * b))\<^sup>2"
    using reflection_norms [of a c b] by linarith
  then show "cmod (b + complex_of_real c * a) \<le> cmod (a + complex_of_real c * b)"
    by (rule power2_le_imp_le) simp
  show "a + complex_of_real c * b \<noteq> 0"
  proof
    assume "a + complex_of_real c * b = 0"
    then have "a = - (complex_of_real c * b)"
      by (simp add: add_eq_0_iff)
    then have "cmod a = \<bar>c\<bar> * cmod b"
      by (simp add: norm_mult)
    also have "\<dots> \<le> \<bar>c\<bar> * cmod a"
      using ab by (simp add: mult_left_mono)
    finally have "(1 - \<bar>c\<bar>) * cmod a \<le> 0"
      by (simp add: algebra_simps)
    moreover have "0 < (1 - \<bar>c\<bar>) * cmod a"
      using c a by simp
    ultimately show False by simp
  qed
qed

lemma char_poly_no_root:
  assumes r: "\<And>i. i \<le> k \<Longrightarrow> \<bar>r ! i\<bar> < 1" and l: "1 \<le> cmod l"
  shows "cmod (rev_poly r k l) \<le> cmod (char_poly r k l) \<and> char_poly r k l \<noteq> 0"
  using r
proof (induction k)
  case 0
  have l0: "l \<noteq> 0"
    using l by auto
  have p: "char_poly r 0 l = l + complex_of_real (r ! 0) * 1"
    and q: "rev_poly r 0 l = 1 + complex_of_real (r ! 0) * l"
    by (simp_all add: char_poly_def rev_poly_def)
  from reflection_step [of "r ! 0" 1 l] 0 l l0 show ?case
    unfolding p q by simp
next
  case (Suc k)
  then have IH: "cmod (rev_poly r k l) \<le> cmod (char_poly r k l)" "char_poly r k l \<noteq> 0"
    and c: "\<bar>r ! Suc k\<bar> < 1"
    by simp_all
  have l0: "l \<noteq> 0"
    using l by auto
  have "cmod (char_poly r k l) \<le> cmod l * cmod (char_poly r k l)"
    using l by (simp add: mult_le_cancel_right1)
  with IH(1) have ab: "cmod (rev_poly r k l) \<le> cmod (l * char_poly r k l)"
    by (simp add: norm_mult)
  have a: "l * char_poly r k l \<noteq> 0"
    using IH(2) l0 by simp
  from reflection_step [OF c ab a] show ?case
    by (simp add: char_poly_Suc rev_poly_Suc)
qed

section \<open>The companion matrix of the output of \<^verbatim>\<open>constrain_stationary_univariate\<close>\<close>

lemma scalars_Num: "scalars (map Num xs) = Some xs"
  by (induction xs) simp_all

lemma companion_ar_polynomial:
  assumes "c \<noteq> []"
  shows "fst (companion_matrix (ar_polynomial c))
         = Inr (mat (length c) (length c)
                  (\<lambda>i j. if j = 0 then c ! i else if j = Suc i then 1 else 0))"
proof -
  let ?n = "length c"
  have n: "0 < ?n"
    using assms by simp
  have sc: "scalars (Num 1 # map (\<lambda>x. Num (- x)) c) = Some (1 # map uminus c)"
    using scalars_Num [of "1 # map uminus c"] by (simp add: comp_def)
  let ?S = "mat ?n ?n (\<lambda>i j. if i < ?n - 1 \<and> j = i + 1 then 1 else (0 :: real))"
  have S: "shifted_identity ?n 1 = ?S"
    by (simp add: shifted_identity_def)
  have dims: "nrows ?S = ?n" "ncols ?S = ?n"
    using n by (simp_all add: nrows_def is_shape_ncols [OF is_shape_mat])
  have column: "map (\<lambda>x. - x / hd (1 # map uminus c)) (tl (1 # map uminus c)) = c"
    by (simp add: comp_def)
  have fc: "set_first_column (shifted_identity ?n 1) c
        = mat ?n ?n (\<lambda>i j. if j = 0 then c ! i else if j = Suc i then 1 else 0)"
    unfolding S set_first_column_def dims
    by (rule mat_eqI [of ?n ?n]) auto
  have "fst (companion_matrix (ar_polynomial c))
        = scalar_companion ?n (Num 1 # map (\<lambda>x. Num (- x)) c)"
    using n by (simp add: ar_polynomial_def companion_matrix_def Let_def)
  also have "\<dots> = Inr (set_first_column (shifted_identity ?n 1)
                      (map (\<lambda>x. - x / hd (1 # map uminus c)) (tl (1 # map uminus c))))"
    unfolding scalar_companion_def sc by simp
  also have "\<dots> = Inr (mat ?n ?n (\<lambda>i j. if j = 0 then c ! i else if j = Suc i then 1 else 0))"
    unfolding column fc ..
  finally show ?thesis .
qed

lemma sum_delta_complex:
  fixes g :: "nat \<Rightarrow> complex"
  shows "(\<Sum>j<n. if j = a then g j else 0) = (if a < n then g a else 0)"
  by (simp add: sum.delta')

lemma companion_row:
  fixes v :: "nat \<Rightarrow> complex"
  assumes "0 < n"
  shows "(\<Sum>j<n. complex_of_real (if j = 0 then x else if j = Suc i then 1 else 0) * v j)
         = complex_of_real x * v 0 + (if Suc i < n then v (Suc i) else 0)"
proof -
  have "(\<Sum>j<n. complex_of_real (if j = 0 then x else if j = Suc i then 1 else 0) * v j)
        = (\<Sum>j<n. (if j = 0 then complex_of_real x * v j else 0)
                  + (if j = Suc i then v j else 0))"
    by (intro sum.cong refl) simp
  also have "\<dots> = (\<Sum>j<n. if j = 0 then complex_of_real x * v j else 0)
                  + (\<Sum>j<n. if j = Suc i then v j else 0)"
    by (rule sum.distrib)
  finally show ?thesis
    using assms by (simp only: sum_delta_complex) simp
qed

text \<open>An eigenvalue of the companion matrix is a root of the characteristic polynomial.\<close>

lemma companion_eigenvalue_root:
  assumes n: "0 < n"
    and ev: "eigenvalue (mat n n (\<lambda>i j. if j = 0 then c i else if j = Suc i then 1 else 0)) l"
  shows "l ^ n - (\<Sum>i<n. complex_of_real (c i) * l ^ (n - 1 - i)) = 0"
proof -
  define g where "g m = l ^ m - (\<Sum>i<m. complex_of_real (c i) * l ^ (m - 1 - i))" for m
  let ?M = "mat n n (\<lambda>i j. if j = 0 then c i else if j = Suc i then 1 else 0)"
  from ev obtain v :: "nat \<Rightarrow> complex" where nz: "\<exists>i<n. v i \<noteq> 0"
    and eq: "\<And>i. i < n \<Longrightarrow> (\<Sum>j<n. complex_of_real (?M ! i ! j) * v j) = l * v i"
    by (auto simp: eigenvalue_def)
  have rows: "complex_of_real (c i) * v 0 + (if Suc i < n then v (Suc i) else 0) = l * v i"
    if i: "i < n" for i
  proof -
    have "(\<Sum>j<n. complex_of_real (?M ! i ! j) * v j)
          = (\<Sum>j<n. complex_of_real (if j = 0 then c i else if j = Suc i then 1 else 0) * v j)"
      using i by (intro sum.cong refl) simp
    also have "\<dots> = complex_of_real (c i) * v 0 + (if Suc i < n then v (Suc i) else 0)"
      by (rule companion_row [OF n])
    finally show ?thesis
      using eq [OF i] by simp
  qed
  have g_Suc: "g (Suc m) = l * g m - complex_of_real (c m)" for m
  proof -
    have "(\<Sum>i<m. complex_of_real (c i) * l ^ (m - i))
          = l * (\<Sum>i<m. complex_of_real (c i) * l ^ (m - 1 - i))"
      unfolding sum_distrib_left
      by (intro sum.cong refl) (simp add: Suc_diff_Suc [symmetric] del: Suc_diff_Suc)
    then show ?thesis
      by (simp add: g_def algebra_simps)
  qed
  have comp: "v m = g m * v 0" if "m < n" for m
    using that
  proof (induction m)
    case 0
    then show ?case by (simp add: g_def)
  next
    case (Suc m)
    then have "v m = g m * v 0" and "m < n" and "Suc m < n"
      by simp_all
    with rows [of m] show ?case
      by (simp add: g_Suc algebra_simps)
  qed
  have v0: "v 0 \<noteq> 0"
  proof
    assume "v 0 = 0"
    with comp have "v m = 0" if "m < n" for m
      using that by simp
    with nz show False by blast
  qed
  obtain k where k: "n = Suc k"
    using n by (cases n) simp_all
  have "g n * v 0 = l * v k - complex_of_real (c k) * v 0"
    by (simp add: k g_Suc comp [of k] algebra_simps)
  also have "\<dots> = 0"
    using rows [of k] by (simp add: k)
  finally have "g n * v 0 = 0" .
  with v0 have "g n = 0"
    by simp
  then show ?thesis
    by (simp add: g_def)
qed

text \<open>
  The univariate half of the stability guarantee: the stability test answers true on
  the lag polynomial of every output of \<^verbatim>\<open>constrain_stationary_univariate\<close>.
\<close>

lemma constrain_univariate_stable:
  assumes "constrain_stationary_univariate u = Inr c"
  shows "is_invertible (ar_polynomial c) 1 = Inr True"
proof -
  let ?r = "map squash u"
  from assms have u: "u \<noteq> []"
    by (auto simp: constrain_stationary_univariate_def Let_def split: if_splits)
  then obtain k where k: "length u = Suc k"
    by (cases u) simp_all
  from assms u have c: "c = map (\<lambda>i. - levinson ?r k i) [0..<Suc k]"
    by (simp add: constrain_stationary_univariate_eq k)
  then have len: "length c = Suc k"
    by simp
  have c0: "c \<noteq> []"
    using len by auto
  let ?M = "mat (Suc k) (Suc k) (\<lambda>i j. if j = 0 then c ! i else if j = Suc i then 1 else 0)"
  have M: "fst (companion_matrix (ar_polynomial c)) = Inr ?M"
    using companion_ar_polynomial [OF c0] by (simp add: len)
  have "cmod l < 1" if ev: "eigenvalue ?M l" for l
  proof (rule ccontr)
    assume "\<not> cmod l < 1"
    then have l: "1 \<le> cmod l" by simp
    have "l ^ Suc k - (\<Sum>i<Suc k. complex_of_real (c ! i) * l ^ (Suc k - 1 - i)) = 0"
      by (rule companion_eigenvalue_root [OF _ ev]) simp
    moreover have "(\<Sum>i<Suc k. complex_of_real (c ! i) * l ^ (Suc k - 1 - i))
                   = - (\<Sum>i<Suc k. complex_of_real (levinson ?r k i) * l ^ (k - i))"
      unfolding sum_negf [symmetric]
      by (intro sum.cong refl) (simp add: c del: upt_Suc)
    ultimately have "char_poly ?r k l = 0"
      by (simp add: char_poly_def)
    moreover have "char_poly ?r k l \<noteq> 0"
    proof -
      have "\<bar>?r ! i\<bar> < 1" if "i \<le> k" for i
        using that k by (simp add: squash_bound)
      with l show ?thesis
        using char_poly_no_root [of k ?r l] by blast
    qed
    ultimately show False by simp
  qed
  then show ?thesis
    by (simp add: is_invertible_def M ebind_def)
qed

section \<open>The univariate transforms are inverse to each other\<close>

lemma unconstrain_inner_upto:
  fixes y :: "npfloat list list"
  assumes "0 < k" and "k < length y" and "m \<le> length (y ! (k - 1))"
  defines "f \<equiv> \<lambda>i. np_div (np_sub (y ! k ! i) (np_mul (y ! k ! k) (y ! k ! (k - i - 1))))
                         (np_sub (Fin 1) (np_square (y ! k ! k)))"
  defines "row \<equiv> \<lambda>m. map (\<lambda>i. if i < m then f i else y ! (k - 1) ! i)
                         [0..<length (y ! (k - 1))]"
  shows "fold (\<lambda>i y. set_entry y (k - 1) i
                 (np_div (np_sub (y ! k ! i) (np_mul (y ! k ! k) (y ! k ! (k - i - 1))))
                         (np_sub (Fin 1) (np_square (y ! k ! k)))))
           [0..<m] y
         = y[k - 1 := row m]"
  using assms(3)
proof (induction m)
  case 0
  have "map (\<lambda>i. y ! (k - 1) ! i) [0..<length (y ! (k - 1))] = y ! (k - 1)"
    by (rule map_nth)
  then show ?case by (simp add: row_def)
next
  case (Suc m)
  define F where "F = (\<lambda>i y. set_entry y (k - 1) i
      (np_div (np_sub (y ! k ! i) (np_mul (y ! k ! k) (y ! k ! (k - i - 1))))
              (np_sub (Fin 1) (np_square (y ! k ! k)))))"
  from Suc have IH: "fold F [0..<m] y = y[k - 1 := row m]" and m: "m < length (y ! (k - 1))"
    by (simp_all add: F_def)
  have next_row: "y[k - 1 := row m] ! k = y ! k"
    using assms(1) by simp
  have "fold F [0..<Suc m] y = F m (y[k - 1 := row m])"
    by (simp add: IH)
  also have "\<dots> = set_entry (y[k - 1 := row m]) (k - 1) m (f m)"
    unfolding F_def next_row f_def ..
  also have "\<dots> = y[k - 1 := (row m)[m := f m]]"
    using assms(1,2) by (simp add: set_entry_def)
  also have "(row m)[m := f m] = row (Suc m)"
    unfolding row_def using m
    by (intro nth_equalityI) (auto simp: nth_list_update less_Suc_eq)
  finally show ?case
    by (simp add: F_def)
qed

text \<open>One pass of the backward loop undoes one pass of the forward loop.\<close>

lemma levinson_zero: "k < i \<Longrightarrow> levinson r k i = 0"
  by (induction k) simp_all

lemma levinson_diagonal: "levinson r k k = r ! k"
  by (cases k) simp_all

lemma levinson_back:
  assumes "i \<le> k" and "\<bar>r ! Suc k\<bar> < 1"
  shows "(levinson r (Suc k) i - levinson r (Suc k) (Suc k) * levinson r (Suc k) (k - i))
         / (1 - (levinson r (Suc k) (Suc k))\<^sup>2)
         = levinson r k i"
proof -
  have "(r ! Suc k)\<^sup>2 < 1"
    using assms(2) by (simp only: abs_square_less_1)
  then have nz: "1 - (r ! Suc k)\<^sup>2 \<noteq> 0"
    by simp
  have "levinson r (Suc k) i - r ! Suc k * levinson r (Suc k) (k - i)
        = levinson r k i * (1 - (r ! Suc k)\<^sup>2)"
    using assms(1) by (simp add: power2_eq_square algebra_simps)
  with nz show ?thesis
    by (simp add: levinson_diagonal [of r "Suc k"] del: levinson.simps)
qed

lemma length_table [simp]: "length (table r c f) = r"
  by (simp add: table_def)

lemma length_row_table [simp]: "i < r \<Longrightarrow> length (table r c f ! i) = c"
  by (simp add: table_def)

lemma table_entry [simp]: "i < r \<Longrightarrow> j < c \<Longrightarrow> table r c f ! i ! j = f i j"
  by (simp add: table_def)

lemma table_eqI:
  assumes "length A = r" and "\<And>i. i < r \<Longrightarrow> length (A ! i) = c"
    and "\<And>i j. i < r \<Longrightarrow> j < c \<Longrightarrow> A ! i ! j = f i j"
  shows "A = table r c f"
proof (rule nth_equalityI)
  show "length A = length (table r c f)"
    using assms(1) by simp
next
  fix i
  assume "i < length A"
  then have i: "i < r"
    using assms(1) by simp
  show "A ! i = table r c f ! i"
    using i assms(2,3) by (intro nth_equalityI) simp_all
qed

lemma unconstrain_pass:
  assumes k: "Suc k < n" and r: "\<bar>r ! Suc k\<bar> < 1"
  defines "S \<equiv> \<lambda>j. table n n (\<lambda>k i. if j \<le> k then Fin (levinson r k i) else Fin 0)"
  shows "unconstrain_inner (Suc k) (S (Suc k)) = S k"
proof -
  let ?y = "S (Suc k)"
  have len: "length ?y = n" "length (?y ! k) = n"
    using k by (simp_all add: S_def)
  have Sk: "S k = table n n (\<lambda>j i. if k \<le> j then Fin (levinson r j i) else Fin 0)"
    by (simp add: S_def)
  have sq: "(r ! Suc k)\<^sup>2 \<noteq> 1"
    using r abs_square_less_1 [of "r ! Suc k"] by auto
  have entry: "np_div (np_sub (?y ! Suc k ! i)
                         (np_mul (?y ! Suc k ! Suc k) (?y ! Suc k ! (Suc k - i - 1))))
                      (np_sub (Fin 1) (np_square (?y ! Suc k ! Suc k)))
               = Fin (levinson r k i)" if i: "i \<le> k" for i
  proof -
    have "k - i < n" "i < n"
      using k i by simp_all
    with k i have "np_div (np_sub (?y ! Suc k ! i)
                         (np_mul (?y ! Suc k ! Suc k) (?y ! Suc k ! (Suc k - i - 1))))
                      (np_sub (Fin 1) (np_square (?y ! Suc k ! Suc k)))
          = Fin ((levinson r (Suc k) i - levinson r (Suc k) (Suc k) * levinson r (Suc k) (k - i))
                 / (1 - (levinson r (Suc k) (Suc k))\<^sup>2))"
      using sq
      by (simp add: S_def np_sub_def np_square_def power2_eq_square levinson_diagonal [of r "Suc k"]
          del: levinson.simps)
    then show ?thesis
      using levinson_back [OF i r] by simp
  qed
  have rows: "length (?y ! j) = n" if "j < n" for j
    using that by (simp add: S_def)
  have old: "?y ! j ! i = (if Suc k \<le> j then Fin (levinson r j i) else Fin 0)"
    if "j < n" "i < n" for j i
    using that by (simp add: S_def)
  define R where "R = map (\<lambda>i. if i < Suc k
             then np_div (np_sub (?y ! Suc k ! i)
                            (np_mul (?y ! Suc k ! Suc k) (?y ! Suc k ! (Suc k - i - 1))))
                    (np_sub (Fin 1) (np_square (?y ! Suc k ! Suc k)))
             else ?y ! k ! i) [0..<n]"
  have R: "length R = n" "\<And>i. i < n \<Longrightarrow> R ! i = (if i \<le> k then Fin (levinson r k i) else Fin 0)"
  proof -
    show "length R = n"
      by (simp add: R_def)
    fix i
    assume i: "i < n"
    show "R ! i = (if i \<le> k then Fin (levinson r k i) else Fin 0)"
    proof (cases "i \<le> k")
      case True
      then show ?thesis
        using i entry [OF True] by (simp add: R_def del: levinson.simps)
    next
      case False
      then show ?thesis
        using i k old [of k i] by (simp add: R_def del: levinson.simps)
    qed
  qed
  have "unconstrain_inner (Suc k) ?y = ?y[k := R]"
    unfolding unconstrain_inner_def R_def
    using unconstrain_inner_upto [of "Suc k" ?y "Suc k", unfolded diff_Suc_1 len(2)] k len
    by (simp only: diff_Suc_1 len le_refl Suc_leI zero_less_Suc Suc_lessD)
  also have "\<dots> = S k"
    unfolding Sk
  proof (rule table_eqI)
    show "length (?y[k := R]) = n"
      by (simp add: len)
  next
    fix j
    assume "j < n"
    then show "length (?y[k := R] ! j) = n"
      using rows [of j] R(1) len(1) by (cases "j = k") simp_all
  next
    fix j i
    assume j: "j < n" and i: "i < n"
    show "?y[k := R] ! j ! i = (if k \<le> j then Fin (levinson r j i) else Fin 0)"
    proof (cases "j = k")
      case True
      then show ?thesis
        using j i len(1) R(2) [OF i] levinson_zero [of k i r]
        by (simp del: levinson.simps)
    next
      case False
      then show ?thesis
        using j i len(1) old [OF j i] by (auto simp del: levinson.simps)
    qed
  qed
  finally show ?thesis .
qed

lemma unconstrain_loop_levinson:
  assumes "j < n" and "\<And>k. k < n \<Longrightarrow> \<bar>r ! k\<bar> < 1"
  shows "unconstrain_loop j
           (table n n (\<lambda>k i. if j \<le> k then Fin (levinson r k i) else Fin 0))
         = table n n (\<lambda>k i. Fin (levinson r k i))"
  using assms(1)
proof (induction j)
  case 0
  then show ?case by simp
next
  case (Suc j)
  have "unconstrain_inner (Suc j)
          (table n n (\<lambda>k i. if Suc j \<le> k then Fin (levinson r k i) else Fin 0))
        = table n n (\<lambda>k i. if j \<le> k then Fin (levinson r k i) else Fin 0)"
    using Suc.prems assms(2) [of "Suc j"] by (intro unconstrain_pass) simp_all
  then show ?case
    using Suc by (simp del: levinson.simps)
qed

lemma unsquash_squash: "unsquash (Fin (squash u)) = Fin u"
proof -
  have pos: "0 < 1 + u\<^sup>2"
    by (simp add: add_pos_nonneg)
  then have root: "0 < sqrt (1 + u\<^sup>2)"
    by simp
  have "(squash u)\<^sup>2 = u\<^sup>2 / (1 + u\<^sup>2)"
    using pos by (simp add: squash_def power_divide)
  then have "1 - (squash u)\<^sup>2 = 1 / (1 + u\<^sup>2)"
    using pos by (simp add: field_simps)
  then have rest: "sqrt (1 - (squash u)\<^sup>2) = 1 / sqrt (1 + u\<^sup>2)"
    by (simp add: real_sqrt_divide)
  have "squash u / (1 / sqrt (1 + u\<^sup>2)) = u"
    using root by (simp add: squash_def)
  moreover have "1 / sqrt (1 + u\<^sup>2) \<noteq> 0" "\<not> 1 - (squash u)\<^sup>2 < 0"
    using root \<open>1 - (squash u)\<^sup>2 = 1 / (1 + u\<^sup>2)\<close> pos by simp_all
  ultimately show ?thesis
    using rest
    by (simp add: unsquash_def np_sub_def np_square_def power2_eq_square del: One_nat_def)
qed

lemma unconstrain_y_levinson:
  assumes "u \<noteq> []"
  shows "unconstrain_y (map (\<lambda>i. - levinson (map squash u) (length u - 1) i) [0..<length u])
         = table (length u) (length u) (\<lambda>k i. Fin (levinson (map squash u) k i))"
proof -
  let ?n = "length u"
  let ?r = "map squash u"
  from assms have n: "0 < ?n"
    by simp
  have start: "(replicate ?n (replicate ?n (Fin 0)))
                 [?n - 1 := map (\<lambda>c. Fin (- c)) (map (\<lambda>i. - levinson ?r (?n - 1) i) [0..<?n])]
               = table ?n ?n (\<lambda>k i. if ?n - 1 \<le> k then Fin (levinson ?r k i) else Fin 0)"
  proof (rule table_eqI)
    show "length ((replicate ?n (replicate ?n (Fin 0)))
                 [?n - 1 := map (\<lambda>c. Fin (- c)) (map (\<lambda>i. - levinson ?r (?n - 1) i) [0..<?n])])
          = ?n"
      by simp
  next
    fix k
    assume "k < ?n"
    then show "length ((replicate ?n (replicate ?n (Fin 0)))
                 [?n - 1 := map (\<lambda>c. Fin (- c)) (map (\<lambda>i. - levinson ?r (?n - 1) i) [0..<?n])]
               ! k) = ?n"
      by (cases "k = ?n - 1") simp_all
  next
    fix k i
    assume k: "k < ?n" and i: "i < ?n"
    show "(replicate ?n (replicate ?n (Fin 0)))
                 [?n - 1 := map (\<lambda>c. Fin (- c)) (map (\<lambda>i. - levinson ?r (?n - 1) i) [0..<?n])]
            ! k ! i
          = (if ?n - 1 \<le> k then Fin (levinson ?r k i) else Fin 0)"
    proof (cases "k = ?n - 1")
      case True
      then show ?thesis
        using k i by (simp del: levinson.simps)
    next
      case False
      with k have "\<not> ?n - 1 \<le> k"
        by simp
      with False show ?thesis
        using k i by (simp del: levinson.simps)
    qed
  qed
  have bound: "\<bar>?r ! k\<bar> < 1" if "k < ?n" for k
    using that by (simp add: squash_bound)
  have "unconstrain_y (map (\<lambda>i. - levinson ?r (?n - 1) i) [0..<?n])
        = unconstrain_loop (?n - 1)
            (table ?n ?n (\<lambda>k i. if ?n - 1 \<le> k then Fin (levinson ?r k i) else Fin 0))"
    using n start by (simp add: unconstrain_y_def Let_def del: levinson.simps)
  also have "\<dots> = table ?n ?n (\<lambda>k i. Fin (levinson ?r k i))"
    using n bound by (intro unconstrain_loop_levinson) simp_all
  finally show ?thesis .
qed

text \<open>
  In exact arithmetic \<^verbatim>\<open>unconstrain_stationary_univariate\<close> gives back the argument
  of \<^verbatim>\<open>constrain_stationary_univariate\<close>, and every entry of it is finite.
\<close>

lemma unconstrain_constrain_univariate:
  assumes "constrain_stationary_univariate u = Inr c"
  shows "unconstrain_stationary_univariate c = map Fin u"
proof -
  let ?n = "length u"
  let ?r = "map squash u"
  from assms have u: "u \<noteq> []"
    by (auto simp: constrain_stationary_univariate_def Let_def split: if_splits)
  with assms have c: "c = map (\<lambda>i. - levinson ?r (?n - 1) i) [0..<?n]"
    by (simp add: constrain_stationary_univariate_eq)
  have y: "unconstrain_y c = table ?n ?n (\<lambda>k i. Fin (levinson ?r k i))"
    unfolding c by (rule unconstrain_y_levinson [OF u])
  have "diagonal (unconstrain_y c) = map (\<lambda>k. Fin (squash (u ! k))) [0..<?n]"
    unfolding y diagonal_def
    by (simp add: levinson_diagonal del: levinson.simps)
  then have "unconstrain_stationary_univariate c = map (\<lambda>k. Fin (u ! k)) [0..<?n]"
    by (simp add: unconstrain_stationary_univariate_def unsquash_squash comp_def)
  also have "\<dots> = map Fin u"
    by (intro nth_equalityI) simp_all
  finally show ?thesis .
qed

section \<open>Backward substitution\<close>

lemma length_backward_subst [simp]: "length (backward_subst L b n j) = j"
  by (induction j) (simp_all add: Let_def)

lemma backward_subst_drop:
  "j \<le> m \<Longrightarrow> drop (m - j) (backward_subst L b n m) = backward_subst L b n j"
proof (induction m)
  case 0
  then show ?case by simp
next
  case (Suc m)
  show ?case
  proof (cases "j = Suc m")
    case True
    then show ?thesis by simp
  next
    case False
    with Suc.prems have jm: "j \<le> m" by simp
    then have "Suc m - j = Suc (m - j)"
      by simp
    then show ?thesis
      using Suc.IH [OF jm] by (simp add: Let_def)
  qed
qed

lemma backward_subst_nth:
  assumes "i < n"
  shows "backward_subst L b n n ! i
         = (b ! i - (\<Sum>k<n - Suc i. L ! (i + 1 + k) ! i * backward_subst L b n n ! (i + 1 + k)))
           / L ! i ! i"
proof -
  let ?X = "backward_subst L b n n"
  define j where "j = n - Suc i"
  have n: "n - i = Suc j" "n - Suc j = i" "n - j = Suc i"
    using assms by (simp_all add: j_def)
  have tail: "backward_subst L b n j ! k = ?X ! (i + 1 + k)" if "k < j" for k
  proof -
    have "backward_subst L b n j = drop (n - j) ?X"
      by (rule backward_subst_drop [symmetric]) (simp add: j_def)
    then show ?thesis
      using that assms by (simp add: n(3))
  qed
  have "?X ! i = drop i ?X ! 0"
    using assms by simp
  also have "drop i ?X = backward_subst L b n (Suc j)"
  proof -
    have "Suc j \<le> n"
      using n(1) by simp
    then have "drop (n - Suc j) ?X = backward_subst L b n (Suc j)"
      by (rule backward_subst_drop)
    then show ?thesis
      by (simp only: n(2))
  qed
  also have "\<dots> ! 0 = (b ! i - (\<Sum>k<j. L ! (i + 1 + k) ! i * backward_subst L b n j ! k)) / L ! i ! i"
    by (simp add: Let_def n(2))
  also have "(\<Sum>k<j. L ! (i + 1 + k) ! i * backward_subst L b n j ! k)
             = (\<Sum>k<j. L ! (i + 1 + k) ! i * ?X ! (i + 1 + k))"
    by (intro sum.cong refl) (simp add: tail)
  finally show ?thesis
    by (simp add: j_def)
qed

text \<open>The vector that \<open>backward_subst\<close> builds solves the upper triangular system.\<close>

lemma backward_subst_solves:
  assumes i: "i < n" and diag: "L ! i ! i \<noteq> 0" and upper: "\<And>l. l < i \<Longrightarrow> L ! l ! i = 0"
  shows "(\<Sum>l<n. L ! l ! i * backward_subst L b n n ! l) = b ! i"
proof -
  let ?X = "backward_subst L b n n"
  have "(\<Sum>l<n. L ! l ! i * ?X ! l)
        = (\<Sum>l=0..<i. L ! l ! i * ?X ! l) + (\<Sum>l=i..<n. L ! l ! i * ?X ! l)"
    using i by (simp add: lessThan_atLeast0 sum.atLeastLessThan_concat)
  also have "(\<Sum>l=i..<n. L ! l ! i * ?X ! l)
             = L ! i ! i * ?X ! i + (\<Sum>l=Suc i..<n. L ! l ! i * ?X ! l)"
    using i by (rule sum.atLeast_Suc_lessThan)
  finally have "(\<Sum>l<n. L ! l ! i * ?X ! l)
        = (\<Sum>l<i. L ! l ! i * ?X ! l) + (L ! i ! i * ?X ! i + (\<Sum>l=Suc i..<n. L ! l ! i * ?X ! l))"
    by (simp add: lessThan_atLeast0)
  also have "(\<Sum>l<i. L ! l ! i * ?X ! l) = 0"
    by (rule sum.neutral) (simp add: upper)
  also have "(\<Sum>l=Suc i..<n. L ! l ! i * ?X ! l)
             = (\<Sum>k<n - Suc i. L ! (i + 1 + k) ! i * ?X ! (i + 1 + k))"
    by (rule sum.reindex_bij_witness [of _ "\<lambda>k. i + 1 + k" "\<lambda>l. l - Suc i"]) auto
  also have "L ! i ! i * ?X ! i
             = b ! i - (\<Sum>k<n - Suc i. L ! (i + 1 + k) ! i * ?X ! (i + 1 + k))"
    using diag by (subst backward_subst_nth [OF i]) simp
  finally show ?thesis
    by simp
qed

lemma solve_triangular_T_factor:
  assumes L: "cholesky_rows M k = Inr L" and A: "is_shape k k A" and k: "0 < k"
  defines "B \<equiv> mat k k (low L)"
  obtains X where "solve_triangular_T B A = Inr X" and "is_shape k k X"
    and "\<And>i j. i < k \<Longrightarrow> j < k \<Longrightarrow> (\<Sum>l<k. low L l i * X ! l ! j) = A ! i ! j"
proof -
  let ?X = "mat k k (\<lambda>i j. backward_subst B (column A j) k k ! i)"
  have diag: "B ! j ! j \<noteq> 0" if "j < k" for j
    using that cholesky_rows_factor(3) [OF L that] by (simp add: B_def low_def)
  have "\<not> list_ex (\<lambda>j. B ! j ! j = 0) [0..<k]"
    using diag by (simp add: list_ex_iff)
  then have solve: "solve_triangular_T B A = Inr ?X"
    using A k by (simp add: solve_triangular_T_def B_def is_shape_ncols)
  have eq: "(\<Sum>l<k. low L l i * ?X ! l ! j) = A ! i ! j" if i: "i < k" and j: "j < k" for i j
  proof -
    let ?x = "backward_subst B (column A j) k k"
    have "(\<Sum>l<k. low L l i * ?X ! l ! j) = (\<Sum>l<k. B ! l ! i * ?x ! l)"
      using i j by (intro sum.cong refl) (simp add: B_def)
    also have "\<dots> = column A j ! i"
    proof (rule backward_subst_solves [OF i diag [OF i]])
      fix l
      assume "l < i"
      with i show "B ! l ! i = 0"
        by (simp add: B_def low_def)
    qed
    also have "\<dots> = A ! i ! j"
      using A i by (simp add: column_def is_shape_def)
    finally show ?thesis .
  qed
  show ?thesis
    by (rule that [OF solve _ eq]) simp_all
qed

section \<open>Row vectors, inner products and Hermitian forms\<close>

lemma vec_mat_cong: "(\<And>i. i < k \<Longrightarrow> u i = v i) \<Longrightarrow> vec_mat k u M j = vec_mat k v M j"
  by (simp add: vec_mat_def)

lemma vec_mat_diff: "vec_mat k (\<lambda>i. u i - v i) M j = vec_mat k u M j - vec_mat k v M j"
  by (simp add: vec_mat_def left_diff_distrib sum_subtractf)

lemma vec_mat_scale: "vec_mat k (\<lambda>i. c * u i) M j = c * vec_mat k u M j"
  by (simp add: vec_mat_def sum_distrib_left mult.assoc)

lemma vec_mat_sum: "vec_mat k (\<lambda>i. \<Sum>t<s. f t i) M j = (\<Sum>t<s. vec_mat k (f t) M j)"
  unfolding vec_mat_def by (simp add: sum_distrib_right) (rule sum.swap)

lemma vec_mat_zero: "(\<And>i. i < k \<Longrightarrow> u i = 0) \<Longrightarrow> vec_mat k u M j = 0"
  by (simp add: vec_mat_def)

lemma vec_mat_dot:
  assumes A: "is_shape k k A" and B: "is_shape k k B" and k: "0 < k" and j: "j < k"
  shows "vec_mat k w (dot A B) j = vec_mat k (vec_mat k w A) B j"
proof -
  have "vec_mat k w (dot A B) j = (\<Sum>i<k. w i * complex_of_real (\<Sum>l<k. A ! i ! l * B ! l ! j))"
    unfolding vec_mat_def
    by (intro sum.cong refl) (simp add: dot_entry [OF A B k _ j])
  also have "\<dots> = (\<Sum>i<k. \<Sum>l<k. w i * complex_of_real (A ! i ! l) * complex_of_real (B ! l ! j))"
    by (simp add: sum_distrib_left mult.assoc)
  also have "\<dots> = (\<Sum>l<k. \<Sum>i<k. w i * complex_of_real (A ! i ! l) * complex_of_real (B ! l ! j))"
    by (rule sum.swap)
  also have "\<dots> = vec_mat k (vec_mat k w A) B j"
    by (simp add: vec_mat_def sum_distrib_right)
  finally show ?thesis .
qed

lemma vec_mat_sub:
  assumes "is_shape k k A" and "j < k"
  shows "vec_mat k w (sub A B) j = vec_mat k w A j - vec_mat k w B j"
proof -
  have "vec_mat k w (sub A B) j
        = (\<Sum>i<k. w i * complex_of_real (A ! i ! j) - w i * complex_of_real (B ! i ! j))"
    unfolding vec_mat_def
    using assms by (intro sum.cong refl) (simp add: sub_entry [of k] right_diff_distrib)
  then show ?thesis
    by (simp add: vec_mat_def sum_subtractf)
qed

lemma vec_mat_eye:
  assumes "j < k"
  shows "vec_mat k w (eye k) j = w j"
proof -
  have "vec_mat k w (eye k) j = (\<Sum>i<k. if i = j then w i else 0)"
    unfolding vec_mat_def
    using assms by (intro sum.cong refl) (simp add: eye_entry)
  then show ?thesis
    using assms by simp
qed

lemma cinner_norm2: "cinner k v v = complex_of_real (norm2 k v)"
  by (simp add: cinner_def norm2_def complex_norm_square [symmetric] del: of_real_power)

lemma norm2_nonneg: "0 \<le> norm2 k v"
  unfolding norm2_def by (rule sum_nonneg) simp

lemma norm2_zero: "norm2 k v \<le> 0 \<Longrightarrow> j < k \<Longrightarrow> v j = 0"
proof -
  assume le: "norm2 k v \<le> 0" and j: "j < k"
  with norm2_nonneg [of k v] have "(\<Sum>j<k. (cmod (v j))\<^sup>2) = 0"
    by (simp add: norm2_def)
  then have "\<forall>j\<in>{..<k}. (cmod (v j))\<^sup>2 = 0"
    by (subst (asm) sum_nonneg_eq_0_iff) simp_all
  with j show ?thesis by simp
qed

lemma norm2_cong: "(\<And>j. j < k \<Longrightarrow> u j = v j) \<Longrightarrow> norm2 k u = norm2 k v"
  by (simp add: norm2_def)

lemma norm2_scale: "norm2 k (\<lambda>j. z * v j) = (cmod z)\<^sup>2 * norm2 k v"
  by (simp add: norm2_def norm_mult power_mult_distrib sum_distrib_left)

lemma cinner_diff:
  "cinner k (\<lambda>j. a j - b j) (\<lambda>j. a j - b j)
   = cinner k a a - cinner k a b - cinner k b a + cinner k b b"
  by (simp add: cinner_def algebra_simps sum.distrib sum_subtractf)

text \<open>A form whose matrix is a product \<open>F G\<^sup>T\<close> is an inner product.\<close>

lemma hermitian_form_product:
  fixes F G :: "nat \<Rightarrow> nat \<Rightarrow> real"
  assumes "\<And>i l. i < k \<Longrightarrow> l < k \<Longrightarrow> A ! i ! l = (\<Sum>j<k. F i j * G l j)"
  shows "hermitian_form k A w
         = (\<Sum>j<k. (\<Sum>i<k. w i * complex_of_real (F i j)) * cnj (\<Sum>l<k. w l * complex_of_real (G l j)))"
proof -
  have "hermitian_form k A w
        = (\<Sum>i<k. \<Sum>l<k. w i * cnj (w l) * complex_of_real (\<Sum>j<k. F i j * G l j))"
    unfolding hermitian_form_def
    by (intro sum.cong refl) (simp add: assms)
  also have "\<dots> = (\<Sum>i<k. \<Sum>l<k. \<Sum>j<k.
                      (w i * complex_of_real (F i j)) * (cnj (w l) * complex_of_real (G l j)))"
    by (simp add: sum_distrib_left mult_ac)
  also have "\<dots> = (\<Sum>i<k. \<Sum>j<k. \<Sum>l<k.
                      (w i * complex_of_real (F i j)) * (cnj (w l) * complex_of_real (G l j)))"
    by (intro sum.cong refl sum.swap)
  also have "\<dots> = (\<Sum>j<k. \<Sum>i<k. \<Sum>l<k.
                      (w i * complex_of_real (F i j)) * (cnj (w l) * complex_of_real (G l j)))"
    by (rule sum.swap)
  also have "\<dots> = (\<Sum>j<k. (\<Sum>i<k. w i * complex_of_real (F i j))
                          * (\<Sum>l<k. cnj (w l) * complex_of_real (G l j)))"
    by (simp add: sum_product)
  finally show ?thesis
    by simp
qed

lemma hermitian_form_gram:
  assumes A: "is_shape k k A" and B: "is_shape k k B" and k: "0 < k"
  shows "hermitian_form k (dot A (transpose_m B)) w = cinner k (vec_mat k w A) (vec_mat k w B)"
proof -
  have "dot A (transpose_m B) ! i ! l = (\<Sum>j<k. A ! i ! j * B ! l ! j)" if "i < k" "l < k" for i l
  proof -
    have "dot A (transpose_m B) ! i ! l = (\<Sum>j<k. A ! i ! j * transpose_m B ! j ! l)"
      by (rule dot_entry [OF A is_shape_transpose [OF B] k that])
    also have "\<dots> = (\<Sum>j<k. A ! i ! j * B ! l ! j)"
      using that B by (intro sum.cong refl) (simp add: transpose_entry [of k])
    finally show ?thesis .
  qed
  then show ?thesis
    unfolding cinner_def vec_mat_def by (rule hermitian_form_product)
qed

lemma hermitian_form_sub:
  assumes "is_shape k k A"
  shows "hermitian_form k (sub A B) w = hermitian_form k A w - hermitian_form k B w"
proof -
  have "hermitian_form k (sub A B) w
        = (\<Sum>i<k. \<Sum>l<k. w i * cnj (w l) * complex_of_real (A ! i ! l)
                          - w i * cnj (w l) * complex_of_real (B ! i ! l))"
    unfolding hermitian_form_def
    using assms by (intro sum.cong refl) (simp add: sub_entry [of k] right_diff_distrib)
  then show ?thesis
    by (simp add: hermitian_form_def sum_subtractf)
qed

lemma hermitian_form_factor:
  assumes L: "cholesky_rows A k = Inr L" and A: "symmetric k A"
  shows "hermitian_form k A w = complex_of_real (norm2 k (vec_mat k w (mat k k (low L))))"
proof -
  have "hermitian_form k A w
        = (\<Sum>j<k. (\<Sum>i<k. w i * complex_of_real (low L i j))
                 * cnj (\<Sum>l<k. w l * complex_of_real (low L l j)))"
    by (rule hermitian_form_product) (simp add: low_gram_symmetric [OF L A])
  also have "\<dots> = cinner k (vec_mat k w (mat k k (low L))) (vec_mat k w (mat k k (low L)))"
    by (simp add: cinner_def vec_mat_def)
  finally show ?thesis
    by (simp add: cinner_norm2)
qed

lemma cinner_hermitian_form: "cinner k (vec_mat k u A) u = hermitian_form k A u"
proof -
  have "cinner k (vec_mat k u A) u = (\<Sum>j<k. \<Sum>i<k. u i * complex_of_real (A ! i ! j) * cnj (u j))"
    by (simp add: cinner_def vec_mat_def sum_distrib_right)
  also have "\<dots> = (\<Sum>j<k. \<Sum>i<k. u i * cnj (u j) * complex_of_real (A ! i ! j))"
    by (intro sum.cong refl) (simp add: mult_ac)
  also have "\<dots> = hermitian_form k A u"
    unfolding hermitian_form_def by (rule sum.swap)
  finally show ?thesis .
qed

text \<open>The adjoint of a real matrix is its transpose.\<close>

lemma cinner_transpose:
  assumes P: "is_shape k k P"
  shows "cinner k a (vec_mat k b (transpose_m P)) = cinner k (vec_mat k a P) b"
proof -
  have "cinner k a (vec_mat k b (transpose_m P))
        = (\<Sum>j<k. \<Sum>i<k. a j * (cnj (b i) * complex_of_real (P ! j ! i)))"
    unfolding cinner_def vec_mat_def
    using P by (intro sum.cong refl) (simp add: sum_distrib_left transpose_entry [of k])
  also have "\<dots> = (\<Sum>i<k. \<Sum>j<k. a j * (cnj (b i) * complex_of_real (P ! j ! i)))"
    by (rule sum.swap)
  also have "\<dots> = (\<Sum>i<k. \<Sum>j<k. a j * complex_of_real (P ! j ! i) * cnj (b i))"
    by (intro sum.cong refl) (simp add: mult_ac)
  also have "\<dots> = cinner k (vec_mat k a P) b"
    by (simp add: cinner_def vec_mat_def sum_distrib_right)
  finally show ?thesis .
qed

lemma cinner_transpose':
  assumes P: "is_shape k k P"
  shows "cinner k (vec_mat k b (transpose_m P)) a = cinner k b (vec_mat k a P)"
proof -
  have "cinner k (vec_mat k b (transpose_m P)) a
        = (\<Sum>j<k. \<Sum>i<k. b i * complex_of_real (P ! j ! i) * cnj (a j))"
    unfolding cinner_def vec_mat_def
    using P by (intro sum.cong refl) (simp add: sum_distrib_right transpose_entry [of k])
  also have "\<dots> = (\<Sum>i<k. \<Sum>j<k. b i * complex_of_real (P ! j ! i) * cnj (a j))"
    by (rule sum.swap)
  also have "\<dots> = (\<Sum>i<k. \<Sum>j<k. b i * (cnj (a j) * complex_of_real (P ! j ! i)))"
    by (intro sum.cong refl) (simp add: mult_ac)
  also have "\<dots> = cinner k b (vec_mat k a P)"
    by (simp add: cinner_def vec_mat_def sum_distrib_left)
  finally show ?thesis .
qed

text \<open>
  The step of the recursion does not increase \<open>\<parallel>a\<parallel>\<^sup>2 - \<parallel>b\<parallel>\<^sup>2\<close>: for a real matrix \<open>P\<close>,
  \<open>\<parallel>a - b P\<^sup>T\<parallel>\<^sup>2 - \<parallel>b - a P\<parallel>\<^sup>2 = (\<parallel>a\<parallel>\<^sup>2 - \<parallel>a P\<parallel>\<^sup>2) - (\<parallel>b\<parallel>\<^sup>2 - \<parallel>b P\<^sup>T\<parallel>\<^sup>2)\<close>.
\<close>

lemma reflection_identity:
  assumes P: "is_shape k k P"
  shows "norm2 k (\<lambda>j. a j - vec_mat k b (transpose_m P) j) - norm2 k (\<lambda>j. b j - vec_mat k a P j)
         = (norm2 k a - norm2 k (vec_mat k a P)) - (norm2 k b - norm2 k (vec_mat k b (transpose_m P)))"
proof -
  let ?bP = "vec_mat k b (transpose_m P)" and ?aP = "vec_mat k a P"
  have "complex_of_real (norm2 k (\<lambda>j. a j - ?bP j) - norm2 k (\<lambda>j. b j - ?aP j))
        = cinner k (\<lambda>j. a j - ?bP j) (\<lambda>j. a j - ?bP j) - cinner k (\<lambda>j. b j - ?aP j) (\<lambda>j. b j - ?aP j)"
    by (simp add: cinner_norm2)
  also have "\<dots> = (cinner k a a - cinner k ?aP ?aP) - (cinner k b b - cinner k ?bP ?bP)"
    by (simp add: cinner_diff cinner_transpose [OF P] cinner_transpose' [OF P])
  also have "\<dots> = complex_of_real ((norm2 k a - norm2 k ?aP) - (norm2 k b - norm2 k ?bP))"
    by (simp add: cinner_norm2)
  finally show ?thesis
    by (simp only: of_real_eq_iff)
qed

lemma reflection_contracts:
  assumes P: "is_shape k k P" and z: "cmod z \<le> 1"
    and le: "norm2 k (\<lambda>j. a j - vec_mat k b (transpose_m P) j)
             \<le> norm2 k (\<lambda>j. z * (b j - vec_mat k a P j))"
  shows "norm2 k a - norm2 k (vec_mat k a P) \<le> norm2 k b - norm2 k (vec_mat k b (transpose_m P))"
proof -
  have "(cmod z)\<^sup>2 \<le> 1"
    using z by (simp add: power_le_one)
  then have "(cmod z)\<^sup>2 * norm2 k (\<lambda>j. b j - vec_mat k a P j) \<le> norm2 k (\<lambda>j. b j - vec_mat k a P j)"
    using norm2_nonneg [of k "\<lambda>j. b j - vec_mat k a P j"] by (simp add: mult_left_le_one_le)
  with le have "norm2 k (\<lambda>j. a j - vec_mat k b (transpose_m P) j)
                \<le> norm2 k (\<lambda>j. b j - vec_mat k a P j)"
    by (simp add: norm2_scale)
  with reflection_identity [OF P, of a b] show ?thesis
    by simp
qed

section \<open>One pass of the recursion from partial autocorrelations to coefficients\<close>

lemma pacf_inner_upto:
  fixes pF pB :: matrix
  assumes F: "is_shape k (order * k) (forwards st0)" and B: "is_shape k (order * k) (backwards st0)"
    and pF: "is_shape k (order * k) pF" and pB: "is_shape k (order * k) pB"
    and k: "0 < k" and s: "s < order" and m: "m \<le> s"
  defines "st \<equiv> fold (pacf_inner k s pF pB) [0..<m] st0"
  shows "is_shape k (order * k) (forwards st) \<and> is_shape k (order * k) (backwards st) \<and>
         (\<forall>t<order. block (forwards st) t k
            = (if t < m then sub (block pF t k)
                                 (dot (block (forwards st0) s k) (block pB (s - t - 1) k))
               else block (forwards st0) t k)) \<and>
         (\<forall>t<order. block (backwards st) t k
            = (if t < m then sub (block pB t k)
                                 (dot (block (backwards st0) s k) (block pF (s - t - 1) k))
               else block (backwards st0) t k)) \<and>
         forward_variance st = forward_variance st0 \<and>
         backward_variance st = backward_variance st0 \<and>
         forward_factors st = forward_factors st0 \<and>
         backward_factors st = backward_factors st0"
  using m unfolding st_def
proof (induction m)
  case 0
  then show ?case using F B by simp
next
  case (Suc m)
  let ?st = "fold (pacf_inner k s pF pB) [0..<m] st0"
  let ?X = "sub (block pF m k) (dot (block (forwards ?st) s k) (block pB (s - m - 1) k))"
  let ?Y = "sub (block pB m k) (dot (block (backwards ?st) s k) (block pF (s - m - 1) k))"
  from Suc have Fm: "is_shape k (order * k) (forwards ?st)"
    and Bm: "is_shape k (order * k) (backwards ?st)"
    and fblocks: "\<And>t. t < order \<Longrightarrow> block (forwards ?st) t k
            = (if t < m then sub (block pF t k)
                                 (dot (block (forwards st0) s k) (block pB (s - t - 1) k))
               else block (forwards st0) t k)"
    and bblocks: "\<And>t. t < order \<Longrightarrow> block (backwards ?st) t k
            = (if t < m then sub (block pB t k)
                                 (dot (block (backwards st0) s k) (block pF (s - t - 1) k))
               else block (backwards st0) t k)"
    and rest: "forward_variance ?st = forward_variance st0"
      "backward_variance ?st = backward_variance st0"
      "forward_factors ?st = forward_factors st0"
      "backward_factors ?st = backward_factors st0"
    and m: "m < s"
    by simp_all
  from m s have mo: "m < order"
    by simp
  have last: "block (forwards ?st) s k = block (forwards st0) s k"
    "block (backwards ?st) s k = block (backwards st0) s k"
    using fblocks [OF s] bblocks [OF s] m by simp_all
  have step: "fold (pacf_inner k s pF pB) [0..<Suc m] st0 = pacf_inner k s pF pB m ?st"
    by simp
  have fw: "forwards (pacf_inner k s pF pB m ?st) = set_cols (forwards ?st) m k ?X"
    and bw: "backwards (pacf_inner k s pF pB m ?st) = set_cols (backwards ?st) m k ?Y"
    and other: "forward_variance (pacf_inner k s pF pB m ?st) = forward_variance ?st"
      "backward_variance (pacf_inner k s pF pB m ?st) = backward_variance ?st"
      "forward_factors (pacf_inner k s pF pB m ?st) = forward_factors ?st"
      "backward_factors (pacf_inner k s pF pB m ?st) = backward_factors ?st"
    by (simp_all add: pacf_inner_def)
  have X: "is_shape k k (sub (block pF m k) (dot (block (forwards st0) s k) (block pB (s - m - 1) k)))"
    by (rule is_shape_sub [OF is_shape_block [OF pF mo]])
  have Y: "is_shape k k (sub (block pB m k) (dot (block (backwards st0) s k) (block pF (s - m - 1) k)))"
    by (rule is_shape_sub [OF is_shape_block [OF pB mo]])
  show ?case
    unfolding step fw bw other rest last
  proof (intro conjI allI impI refl)
    show "is_shape k (order * k)
            (set_cols (forwards ?st) m k
               (sub (block pF m k) (dot (block (forwards st0) s k) (block pB (s - m - 1) k))))"
      by (rule is_shape_set_cols [OF Fm])
    show "is_shape k (order * k)
            (set_cols (backwards ?st) m k
               (sub (block pB m k) (dot (block (backwards st0) s k) (block pF (s - m - 1) k))))"
      by (rule is_shape_set_cols [OF Bm])
  next
    fix t
    assume t: "t < order"
    show "block (set_cols (forwards ?st) m k
               (sub (block pF m k) (dot (block (forwards st0) s k) (block pB (s - m - 1) k)))) t k
          = (if t < Suc m then sub (block pF t k)
                                 (dot (block (forwards st0) s k) (block pB (s - t - 1) k))
             else block (forwards st0) t k)"
      using block_set_cols [OF Fm X mo t] fblocks [OF t]
      by (auto simp: less_Suc_eq)
  next
    fix t
    assume t: "t < order"
    show "block (set_cols (backwards ?st) m k
               (sub (block pB m k) (dot (block (backwards st0) s k) (block pF (s - m - 1) k)))) t k
          = (if t < Suc m then sub (block pB t k)
                                 (dot (block (backwards st0) s k) (block pF (s - t - 1) k))
             else block (backwards st0) t k)"
      using block_set_cols [OF Bm Y mo t] bblocks [OF t]
      by (auto simp: less_Suc_eq)
  qed
qed


lemma transpose_solution:
  assumes X: "is_shape k k X" and A: "is_shape k k A" and k: "0 < k"
    and eq: "\<And>i j. i < k \<Longrightarrow> j < k \<Longrightarrow> (\<Sum>l<k. F l i * X ! l ! j) = transpose_m A ! i ! j"
  shows "dot (transpose_m X) (mat k k F) = A"
proof (rule mat_eqI [of k k])
  show "is_shape k k (dot (transpose_m X) (mat k k F))"
    by (rule is_shape_dot [OF is_shape_transpose [OF X] is_shape_mat k])
  show "is_shape k k A"
    by (rule A)
next
  fix i j
  assume i: "i < k" and j: "j < k"
  have "dot (transpose_m X) (mat k k F) ! i ! j
        = (\<Sum>l<k. transpose_m X ! i ! l * mat k k F ! l ! j)"
    by (rule dot_entry [OF is_shape_transpose [OF X] is_shape_mat k i j])
  also have "\<dots> = (\<Sum>l<k. F l j * X ! l ! i)"
    using i j X by (intro sum.cong refl) (simp add: transpose_entry [of k])
  also have "\<dots> = transpose_m A ! j ! i"
    by (rule eq [OF j i])
  also have "\<dots> = A ! i ! j"
    using A i j by (simp add: transpose_entry [of k])
  finally show "dot (transpose_m X) (mat k k F) ! i ! j = A ! i ! j" .
qed

lemma transpose_transpose:
  assumes "is_shape k k A"
  shows "transpose_m (transpose_m A) = A"
proof (rule mat_eqI [of k k])
  show "is_shape k k (transpose_m (transpose_m A))"
    by (intro is_shape_transpose assms)
  show "is_shape k k A"
    by (rule assms)
next
  fix i j
  assume "i < k" and "j < k"
  then show "transpose_m (transpose_m A) ! i ! j = A ! i ! j"
    using assms by (simp add: transpose_entry [of k] is_shape_transpose)
qed

lemma pacf_step_Inr:
  assumes wf: "pacf_wf k order st" and P: "is_shape k (order * k) P"
    and k: "0 < k" and s: "s < order"
    and step: "pacf_step P k s st = Inr st'"
  obtains Fs Bs where "is_shape k k Fs" and "is_shape k k Bs"
    and "dot Fs (backward_factors st) = dot (forward_factors st) (block P s k)"
    and "dot Bs (forward_factors st) = dot (backward_factors st) (transpose_m (block P s k))"
    and "is_shape k (order * k) (forwards st')" and "is_shape k (order * k) (backwards st')"
    and "\<And>t. t < order \<Longrightarrow> block (forwards st') t k
           = (if t < s then sub (block (forwards st) t k) (dot Fs (block (backwards st) (s - t - 1) k))
              else if t = s then Fs else block (forwards st) t k)"
    and "\<And>t. t < order \<Longrightarrow> block (backwards st') t k
           = (if t < s then sub (block (backwards st) t k) (dot Bs (block (forwards st) (s - t - 1) k))
              else if t = s then Bs else block (backwards st) t k)"
    and "forward_variance st'
         = sub (forward_variance st) (dot (dot Fs (backward_variance st)) (transpose_m Fs))"
    and "backward_variance st'
         = sub (backward_variance st) (dot (dot Bs (forward_variance st)) (transpose_m Bs))"
    and "cholesky (forward_variance st') = Inr (forward_factors st')"
    and "cholesky (backward_variance st') = Inr (backward_factors st')"
proof -
  from wf obtain Lf Lb where Lf: "cholesky_rows (forward_variance st) k = Inr Lf"
    and ff: "forward_factors st = mat k k (low Lf)"
    and Lb: "cholesky_rows (backward_variance st) k = Inr Lb"
    and bf: "backward_factors st = mat k k (low Lb)"
    and F: "is_shape k (order * k) (forwards st)" and B: "is_shape k (order * k) (backwards st)"
    by (auto simp: pacf_wf_def)
  let ?Ps = "block P s k"
  have Ps: "is_shape k k ?Ps"
    by (rule is_shape_block [OF P s])
  have PsT: "is_shape k k (transpose_m ?Ps)"
    by (rule is_shape_transpose [OF Ps])
  obtain x where x: "solve_triangular_T (backward_factors st) (transpose_m ?Ps) = Inr x"
    and xs: "is_shape k k x"
    and xeq: "\<And>i j. i < k \<Longrightarrow> j < k \<Longrightarrow> (\<Sum>l<k. low Lb l i * x ! l ! j) = transpose_m ?Ps ! i ! j"
    unfolding bf by (rule solve_triangular_T_factor [OF Lb PsT k]) blast
  obtain y where y: "solve_triangular_T (forward_factors st) ?Ps = Inr y"
    and ys: "is_shape k k y"
    and yeq: "\<And>i j. i < k \<Longrightarrow> j < k \<Longrightarrow> (\<Sum>l<k. low Lf l i * y ! l ! j) = ?Ps ! i ! j"
    unfolding ff by (rule solve_triangular_T_factor [OF Lf Ps k]) blast
  define Fs where "Fs = dot (forward_factors st) (transpose_m x)"
  define Bs where "Bs = dot (backward_factors st) (transpose_m y)"
  define fw where "fw = set_cols (forwards st) s k Fs"
  define bw where "bw = set_cols (backwards st) s k Bs"
  define st0 where "st0 = st\<lparr>forwards := fw, backwards := bw,
      autocovariances := set_cols (autocovariances st) (s + 1) k
        (transpose_m (dot (block fw s k) (backward_variance st)))\<rparr>"
  define st1 where "st1 = fold (pacf_inner k s (forwards st) (backwards st)) [0..<s] st0"
  define fv where "fv = sub (forward_variance st)
      (dot (dot (block fw s k) (backward_variance st)) (transpose_m (block (forwards st1) s k)))"
  define bv where "bv = sub (backward_variance st)
      (dot (dot (block (backwards st1) s k) (forward_variance st))
           (transpose_m (block (backwards st1) s k)))"
  have Fshape: "is_shape k k Fs"
    unfolding Fs_def ff by (rule is_shape_dot [OF is_shape_mat is_shape_transpose [OF xs] k])
  have Bshape: "is_shape k k Bs"
    unfolding Bs_def bf by (rule is_shape_dot [OF is_shape_mat is_shape_transpose [OF ys] k])
  have fws: "is_shape k (order * k) fw"
    unfolding fw_def by (rule is_shape_set_cols [OF F])
  have bws: "is_shape k (order * k) bw"
    unfolding bw_def by (rule is_shape_set_cols [OF B])
  have fwb: "block fw t k = (if t = s then Fs else block (forwards st) t k)" if "t < order" for t
    unfolding fw_def by (rule block_set_cols [OF F Fshape s that])
  have bwb: "block bw t k = (if t = s then Bs else block (backwards st) t k)" if "t < order" for t
    unfolding bw_def by (rule block_set_cols [OF B Bshape s that])
  have inner: "is_shape k (order * k) (forwards st1) \<and> is_shape k (order * k) (backwards st1) \<and>
         (\<forall>t<order. block (forwards st1) t k
            = (if t < s then sub (block (forwards st) t k)
                                 (dot (block (forwards st0) s k) (block (backwards st) (s - t - 1) k))
               else block (forwards st0) t k)) \<and>
         (\<forall>t<order. block (backwards st1) t k
            = (if t < s then sub (block (backwards st) t k)
                                 (dot (block (backwards st0) s k) (block (forwards st) (s - t - 1) k))
               else block (backwards st0) t k)) \<and>
         forward_variance st1 = forward_variance st0 \<and>
         backward_variance st1 = backward_variance st0 \<and>
         forward_factors st1 = forward_factors st0 \<and>
         backward_factors st1 = backward_factors st0"
    unfolding st1_def
    by (rule pacf_inner_upto [OF _ _ F B k s order_refl]) (simp_all add: st0_def fws bws)
  have st0: "forwards st0 = fw" "backwards st0 = bw"
    by (simp_all add: st0_def)
  have f1: "block (forwards st1) t k
            = (if t < s then sub (block (forwards st) t k) (dot Fs (block (backwards st) (s - t - 1) k))
               else if t = s then Fs else block (forwards st) t k)" if "t < order" for t
    using inner that fwb [OF that] fwb [OF s] by (simp add: st0)
  have b1: "block (backwards st1) t k
            = (if t < s then sub (block (backwards st) t k) (dot Bs (block (forwards st) (s - t - 1) k))
               else if t = s then Bs else block (backwards st) t k)" if "t < order" for t
    using inner that bwb [OF that] bwb [OF s] by (simp add: st0)
  have fv: "fv = sub (forward_variance st) (dot (dot Fs (backward_variance st)) (transpose_m Fs))"
    using f1 [OF s] fwb [OF s] by (simp add: fv_def)
  have bv: "bv = sub (backward_variance st) (dot (dot Bs (forward_variance st)) (transpose_m Bs))"
    using b1 [OF s] by (simp add: bv_def)
  have "pacf_step P k s st
        = ebind (cholesky fv) (\<lambda>ff. ebind (cholesky bv) (\<lambda>bf.
            Inr (st1\<lparr>forward_variance := fv, backward_variance := bv,
                      forward_factors := ff, backward_factors := bf\<rparr>)))"
    by (simp add: pacf_step_def Let_def x y ebind_Inr fv_def bv_def st1_def st0_def fw_def bw_def
        Fs_def Bs_def)
  with step obtain ff' bf' where chol: "cholesky fv = Inr ff'" "cholesky bv = Inr bf'"
    and st': "st' = st1\<lparr>forward_variance := fv, backward_variance := bv,
                        forward_factors := ff', backward_factors := bf'\<rparr>"
    by (auto simp: ebind_def split: sum.splits)
  have FL: "dot Fs (backward_factors st) = dot (forward_factors st) ?Ps"
  proof -
    have "dot Fs (backward_factors st)
          = dot (forward_factors st) (dot (transpose_m x) (backward_factors st))"
      unfolding Fs_def ff bf
      by (rule dot_assoc [OF is_shape_mat is_shape_transpose [OF xs] is_shape_mat k])
    also have "dot (transpose_m x) (backward_factors st) = ?Ps"
      unfolding bf by (rule transpose_solution [OF xs Ps k xeq])
    finally show ?thesis .
  qed
  have BL: "dot Bs (forward_factors st) = dot (backward_factors st) (transpose_m ?Ps)"
  proof -
    have "dot Bs (forward_factors st)
          = dot (backward_factors st) (dot (transpose_m y) (forward_factors st))"
      unfolding Bs_def ff bf
      by (rule dot_assoc [OF is_shape_mat is_shape_transpose [OF ys] is_shape_mat k])
    also have "dot (transpose_m y) (forward_factors st) = transpose_m ?Ps"
      unfolding ff
      by (rule transpose_solution [OF ys PsT k]) (simp add: yeq transpose_transpose [OF Ps])
    finally show ?thesis .
  qed
  show ?thesis
  proof (rule that [OF Fshape Bshape FL BL])
    show "is_shape k (order * k) (forwards st')" "is_shape k (order * k) (backwards st')"
      using inner by (simp_all add: st')
    show "forward_variance st'
          = sub (forward_variance st) (dot (dot Fs (backward_variance st)) (transpose_m Fs))"
      by (simp add: st' fv)
    show "backward_variance st'
          = sub (backward_variance st) (dot (dot Bs (forward_variance st)) (transpose_m Bs))"
      by (simp add: st' bv)
    show "cholesky (forward_variance st') = Inr (forward_factors st')"
      by (simp add: st' chol)
    show "cholesky (backward_variance st') = Inr (backward_factors st')"
      by (simp add: st' chol)
  next
    fix t
    assume "t < order"
    then show "block (forwards st') t k
           = (if t < s then sub (block (forwards st) t k) (dot Fs (block (backwards st) (s - t - 1) k))
              else if t = s then Fs else block (forwards st) t k)"
      by (simp add: st' f1)
  next
    fix t
    assume "t < order"
    then show "block (backwards st') t k
           = (if t < s then sub (block (backwards st) t k) (dot Bs (block (forwards st) (s - t - 1) k))
              else if t = s then Bs else block (backwards st) t k)"
      by (simp add: st' b1)
  qed
qed


text \<open>The variance \<open>S - M R M\<^sup>T\<close> of the next pass and its Cholesky factor.\<close>

lemma conjugate_entry:
  assumes M: "is_shape k k M" and R: "is_shape k k R" and k: "0 < k" and i: "i < k" and j: "j < k"
  shows "dot (dot M R) (transpose_m M) ! i ! j = (\<Sum>b<k. \<Sum>a<k. M ! i ! a * R ! a ! b * M ! j ! b)"
proof -
  have "dot (dot M R) (transpose_m M) ! i ! j = (\<Sum>b<k. dot M R ! i ! b * transpose_m M ! b ! j)"
    by (rule dot_entry [OF is_shape_dot [OF M R k] is_shape_transpose [OF M] k i j])
  also have "\<dots> = (\<Sum>b<k. (\<Sum>a<k. M ! i ! a * R ! a ! b) * M ! j ! b)"
    using i j M by (intro sum.cong refl) (simp add: dot_entry [OF M R k] transpose_entry [of k])
  finally show ?thesis
    by (simp add: sum_distrib_right)
qed

lemma symmetric_conjugate:
  assumes M: "is_shape k k M" and R: "is_shape k k R" and k: "0 < k" and sym: "symmetric k R"
  shows "symmetric k (dot (dot M R) (transpose_m M))"
  unfolding symmetric_def
proof (intro allI impI)
  fix i j
  assume i: "i < k" and j: "j < k"
  have "dot (dot M R) (transpose_m M) ! i ! j = (\<Sum>b<k. \<Sum>a<k. M ! i ! a * R ! a ! b * M ! j ! b)"
    by (rule conjugate_entry [OF M R k i j])
  also have "\<dots> = (\<Sum>a<k. \<Sum>b<k. M ! i ! a * R ! a ! b * M ! j ! b)"
    by (rule sum.swap)
  also have "\<dots> = (\<Sum>a<k. \<Sum>b<k. M ! j ! b * R ! b ! a * M ! i ! a)"
    using sym by (intro sum.cong refl) (simp add: symmetric_def mult_ac)
  also have "\<dots> = dot (dot M R) (transpose_m M) ! j ! i"
    by (rule conjugate_entry [OF M R k j i, symmetric])
  finally show "dot (dot M R) (transpose_m M) ! i ! j = dot (dot M R) (transpose_m M) ! j ! i" .
qed

lemma symmetric_sub:
  assumes "is_shape k k A" and "symmetric k A" and "symmetric k B"
  shows "symmetric k (sub A B)"
  using assms by (simp add: symmetric_def sub_entry [of k])

lemma variance_update:
  assumes S: "is_shape k k S" and symS: "symmetric k S" and LS: "cholesky_rows S k = Inr LS"
    and R: "is_shape k k R" and symR: "symmetric k R" and LR: "cholesky_rows R k = Inr LR"
    and M: "is_shape k k M" and Q: "is_shape k k Q" and k: "0 < k"
    and rel: "dot M (mat k k (low LR)) = dot (mat k k (low LS)) Q"
    and chol: "cholesky (sub S (dot (dot M R) (transpose_m M))) = Inr N"
  shows "is_shape k k (sub S (dot (dot M R) (transpose_m M)))"
    and "symmetric k (sub S (dot (dot M R) (transpose_m M)))"
    and "\<exists>L. cholesky_rows (sub S (dot (dot M R) (transpose_m M))) k = Inr L \<and> N = mat k k (low L)"
    and "norm2 k (vec_mat k a N)
         = norm2 k (vec_mat k a (mat k k (low LS)))
           - norm2 k (vec_mat k (vec_mat k a (mat k k (low LS))) Q)"
proof -
  let ?V = "sub S (dot (dot M R) (transpose_m M))"
  show V: "is_shape k k ?V"
    by (rule is_shape_sub [OF S])
  show symV: "symmetric k ?V"
    by (rule symmetric_sub [OF S symS symmetric_conjugate [OF M R k symR]])
  from V have len: "length ?V = k"
    by (rule is_shape_length)
  from chol obtain L where L: "cholesky_rows ?V k = Inr L" and N: "N = mat k k (low L)"
    by (rule cholesky_Inr) (simp_all add: len)
  then show "\<exists>L. cholesky_rows ?V k = Inr L \<and> N = mat k k (low L)"
    by blast
  let ?a = "vec_mat k a (mat k k (low LS))"
  let ?u = "vec_mat k a M"
  have MR: "is_shape k k (dot M R)"
    by (rule is_shape_dot [OF M R k])
  have "complex_of_real (norm2 k (vec_mat k a N)) = hermitian_form k ?V a"
    unfolding N by (rule hermitian_form_factor [OF L symV, symmetric])
  also have "\<dots> = hermitian_form k S a - hermitian_form k (dot (dot M R) (transpose_m M)) a"
    by (rule hermitian_form_sub [OF S])
  also have "hermitian_form k S a = complex_of_real (norm2 k ?a)"
    by (rule hermitian_form_factor [OF LS symS])
  also have "hermitian_form k (dot (dot M R) (transpose_m M)) a
             = cinner k (vec_mat k a (dot M R)) ?u"
    by (rule hermitian_form_gram [OF MR M k])
  also have "\<dots> = cinner k (vec_mat k ?u R) ?u"
    unfolding cinner_def by (intro sum.cong refl) (simp add: vec_mat_dot [OF M R k])
  also have "\<dots> = hermitian_form k R ?u"
    by (rule cinner_hermitian_form)
  also have "\<dots> = complex_of_real (norm2 k (vec_mat k ?u (mat k k (low LR))))"
    by (rule hermitian_form_factor [OF LR symR])
  also have "norm2 k (vec_mat k ?u (mat k k (low LR))) = norm2 k (vec_mat k ?a Q)"
  proof (rule norm2_cong)
    fix j
    assume j: "j < k"
    have "vec_mat k ?u (mat k k (low LR)) j = vec_mat k a (dot M (mat k k (low LR))) j"
      by (rule vec_mat_dot [OF M is_shape_mat k j, symmetric])
    also have "\<dots> = vec_mat k ?a Q j"
      unfolding rel by (rule vec_mat_dot [OF is_shape_mat Q k j])
    finally show "vec_mat k ?u (mat k k (low LR)) j = vec_mat k ?a Q j" .
  qed
  finally have "complex_of_real (norm2 k (vec_mat k a N))
                = complex_of_real (norm2 k ?a - norm2 k (vec_mat k ?a Q))"
    by simp
  then show "norm2 k (vec_mat k a N) = norm2 k ?a - norm2 k (vec_mat k ?a Q)"
    by (simp only: of_real_eq_iff)
qed

text \<open>The lag polynomials of the next pass, from those of this pass.\<close>

lemma forward_lag_diff:
  "forward_lag k s F z (\<lambda>i. a i - c i) j = forward_lag k s F z a j - forward_lag k s F z c j"
  by (simp add: forward_lag_def vec_mat_diff right_diff_distrib sum_subtractf)

lemma backward_lag_diff:
  "backward_lag k s B z (\<lambda>i. a i - c i) j = backward_lag k s B z a j - backward_lag k s B z c j"
  by (simp add: backward_lag_def vec_mat_diff right_diff_distrib sum_subtractf)

lemma backward_lag_scale:
  "backward_lag k s B z (\<lambda>i. c * a i) j = c * backward_lag k s B z a j"
  by (simp add: backward_lag_def vec_mat_scale right_diff_distrib sum_distrib_left mult_ac)

lemma forward_lag_cong:
  "(\<And>i. i < k \<Longrightarrow> a i = c i) \<Longrightarrow> j < k \<Longrightarrow> forward_lag k s F z a j = forward_lag k s F z c j"
  by (simp add: forward_lag_def vec_mat_cong [of k a c])

lemma backward_lag_cong:
  "(\<And>i. i < k \<Longrightarrow> a i = c i) \<Longrightarrow> j < k \<Longrightarrow> backward_lag k s B z a j = backward_lag k s B z c j"
  by (simp add: backward_lag_def vec_mat_cong [of k a c])

lemma forward_lag_Suc:
  fixes F F' B :: matrix
  assumes F: "is_shape k (order * k) F" and B: "is_shape k (order * k) B"
    and Fs: "is_shape k k Fs" and k: "0 < k" and s: "s < order" and j: "j < k"
    and blocks: "\<And>t. t \<le> s \<Longrightarrow> block F' t k
           = (if t < s then sub (block F t k) (dot Fs (block B (s - t - 1) k)) else Fs)"
  shows "forward_lag k (Suc s) F' z a j
         = forward_lag k s F z a j - z * backward_lag k s B z (vec_mat k a Fs) j"
proof -
  let ?u = "vec_mat k a Fs"
  have low: "vec_mat k a (block F' t k) j
             = vec_mat k a (block F t k) j - vec_mat k ?u (block B (s - Suc t) k) j" if t: "t < s" for t
  proof -
    from t s have to: "t < order" and so: "s - Suc t < order"
      by simp_all
    have "vec_mat k a (block F' t k) j
          = vec_mat k a (sub (block F t k) (dot Fs (block B (s - Suc t) k))) j"
      using blocks [of t] t by simp
    also have "\<dots> = vec_mat k a (block F t k) j - vec_mat k a (dot Fs (block B (s - Suc t) k)) j"
      by (rule vec_mat_sub [OF is_shape_block [OF F to] j])
    also have "vec_mat k a (dot Fs (block B (s - Suc t) k)) j
               = vec_mat k ?u (block B (s - Suc t) k) j"
      by (rule vec_mat_dot [OF Fs is_shape_block [OF B so] k j])
    finally show ?thesis .
  qed
  have last: "vec_mat k a (block F' s k) j = ?u j"
    using blocks [of s] by simp
  have "(\<Sum>t<s. z ^ Suc t * vec_mat k ?u (block B (s - Suc t) k) j)
        = (\<Sum>t<s. z ^ Suc (s - Suc t) * vec_mat k ?u (block B (s - Suc (s - Suc t)) k) j)"
    by (rule sum.nat_diff_reindex [symmetric])
  also have "\<dots> = (\<Sum>t<s. z * (z ^ (s - 1 - t) * vec_mat k ?u (block B t k) j))"
  proof (intro sum.cong refl)
    fix t
    assume "t \<in> {..<s}"
    then have t: "t < s"
      by simp
    then have "Suc (s - Suc t) = s - t" "s - Suc (s - Suc t) = t"
      by simp_all
    moreover have "z ^ (s - t) = z * z ^ (s - Suc t)"
      using t by (metis Suc_diff_Suc power_Suc)
    ultimately show "z ^ Suc (s - Suc t) * vec_mat k ?u (block B (s - Suc (s - Suc t)) k) j
          = z * (z ^ (s - 1 - t) * vec_mat k ?u (block B t k) j)"
      by simp
  qed
  finally have rev: "(\<Sum>t<s. z ^ Suc t * vec_mat k ?u (block B (s - Suc t) k) j)
        = z * (\<Sum>t<s. z ^ (s - 1 - t) * vec_mat k ?u (block B t k) j)"
    by (simp add: sum_distrib_left)
  have "forward_lag k (Suc s) F' z a j
        = a j - ((\<Sum>t<s. z ^ Suc t * vec_mat k a (block F' t k) j) + z ^ Suc s * ?u j)"
    by (simp add: forward_lag_def last)
  also have "(\<Sum>t<s. z ^ Suc t * vec_mat k a (block F' t k) j)
             = (\<Sum>t<s. z ^ Suc t * vec_mat k a (block F t k) j)
               - (\<Sum>t<s. z ^ Suc t * vec_mat k ?u (block B (s - Suc t) k) j)"
    unfolding sum_subtractf [symmetric]
    by (intro sum.cong refl) (simp add: low right_diff_distrib)
  finally show ?thesis
    unfolding rev by (simp add: forward_lag_def backward_lag_def algebra_simps)
qed

lemma backward_lag_Suc:
  fixes F B B' :: matrix
  assumes F: "is_shape k (order * k) F" and B: "is_shape k (order * k) B"
    and Bs: "is_shape k k Bs" and k: "0 < k" and s: "s < order" and j: "j < k"
    and blocks: "\<And>t. t \<le> s \<Longrightarrow> block B' t k
           = (if t < s then sub (block B t k) (dot Bs (block F (s - t - 1) k)) else Bs)"
  shows "backward_lag k (Suc s) B' z b j
         = z * backward_lag k s B z b j - forward_lag k s F z (vec_mat k b Bs) j"
proof -
  let ?u = "vec_mat k b Bs"
  have low: "vec_mat k b (block B' t k) j
             = vec_mat k b (block B t k) j - vec_mat k ?u (block F (s - Suc t) k) j" if t: "t < s" for t
  proof -
    from t s have to: "t < order" and so: "s - Suc t < order"
      by simp_all
    have "vec_mat k b (block B' t k) j
          = vec_mat k b (sub (block B t k) (dot Bs (block F (s - Suc t) k))) j"
      using blocks [of t] t by simp
    also have "\<dots> = vec_mat k b (block B t k) j - vec_mat k b (dot Bs (block F (s - Suc t) k)) j"
      by (rule vec_mat_sub [OF is_shape_block [OF B to] j])
    also have "vec_mat k b (dot Bs (block F (s - Suc t) k)) j
               = vec_mat k ?u (block F (s - Suc t) k) j"
      by (rule vec_mat_dot [OF Bs is_shape_block [OF F so] k j])
    finally show ?thesis .
  qed
  have last: "vec_mat k b (block B' s k) j = ?u j"
    using blocks [of s] by simp
  have "(\<Sum>t<s. z ^ (s - t) * vec_mat k ?u (block F (s - Suc t) k) j)
        = (\<Sum>t<s. z ^ (s - (s - Suc t)) * vec_mat k ?u (block F (s - Suc (s - Suc t)) k) j)"
    by (rule sum.nat_diff_reindex [symmetric])
  also have "\<dots> = (\<Sum>t<s. z ^ Suc t * vec_mat k ?u (block F t k) j)"
    by (intro sum.cong refl) (simp add: Suc_diff_Suc)
  finally have rev: "(\<Sum>t<s. z ^ (s - t) * vec_mat k ?u (block F (s - Suc t) k) j)
        = (\<Sum>t<s. z ^ Suc t * vec_mat k ?u (block F t k) j)" .
  have "backward_lag k (Suc s) B' z b j
        = z ^ Suc s * b j - ((\<Sum>t<s. z ^ (s - t) * vec_mat k b (block B' t k) j) + ?u j)"
    by (simp add: backward_lag_def last)
  also have "(\<Sum>t<s. z ^ (s - t) * vec_mat k b (block B' t k) j)
             = (\<Sum>t<s. z ^ (s - t) * vec_mat k b (block B t k) j)
               - (\<Sum>t<s. z ^ (s - t) * vec_mat k ?u (block F (s - Suc t) k) j)"
    unfolding sum_subtractf [symmetric]
    by (intro sum.cong refl) (simp add: low right_diff_distrib)
  also have "(\<Sum>t<s. z ^ (s - t) * vec_mat k b (block B t k) j)
             = z * (\<Sum>t<s. z ^ (s - 1 - t) * vec_mat k b (block B t k) j)"
    unfolding sum_distrib_left
    by (intro sum.cong refl) (simp add: Suc_diff_Suc flip: power_Suc)
  finally show ?thesis
    unfolding rev by (simp add: forward_lag_def backward_lag_def algebra_simps)
qed


text \<open>A pass keeps the two properties of the state.\<close>

lemma pacf_step_invariant:
  assumes wf: "pacf_wf k order st" and stable: "pacf_stable k s st"
    and P: "is_shape k (order * k) P" and k: "0 < k" and s: "s < order"
    and step: "pacf_step P k s st = Inr st'"
  shows "pacf_wf k order st' \<and> pacf_stable k (Suc s) st'"
proof -
  let ?Ps = "block P s k"
  have Ps: "is_shape k k ?Ps"
    by (rule is_shape_block [OF P s])
  have PsT: "is_shape k k (transpose_m ?Ps)"
    by (rule is_shape_transpose [OF Ps])
  from wf obtain Lf Lb where Lf: "cholesky_rows (forward_variance st) k = Inr Lf"
    and ff: "forward_factors st = mat k k (low Lf)"
    and Lb: "cholesky_rows (backward_variance st) k = Inr Lb"
    and bf: "backward_factors st = mat k k (low Lb)"
    and F: "is_shape k (order * k) (forwards st)" and B: "is_shape k (order * k) (backwards st)"
    and V: "is_shape k k (forward_variance st)" and W: "is_shape k k (backward_variance st)"
    and symV: "symmetric k (forward_variance st)" and symW: "symmetric k (backward_variance st)"
    by (auto simp: pacf_wf_def)
  show ?thesis
  proof (rule pacf_step_Inr [OF wf P k s step])
  fix Fs Bs
  assume Fs: "is_shape k k Fs" and Bs: "is_shape k k Bs"
      and FL: "dot Fs (backward_factors st) = dot (forward_factors st) ?Ps"
      and BL: "dot Bs (forward_factors st) = dot (backward_factors st) (transpose_m ?Ps)"
      and F': "is_shape k (order * k) (forwards st')" and B': "is_shape k (order * k) (backwards st')"
      and fb: "\<And>t. t < order \<Longrightarrow> block (forwards st') t k
           = (if t < s then sub (block (forwards st) t k) (dot Fs (block (backwards st) (s - t - 1) k))
              else if t = s then Fs else block (forwards st) t k)"
      and bb: "\<And>t. t < order \<Longrightarrow> block (backwards st') t k
           = (if t < s then sub (block (backwards st) t k) (dot Bs (block (forwards st) (s - t - 1) k))
              else if t = s then Bs else block (backwards st) t k)"
      and fv: "forward_variance st'
         = sub (forward_variance st) (dot (dot Fs (backward_variance st)) (transpose_m Fs))"
      and bv: "backward_variance st'
         = sub (backward_variance st) (dot (dot Bs (forward_variance st)) (transpose_m Bs))"
      and cf: "cholesky (forward_variance st') = Inr (forward_factors st')"
      and cb: "cholesky (backward_variance st') = Inr (backward_factors st')"
  note fwd = variance_update [OF V symV Lf W symW Lb Fs Ps k FL [unfolded ff bf] cf [unfolded fv]]
  note bwd = variance_update [OF W symW Lb V symV Lf Bs PsT k BL [unfolded ff bf] cb [unfolded bv]]
  have wf': "pacf_wf k order st'"
    unfolding pacf_wf_def using F' B' fwd(1-3) bwd(1-3) by (simp add: fv bv)
  have "pacf_stable k (Suc s) st'"
    unfolding pacf_stable_def
  proof (intro allI impI)
    fix z :: complex and a b :: "nat \<Rightarrow> complex"
    assume z: "cmod z \<le> 1"
      and zero: "\<forall>j<k. forward_lag k (Suc s) (forwards st') z a j
                       + backward_lag k (Suc s) (backwards st') z b j = 0"
    let ?a = "\<lambda>i. a i - vec_mat k b Bs i" and ?b = "\<lambda>i. z * (b i - vec_mat k a Fs i)"
    let ?\<alpha> = "vec_mat k a (mat k k (low Lf))" and ?\<beta> = "vec_mat k b (mat k k (low Lb))"
    have "forward_lag k s (forwards st) z ?a j + backward_lag k s (backwards st) z ?b j = 0"
      if j: "j < k" for j
    proof -
      have e1: "forward_lag k (Suc s) (forwards st') z a j
            = forward_lag k s (forwards st) z a j
              - z * backward_lag k s (backwards st) z (vec_mat k a Fs) j"
        by (rule forward_lag_Suc [OF F B Fs k s j]) (use s fb in auto)
      have e2: "backward_lag k (Suc s) (backwards st') z b j
            = z * backward_lag k s (backwards st) z b j
              - forward_lag k s (forwards st) z (vec_mat k b Bs) j"
        by (rule backward_lag_Suc [OF F B Bs k s j]) (use s bb in auto)
      have "forward_lag k s (forwards st) z ?a j + backward_lag k s (backwards st) z ?b j
            = (forward_lag k s (forwards st) z a j
               - forward_lag k s (forwards st) z (vec_mat k b Bs) j)
              + z * (backward_lag k s (backwards st) z b j
                     - backward_lag k s (backwards st) z (vec_mat k a Fs) j)"
        by (simp only: forward_lag_diff backward_lag_diff backward_lag_scale)
      also have "\<dots> = forward_lag k (Suc s) (forwards st') z a j
                        + backward_lag k (Suc s) (backwards st') z b j"
        unfolding e1 e2 by (simp add: algebra_simps)
      also have "\<dots> = 0"
        using zero j by simp
      finally show ?thesis .
    qed
    with stable z
    have le: "norm2 k (vec_mat k ?a (forward_factors st)) \<le> norm2 k (vec_mat k ?b (backward_factors st))"
      unfolding pacf_stable_def by blast
    have "norm2 k (vec_mat k ?a (forward_factors st))
          = norm2 k (\<lambda>j. ?\<alpha> j - vec_mat k ?\<beta> (transpose_m ?Ps) j)"
    proof (rule norm2_cong)
      fix j
      assume j: "j < k"
      have "vec_mat k (vec_mat k b Bs) (forward_factors st) j
            = vec_mat k b (dot Bs (forward_factors st)) j"
        unfolding ff by (rule vec_mat_dot [OF Bs is_shape_mat k j, symmetric])
      also have "\<dots> = vec_mat k ?\<beta> (transpose_m ?Ps) j"
        unfolding BL bf by (rule vec_mat_dot [OF is_shape_mat PsT k j])
      finally show "vec_mat k ?a (forward_factors st) j
                    = ?\<alpha> j - vec_mat k ?\<beta> (transpose_m ?Ps) j"
        by (simp add: vec_mat_diff ff)
    qed
    moreover have "norm2 k (vec_mat k ?b (backward_factors st))
          = norm2 k (\<lambda>j. z * (?\<beta> j - vec_mat k ?\<alpha> ?Ps j))"
    proof (rule norm2_cong)
      fix j
      assume j: "j < k"
      have "vec_mat k (vec_mat k a Fs) (backward_factors st) j
            = vec_mat k a (dot Fs (backward_factors st)) j"
        unfolding bf by (rule vec_mat_dot [OF Fs is_shape_mat k j, symmetric])
      also have "\<dots> = vec_mat k ?\<alpha> ?Ps j"
        unfolding FL ff by (rule vec_mat_dot [OF is_shape_mat Ps k j])
      finally show "vec_mat k ?b (backward_factors st) j = z * (?\<beta> j - vec_mat k ?\<alpha> ?Ps j)"
        by (simp add: vec_mat_diff vec_mat_scale bf)
    qed
    ultimately have "norm2 k (\<lambda>j. ?\<alpha> j - vec_mat k ?\<beta> (transpose_m ?Ps) j)
                     \<le> norm2 k (\<lambda>j. z * (?\<beta> j - vec_mat k ?\<alpha> ?Ps j))"
      using le by simp
    then have "norm2 k ?\<alpha> - norm2 k (vec_mat k ?\<alpha> ?Ps)
               \<le> norm2 k ?\<beta> - norm2 k (vec_mat k ?\<beta> (transpose_m ?Ps))"
      by (rule reflection_contracts [OF Ps z])
    then show "norm2 k (vec_mat k a (forward_factors st'))
               \<le> norm2 k (vec_mat k b (backward_factors st'))"
      by (simp add: fwd(4) bwd(4))
  qed
  with wf' show ?thesis ..
  qed
qed

lemma efold_append: "efold f (xs @ ys) st = ebind (efold f xs st) (efold f ys)"
  by (induction xs arbitrary: st) (simp_all add: ebind_def split: sum.splits)

lemma pacf_init_invariant:
  assumes V: "is_shape k k V" and sym: "symmetric k V" and chol: "cholesky V = Inr L"
  shows "pacf_wf k order (pacf_init V L order k) \<and> pacf_stable k 0 (pacf_init V L order k)"
proof -
  from V have len: "length V = k"
    by (rule is_shape_length)
  from chol obtain L0 where L0: "cholesky_rows V k = Inr L0" and L: "L = mat k k (low L0)"
    by (rule cholesky_Inr) (simp_all add: len)
  have shape: "is_shape k (order * k) (zeros k (k * order))"
    by (simp add: zeros_def mult.commute)
  have "pacf_wf k order (pacf_init V L order k)"
    unfolding pacf_wf_def using V sym L0 L shape by (simp add: pacf_init_def)
  moreover have "pacf_stable k 0 (pacf_init V L order k)"
    unfolding pacf_stable_def
  proof (intro allI impI)
    fix z :: complex and a b :: "nat \<Rightarrow> complex"
    assume "\<forall>j<k. forward_lag k 0 (forwards (pacf_init V L order k)) z a j
                  + backward_lag k 0 (backwards (pacf_init V L order k)) z b j = 0"
    then have ab: "a j = - b j" if "j < k" for j
      using that by (simp add: forward_lag_def backward_lag_def add_eq_0_iff)
    have "vec_mat k a L j = - vec_mat k b L j" for j
    proof -
      have "vec_mat k a L j = vec_mat k (\<lambda>i. - 1 * b i) L j"
        by (rule vec_mat_cong) (simp add: ab)
      then show ?thesis
        by (simp only: vec_mat_scale) simp
    qed
    then have "norm2 k (vec_mat k a L) = norm2 k (vec_mat k b L)"
      by (simp add: norm2_def)
    then show "norm2 k (vec_mat k a (forward_factors (pacf_init V L order k)))
               \<le> norm2 k (vec_mat k b (backward_factors (pacf_init V L order k)))"
      by (simp add: pacf_init_def)
  qed
  ultimately show ?thesis ..
qed

lemma efold_pacf_invariant:
  assumes P: "is_shape k (order * k) P" and k: "0 < k"
    and init: "pacf_wf k order st0" "pacf_stable k 0 st0"
    and n: "n \<le> order" and run: "efold (pacf_step P k) [0..<n] st0 = Inr st"
  shows "pacf_wf k order st \<and> pacf_stable k n st"
  using n run
proof (induction n arbitrary: st)
  case 0
  with init show ?case by simp
next
  case (Suc n)
  from Suc.prems(2) obtain st1 where run: "efold (pacf_step P k) [0..<n] st0 = Inr st1"
    and step: "pacf_step P k n st1 = Inr st"
    by (auto simp: efold_append ebind_def split: sum.splits)
  from Suc.prems(1) have n: "n < order" "n \<le> order"
    by simp_all
  from Suc.IH [OF n(2) run] have "pacf_wf k order st1" "pacf_stable k n st1"
    by simp_all
  then show ?case
    by (rule pacf_step_invariant [OF _ _ P k n(1) step])
qed

text \<open>A complex vector that a Cholesky factor sends to zero is zero.\<close>

lemma factor_kernel:
  assumes L: "cholesky_rows V k = Inr L" and zero: "\<And>j. j < k \<Longrightarrow> vec_mat k a (mat k k (low L)) j = 0"
    and i: "i < k"
  shows "a i = 0"
proof -
  have re: "(\<Sum>i<k. Re (a i) * low L i j) = 0" if "j < k" for j
  proof -
    have "(\<Sum>i<k. Re (a i) * low L i j) = Re (vec_mat k a (mat k k (low L)) j)"
      using that by (simp add: vec_mat_def)
    with zero [OF that] show ?thesis by simp
  qed
  have im: "(\<Sum>i<k. Im (a i) * low L i j) = 0" if "j < k" for j
  proof -
    have "(\<Sum>i<k. Im (a i) * low L i j) = Im (vec_mat k a (mat k k (low L)) j)"
      using that by (simp add: vec_mat_def)
    with zero [OF that] show ?thesis by simp
  qed
  have "Re (a i) = 0"
    by (rule triangular_kernel [of "low L" k "\<lambda>i. Re (a i)"])
       (simp_all add: low_triangular low_diagonal [OF L] re i)
  moreover have "Im (a i) = 0"
    by (rule triangular_kernel [of "low L" k "\<lambda>i. Im (a i)"])
       (simp_all add: low_triangular low_diagonal [OF L] im i)
  ultimately show ?thesis
    by (simp add: complex_eq_iff)
qed

lemma pacf_stable_regular:
  assumes wf: "pacf_wf k order st" and stable: "pacf_stable k order st"
  shows "lag_regular k order (forwards st)"
  unfolding lag_regular_def
proof (intro allI impI)
  fix z :: complex and a :: "nat \<Rightarrow> complex" and i
  assume z: "cmod z \<le> 1" and zero: "\<forall>j<k. forward_lag k order (forwards st) z a j = 0"
    and i: "i < k"
  from wf obtain Lf where Lf: "cholesky_rows (forward_variance st) k = Inr Lf"
    and ff: "forward_factors st = mat k k (low Lf)"
    by (auto simp: pacf_wf_def)
  have "backward_lag k order (backwards st) z (\<lambda>i. 0) j = 0" for j
    by (simp add: backward_lag_def vec_mat_def)
  with zero have "\<forall>j<k. forward_lag k order (forwards st) z a j
                        + backward_lag k order (backwards st) z (\<lambda>i. 0) j = 0"
    by simp
  with stable z have "norm2 k (vec_mat k a (forward_factors st))
                      \<le> norm2 k (vec_mat k (\<lambda>i. 0) (backward_factors st))"
    unfolding pacf_stable_def by blast
  also have "\<dots> = 0"
    by (simp add: norm2_def vec_mat_def)
  finally have "vec_mat k a (mat k k (low Lf)) j = 0" if "j < k" for j
    using that by (simp add: norm2_zero ff)
  then show "a i = 0"
    by (rule factor_kernel [OF Lf _ i])
qed

section \<open>The inverse that Gauss-Jordan elimination returns\<close>

lemma find_pivot_Some:
  "find_pivot rows c i = Some p \<Longrightarrow> i \<le> p \<and> p < i + length rows \<and> rows ! (p - i) ! c \<noteq> 0"
proof (induction rows arbitrary: i)
  case Nil
  then show ?case by simp
next
  case (Cons row rows)
  show ?case
  proof (cases "row ! c \<noteq> 0")
    case True
    with Cons.prems show ?thesis by simp
  next
    case False
    with Cons.prems have "find_pivot rows c (Suc i) = Some p"
      by simp
    from Cons.IH [OF this] have "Suc i \<le> p" "p < Suc i + length rows" "rows ! (p - Suc i) ! c \<noteq> 0"
      by simp_all
    moreover from \<open>Suc i \<le> p\<close> have "p - i = Suc (p - Suc i)"
      by simp
    ultimately show ?thesis
      by simp
  qed
qed

lemma gj_step_inv:
  assumes inv: "gj_inv T n c M" and c: "c < n" and step: "gj_step M c = Inr M'"
  shows "gj_inv T n (Suc c) M'"
proof -
  from inv have len: "length M = n"
    and rows: "\<And>i. i < n \<Longrightarrow> length (M ! i) = 2 * n"
    and rel: "\<And>i j. i < n \<Longrightarrow> j < n \<Longrightarrow> (\<Sum>l<n. M ! i ! (n + l) * T ! l ! j) = M ! i ! j"
    and unit: "\<And>i j. i < n \<Longrightarrow> j < c \<Longrightarrow> M ! i ! j = (if i = j then 1 else 0)"
    by (simp_all add: gj_inv_def)
  from step obtain p where piv: "find_pivot (drop c M) c c = Some p"
    by (auto simp: gj_step_def split: option.splits)
  from find_pivot_Some [OF piv] have p: "c \<le> p" "p < n"
    using len c by simp_all
  from find_pivot_Some [OF piv] p len have nz: "M ! p ! c \<noteq> 0"
    by simp
  define M1 where "M1 = M[c := M ! p, p := M ! c]"
  define d where "d = M1 ! c ! c"
  define prow where "prow = map (\<lambda>x. x / d) (M1 ! c)"
  have M': "M' = map (\<lambda>i. if i = c then prow
                            else map2 (\<lambda>x y. x - (M1 ! i ! c) * y) (M1 ! i) prow) [0..<length M1]"
    using step piv unfolding prow_def d_def M1_def by (auto simp: gj_step_def Let_def)
  have len1: "length M1 = n"
    by (simp add: M1_def len)
  have M1: "M1 ! i = (if i = p then M ! c else if i = c then M ! p else M ! i)" if "i < n" for i
    using that c p len by (simp add: M1_def nth_list_update)
  have rows1: "length (M1 ! i) = 2 * n" if "i < n" for i
    using that c p by (simp add: M1 rows)
  have rel1: "(\<Sum>l<n. M1 ! i ! (n + l) * T ! l ! j) = M1 ! i ! j" if "i < n" "j < n" for i j
    using that c p by (simp add: M1 rel)
  have unit1: "M1 ! i ! j = (if i = j then 1 else 0)" if "i < n" "j < c" for i j
    using that c p by (auto simp: M1 unit)
  have d: "d \<noteq> 0"
    using nz c by (auto simp: d_def M1)
  have lenp: "length prow = 2 * n"
    using c by (simp add: prow_def rows1)
  have prow: "prow ! j = M1 ! c ! j / d" if "j < 2 * n" for j
    using that c by (simp add: prow_def rows1)
  have relp: "(\<Sum>l<n. prow ! (n + l) * T ! l ! j) = prow ! j" if j: "j < n" for j
  proof -
    have "(\<Sum>l<n. prow ! (n + l) * T ! l ! j) = (\<Sum>l<n. M1 ! c ! (n + l) * T ! l ! j) / d"
      unfolding sum_divide_distrib by (intro sum.cong refl) (simp add: prow)
    then show ?thesis
      using j c by (simp add: rel1 prow)
  qed
  have unitp: "prow ! j = (if j = c then 1 else 0)" if "j \<le> c" for j
    using that c d by (auto simp: prow unit1 d_def)
  have row': "M' ! i = (if i = c then prow
                        else map2 (\<lambda>x y. x - (M1 ! i ! c) * y) (M1 ! i) prow)" if "i < n" for i
    using that by (simp add: M' len1)
  have entry': "M' ! i ! j = (if i = c then prow ! j else M1 ! i ! j - M1 ! i ! c * prow ! j)"
    if "i < n" "j < 2 * n" for i j
    using that by (simp add: row' rows1 lenp)
  show ?thesis
    unfolding gj_inv_def
  proof (intro conjI allI impI)
    show "length M' = n"
      by (simp add: M' len1)
  next
    fix i
    assume "i < n"
    then show "length (M' ! i) = 2 * n"
      by (simp add: row' rows1 lenp)
  next
    fix i j
    assume i: "i < n" and j: "j < n"
    show "(\<Sum>l<n. M' ! i ! (n + l) * T ! l ! j) = M' ! i ! j"
    proof (cases "i = c")
      case True
      with i j show ?thesis
        by (simp add: entry' relp)
    next
      case False
      have "(\<Sum>l<n. M' ! i ! (n + l) * T ! l ! j)
            = (\<Sum>l<n. M1 ! i ! (n + l) * T ! l ! j - M1 ! i ! c * (prow ! (n + l) * T ! l ! j))"
        using i False by (intro sum.cong refl) (simp add: entry' algebra_simps)
      also have "\<dots> = M1 ! i ! j - M1 ! i ! c * prow ! j"
        using i j by (simp add: sum_subtractf sum_distrib_left [symmetric] rel1 relp)
      finally show ?thesis
        using i j False by (simp add: entry')
    qed
  next
    fix i j
    assume i: "i < n" and j: "j < Suc c"
    then have j2: "j < 2 * n" and jc: "j \<le> c"
      using c by simp_all
    show "M' ! i ! j = (if i = j then 1 else 0)"
    proof (cases "i = c")
      case True
      with i j2 jc show ?thesis
        by (auto simp: entry' unitp)
    next
      case False
      show ?thesis
      proof (cases "j = c")
        case True
        with i j2 False show ?thesis
          by (simp add: entry' unitp)
      next
        case jc': False
        with jc have "j < c" by simp
        with i j2 False jc show ?thesis
          by (simp add: entry' unitp unit1)
      qed
    qed
  qed
qed

lemma gauss_jordan_inv:
  assumes "gj_inv T n c M" and "c \<le> n" and "gauss_jordan M [c..<n] = Inr M'"
  shows "gj_inv T n n M'"
  using assms
proof (induction "n - c" arbitrary: c M)
  case 0
  then show ?case by simp
next
  case (Suc m)
  then have c: "c < n"
    by simp
  then have "[c..<n] = c # [Suc c..<n]"
    by (rule upt_conv_Cons)
  with Suc.prems(3) obtain M1 where step: "gj_step M c = Inr M1"
    and rest: "gauss_jordan M1 [Suc c..<n] = Inr M'"
    by (auto simp: ebind_def split: sum.splits)
  have "gj_inv T n (Suc c) M1"
    by (rule gj_step_inv [OF Suc.prems(1) c step])
  moreover have "m = n - Suc c" "Suc c \<le> n"
    using Suc.hyps(2) c by simp_all
  ultimately show ?case
    using rest by (intro Suc.hyps(1))
qed

lemma inv_left_inverse:
  assumes T: "is_shape k k T" and k: "0 < k" and inv: "inv T = Inr Ti"
  shows "is_shape k k Ti" and "dot Ti T = eye k"
proof -
  from T have len: "length T = k"
    by (rule is_shape_length)
  let ?M = "map2 (@) T (eye k)"
  from inv T obtain M' where gj: "gauss_jordan ?M [0..<k] = Inr M'"
    and Ti: "Ti = map (drop k) M'"
    by (auto simp: inv_def solve_def Let_def len ebind_def split: sum.splits if_splits)
  have leye: "length (eye k) = k"
    by (simp add: eye_def)
  have row: "?M ! i = T ! i @ eye k ! i" if "i < k" for i
    using that len leye by simp
  have reye: "length (eye k ! i) = k" if "i < k" for i
    using that by (simp add: eye_def)
  have "gj_inv T k 0 ?M"
    unfolding gj_inv_def
  proof (intro conjI allI impI)
    show "length ?M = k"
      by (simp add: len eye_def)
  next
    fix i
    assume "i < k"
    then show "length (?M ! i) = 2 * k"
      using T by (simp only: row) (simp add: is_shape_row reye)
  next
    fix i j
    assume i: "i < k" and j: "j < k"
    have "(\<Sum>l<k. ?M ! i ! (k + l) * T ! l ! j) = (\<Sum>l<k. (if i = l then 1 else 0) * T ! l ! j)"
      using i T by (intro sum.cong refl) (simp add: row nth_append is_shape_row eye_entry)
    also have "\<dots> = T ! i ! j"
      by (rule sum_delta_left [OF i])
    also have "\<dots> = ?M ! i ! j"
      using i j T by (simp add: row nth_append is_shape_row)
    finally show "(\<Sum>l<k. ?M ! i ! (k + l) * T ! l ! j) = ?M ! i ! j" .
  qed simp
  from gauss_jordan_inv [OF this _ gj]
  have len': "length M' = k"
    and rows: "\<And>i. i < k \<Longrightarrow> length (M' ! i) = 2 * k"
    and rel: "\<And>i j. i < k \<Longrightarrow> j < k \<Longrightarrow> (\<Sum>l<k. M' ! i ! (k + l) * T ! l ! j) = M' ! i ! j"
    and unit: "\<And>i j. i < k \<Longrightarrow> j < k \<Longrightarrow> M' ! i ! j = (if i = j then 1 else 0)"
    by (simp_all add: gj_inv_def)
  show shape: "is_shape k k Ti"
    unfolding is_shape_def Ti using len' rows by (auto simp: list_all_length)
  have entry: "Ti ! i ! l = M' ! i ! (k + l)" if "i < k" "l < k" for i l
    using that len' rows by (simp add: Ti)
  show "dot Ti T = eye k"
  proof (rule mat_eqI [of k k])
    show "is_shape k k (dot Ti T)"
      by (rule is_shape_dot [OF shape T k])
    show "is_shape k k (eye k)"
      by simp
  next
    fix i j
    assume i: "i < k" and j: "j < k"
    have "dot Ti T ! i ! j = (\<Sum>l<k. Ti ! i ! l * T ! l ! j)"
      by (rule dot_entry [OF shape T k i j])
    also have "\<dots> = (\<Sum>l<k. M' ! i ! (k + l) * T ! l ! j)"
      using i by (intro sum.cong refl) (simp add: entry)
    also have "\<dots> = eye k ! i ! j"
      using i j by (simp add: rel unit eye_entry)
    finally show "dot Ti T ! i ! j = eye k ! i ! j" .
  qed
qed

section \<open>The coefficients of the recursion have a regular lag polynomial\<close>

lemma conjugate_regular:
  assumes F: "is_shape k (p * k) F" and T: "is_shape k k T" and Ti: "is_shape k k Ti"
    and k: "0 < k" and inv: "dot Ti T = eye k" and reg: "lag_regular k p F"
  shows "lag_regular k p (conjugate_blocks T Ti p k F)"
  unfolding lag_regular_def
proof (intro allI impI)
  fix z :: complex and a :: "nat \<Rightarrow> complex" and j
  let ?F' = "conjugate_blocks T Ti p k F"
  assume z: "cmod z \<le> 1" and zero: "\<forall>j<k. forward_lag k p ?F' z a j = 0" and j: "j < k"
  define u where "u = vec_mat k a T"
  have F': "is_shape k (k * p) F"
    using F by (simp add: mult.commute)
  have blockv: "vec_mat k a (block ?F' t k) j = vec_mat k (vec_mat k u (block F t k)) Ti j"
    if t: "t < p" and j: "j < k" for t j
  proof -
    have B: "is_shape k k (block F t k)"
      by (rule is_shape_block [OF F t])
    have "vec_mat k a (block ?F' t k) j = vec_mat k a (dot (dot T (block F t k)) Ti) j"
      by (simp add: block_conjugate_blocks [OF F' T Ti k t])
    also have "\<dots> = vec_mat k (vec_mat k a (dot T (block F t k))) Ti j"
      by (rule vec_mat_dot [OF is_shape_dot [OF T B k] Ti k j])
    also have "\<dots> = vec_mat k (vec_mat k u (block F t k)) Ti j"
      unfolding u_def by (rule vec_mat_cong) (rule vec_mat_dot [OF T B k])
    finally show ?thesis .
  qed
  have a_eq: "a j = (\<Sum>t<p. z ^ Suc t * vec_mat k (vec_mat k u (block F t k)) Ti j)"
    if j: "j < k" for j
  proof -
    from zero j have "a j = (\<Sum>t<p. z ^ Suc t * vec_mat k a (block ?F' t k) j)"
      by (simp add: forward_lag_def)
    also have "\<dots> = (\<Sum>t<p. z ^ Suc t * vec_mat k (vec_mat k u (block F t k)) Ti j)"
      by (intro sum.cong refl) (simp add: blockv j)
    finally show ?thesis .
  qed
  have "forward_lag k p F z u j = 0" if j: "j < k" for j
  proof -
    have "u j = vec_mat k a T j"
      by (simp add: u_def)
    also have "\<dots> = vec_mat k (\<lambda>i. \<Sum>t<p. z ^ Suc t * vec_mat k (vec_mat k u (block F t k)) Ti i) T j"
      by (rule vec_mat_cong) (rule a_eq)
    also have "\<dots> = (\<Sum>t<p. z ^ Suc t * vec_mat k (vec_mat k (vec_mat k u (block F t k)) Ti) T j)"
      by (simp only: vec_mat_sum vec_mat_scale)
    also have "\<dots> = (\<Sum>t<p. z ^ Suc t * vec_mat k u (block F t k) j)"
    proof (intro sum.cong refl)
      fix t
      have "vec_mat k (vec_mat k (vec_mat k u (block F t k)) Ti) T j
            = vec_mat k (vec_mat k u (block F t k)) (dot Ti T) j"
        by (rule vec_mat_dot [OF Ti T k j, symmetric])
      also have "\<dots> = vec_mat k u (block F t k) j"
        unfolding inv by (rule vec_mat_eye [OF j])
      finally show "z ^ Suc t * vec_mat k (vec_mat k (vec_mat k u (block F t k)) Ti) T j
                    = z ^ Suc t * vec_mat k u (block F t k) j"
        by simp
    qed
    finally show ?thesis
      by (simp add: forward_lag_def)
  qed
  with reg z have u: "u i = 0" if "i < k" for i
    using that unfolding lag_regular_def by blast
  have inner: "vec_mat k u (block F t k) i = 0" for t i
    by (rule vec_mat_zero) (rule u)
  have "vec_mat k (vec_mat k u (block F t k)) Ti j = 0" for t
    by (rule vec_mat_zero) (rule inner)
  with a_eq [OF j] show "a j = 0"
    by simp
qed

lemma concatenate_shape:
  assumes "Ms \<noteq> []" and "\<And>X. X \<in> set Ms \<Longrightarrow> is_shape r k X"
  shows "\<exists>R. concatenate Ms = Inr R \<and> is_shape r (length Ms * k) R"
  using assms
proof (induction Ms rule: concatenate.induct)
  case 1
  then show ?case by simp
next
  case (2 M)
  then show ?case by simp
next
  case (3 M N Ms)
  then obtain R where R: "concatenate (N # Ms) = Inr R"
    and shape: "is_shape r (length (N # Ms) * k) R"
    by auto
  from 3 have M: "is_shape r k M"
    by simp
  have "is_shape r (length (M # N # Ms) * k) (map2 (@) M R)"
    using M shape by (auto simp: is_shape_def list_all_length)
  with R M shape show ?case
    by (simp add: ebind_def is_shape_def)
qed

lemma symmetric_scale_eye: "symmetric k (scale c (eye k))"
  by (auto simp: symmetric_def scale_def eye_def mat_def)

lemma is_shape_scale: "is_shape r c M \<Longrightarrow> is_shape r c (scale a M)"
  by (simp add: is_shape_def scale_def list_all_iff)

text \<open>
  What \<^verbatim>\<open>_compute_coefficients_from_multivariate_pacf_python\<close> returns, on any square
  matrices in the place of the partial autocorrelations and a symmetric variance: the
  array of coefficients has a regular lag polynomial.
\<close>

lemma pacf_python_regular:
  assumes run: "compute_coefficients_from_multivariate_pacf_python Ps V order k tv = Inr (F, v)"
    and Ps: "\<And>X. X \<in> set Ps \<Longrightarrow> is_shape k k X" and len: "length Ps = order"
    and V: "is_shape k k V" and sym: "symmetric k V" and k: "0 < k"
  shows "is_shape k (order * k) F" and "lag_regular k order F" and "0 < order"
proof -
  from run have "Ps \<noteq> []"
    by (auto simp: compute_coefficients_from_multivariate_pacf_python_def ebind_Inl)
  with len show order: "0 < order"
    by auto
  from concatenate_shape [OF \<open>Ps \<noteq> []\<close> Ps] len obtain P where P: "concatenate Ps = Inr P"
    and Pshape: "is_shape k (order * k) P"
    by auto
  define V0 where "V0 = (if \<not> tv then scale (real ((order + k) ^ 10)) (eye k) else V)"
  have V0: "is_shape k k V0" "symmetric k V0"
    using V sym by (simp_all add: V0_def is_shape_scale symmetric_scale_eye)
  from run P obtain L st where L: "cholesky V0 = Inr L"
    and loop: "efold (pacf_step P k) [0..<order] (pacf_init V0 L order k) = Inr st"
    by (auto simp: compute_coefficients_from_multivariate_pacf_python_def ebind_def Let_def V0_def
        split: sum.splits)
  from pacf_init_invariant [OF V0 L]
  have "pacf_wf k order (pacf_init V0 L order k)" "pacf_stable k 0 (pacf_init V0 L order k)"
    by simp_all
  from efold_pacf_invariant [OF Pshape k this order_refl loop]
  have wf: "pacf_wf k order st" and stable: "pacf_stable k order st"
    by simp_all
  have reg: "lag_regular k order (forwards st)"
    by (rule pacf_stable_regular [OF wf stable])
  from wf have shape: "is_shape k (order * k) (forwards st)"
    by (simp add: pacf_wf_def)
  show "is_shape k (order * k) F" and "lag_regular k order F"
  proof -
    have "is_shape k (order * k) F \<and> lag_regular k order F"
    proof (cases tv)
      case True
      with run P L loop have "F = forwards st"
        by (simp add: compute_coefficients_from_multivariate_pacf_python_def ebind_def Let_def V0_def)
      with shape reg show ?thesis by simp
    next
      case False
      with run P L loop obtain M0 Lp Li Ti where M0: "cholesky V = Inr M0"
        and Lp: "cholesky (forward_variance st) = Inr Lp"
        and Li: "inv Lp = Inr Li"
        and Ti: "inv (dot M0 Li) = Inr Ti"
        and F: "F = conjugate_blocks (dot M0 Li) Ti order k (forwards st)"
        by (auto simp: compute_coefficients_from_multivariate_pacf_python_def ebind_def Let_def V0_def
            split: sum.splits)
      have lenV: "length V = k" "length (forward_variance st) = k"
        using V wf by (auto simp: is_shape_length pacf_wf_def)
      from M0 have M0s: "is_shape k k M0"
        by (rule cholesky_Inr) (simp add: lenV)
      from Lp have Lps: "is_shape k k Lp"
        by (rule cholesky_Inr) (simp add: lenV)
      have Lis: "is_shape k k Li"
        by (rule inv_left_inverse(1) [OF Lps k Li])
      have T: "is_shape k k (dot M0 Li)"
        by (rule is_shape_dot [OF M0s Lis k])
      note Tinv = inv_left_inverse [OF T k Ti]
      have "lag_regular k order F"
        unfolding F by (rule conjugate_regular [OF shape T Tinv(1) k Tinv(2) reg])
      moreover have "is_shape k (order * k) F"
        unfolding F conjugate_blocks_def
        using conjugate_blocks_upto [OF shape T Tinv(1) k order_refl] by simp
      ultimately show ?thesis by simp
    qed
    then show "is_shape k (order * k) F" and "lag_regular k order F"
      by simp_all
  qed
qed

section \<open>The two settings of \<^verbatim>\<open>transform_variance\<close>\<close>

text \<open>
  C4. For \<open>order\<close> matrices of size \<open>k_endog\<close> and a variance of that size: with
  \<^verbatim>\<open>transform_variance=True\<close> the recursion starts from the error variance it is given,
  and the coefficients and the variance returned are the \<^verbatim>\<open>forwards\<close> and the forward
  variance of its last state, unmodified. With \<^verbatim>\<open>transform_variance=False\<close> the
  recursion is the one of the setting \<^verbatim>\<open>True\<close> on the surrogate variance
  \<open>I (order + k_endog)\<^sup>1\<^sup>0\<close>, with coefficients \<open>F\<close> and variance \<open>V'\<close>; with the
  Cholesky factors \<open>L\<^sub>i\<^sub>n\<^sub>i\<^sub>t\<close> of the variance given and \<open>L\<^sub>o\<^sub>u\<^sub>t\<close> of \<open>V'\<close>, the matrix
  \<^verbatim>\<open>np.linalg.inv\<close> returns for \<open>L\<^sub>o\<^sub>u\<^sub>t\<close> is an inverse of \<open>L\<^sub>o\<^sub>u\<^sub>t\<close>, the one it returns
  for \<open>T = L\<^sub>i\<^sub>n\<^sub>i\<^sub>t L\<^sub>o\<^sub>u\<^sub>t\<^sup>-\<^sup>1\<close> is an inverse of \<open>T\<close>, every block of the coefficients
  returned is \<open>T F\<^sub>s T\<^sup>-\<^sup>1\<close>, and the variance returned is \<open>V'\<close>.
\<close>

theorem pacf_variance_settings:
  assumes Ps: "\<forall>X\<in>set Ps. is_shape k k X" and len: "length Ps = order"
    and V: "is_shape k k V" and k: "0 < k"
  shows "(compute_coefficients_from_multivariate_pacf_python Ps V order k True = Inr (F, v) \<longrightarrow>
            (\<exists>P L st. concatenate Ps = Inr P \<and> cholesky V = Inr L \<and>
               efold (pacf_step P k) [0..<order] (pacf_init V L order k) = Inr st \<and>
               F = forwards st \<and> v = forward_variance st)) \<and>
         (compute_coefficients_from_multivariate_pacf_python Ps V order k False = Inr (F', v') \<longrightarrow>
            (\<exists>F L_init L_out L_out_inv T_inv.
               compute_coefficients_from_multivariate_pacf_python Ps
                 (scale (real ((order + k) ^ 10)) (eye k)) order k True = Inr (F, v') \<and>
               cholesky V = Inr L_init \<and> cholesky v' = Inr L_out \<and>
               inv L_out = Inr L_out_inv \<and> dot L_out_inv L_out = eye k \<and>
               inv (dot L_init L_out_inv) = Inr T_inv \<and>
               dot T_inv (dot L_init L_out_inv) = eye k \<and>
               (\<forall>s<order. block F' s k
                  = dot (dot (dot L_init L_out_inv) (block F s k)) T_inv)))"
proof (intro conjI impI)
  assume "compute_coefficients_from_multivariate_pacf_python Ps V order k True = Inr (F, v)"
  then show "\<exists>P L st. concatenate Ps = Inr P \<and> cholesky V = Inr L \<and>
               efold (pacf_step P k) [0..<order] (pacf_init V L order k) = Inr st \<and>
               F = forwards st \<and> v = forward_variance st"
    by (auto simp: compute_coefficients_from_multivariate_pacf_python_def ebind_def Let_def
        split: sum.splits)
next
  let ?V0 = "scale (real ((order + k) ^ 10)) (eye k)"
  assume run: "compute_coefficients_from_multivariate_pacf_python Ps V order k False = Inr (F', v')"
  then have "Ps \<noteq> []"
    by (auto simp: compute_coefficients_from_multivariate_pacf_python_def ebind_Inl)
  then have "\<exists>R. concatenate Ps = Inr R \<and> is_shape k (length Ps * k) R"
    using Ps by (intro concatenate_shape) auto
  with len obtain P where P: "concatenate Ps = Inr P"
    and Pshape: "is_shape k (order * k) P"
    by auto
  have V0: "is_shape k k ?V0" "symmetric k ?V0"
    by (simp_all add: is_shape_scale symmetric_scale_eye)
  from run P obtain L st M0 Lp Li Ti where L: "cholesky ?V0 = Inr L"
    and loop: "efold (pacf_step P k) [0..<order] (pacf_init ?V0 L order k) = Inr st"
    and M0: "cholesky V = Inr M0"
    and Lp: "cholesky (forward_variance st) = Inr Lp"
    and Li: "inv Lp = Inr Li"
    and Ti: "inv (dot M0 Li) = Inr Ti"
    and F': "F' = conjugate_blocks (dot M0 Li) Ti order k (forwards st)"
    and v': "v' = forward_variance st"
    by (auto simp: compute_coefficients_from_multivariate_pacf_python_def ebind_def Let_def
        split: sum.splits)
  from pacf_init_invariant [OF V0 L]
  have "pacf_wf k order (pacf_init ?V0 L order k)" "pacf_stable k 0 (pacf_init ?V0 L order k)"
    by simp_all
  from efold_pacf_invariant [OF Pshape k this order_refl loop]
  have wf: "pacf_wf k order st"
    by simp
  then have shape: "is_shape k (order * k) (forwards st)"
    and vshape: "is_shape k k (forward_variance st)"
    by (simp_all add: pacf_wf_def)
  have lens: "length V = k" "length (forward_variance st) = k"
    using V vshape by (simp_all add: is_shape_length)
  from M0 have M0s: "is_shape k k M0"
    by (rule cholesky_Inr) (simp add: lens)
  from Lp have Lps: "is_shape k k Lp"
    by (rule cholesky_Inr) (simp add: lens)
  note Linv = inv_left_inverse [OF Lps k Li]
  have T: "is_shape k k (dot M0 Li)"
    by (rule is_shape_dot [OF M0s Linv(1) k])
  note Tinv = inv_left_inverse [OF T k Ti]
  have true_run: "compute_coefficients_from_multivariate_pacf_python Ps ?V0 order k True
                  = Inr (forwards st, v')"
    using P L loop
    by (simp add: compute_coefficients_from_multivariate_pacf_python_def ebind_Inr Let_def v')
  have shape': "is_shape k (k * order) (forwards st)"
    using shape by (simp add: mult.commute)
  have blocks: "block F' s k = dot (dot (dot M0 Li) (block (forwards st) s k)) Ti"
    if "s < order" for s
    unfolding F' by (rule block_conjugate_blocks [OF shape' T Tinv(1) k that])
  from true_run M0 Lp Li Linv(2) Ti Tinv(2) blocks
  show "\<exists>F L_init L_out L_out_inv T_inv.
          compute_coefficients_from_multivariate_pacf_python Ps ?V0 order k True = Inr (F, v') \<and>
          cholesky V = Inr L_init \<and> cholesky v' = Inr L_out \<and>
          inv L_out = Inr L_out_inv \<and> dot L_out_inv L_out = eye k \<and>
          inv (dot L_init L_out_inv) = Inr T_inv \<and>
          dot T_inv (dot L_init L_out_inv) = eye k \<and>
          (\<forall>s<order. block F' s k = dot (dot (dot L_init L_out_inv) (block F s k)) T_inv)"
    unfolding v' by blast
qed

text \<open>
  Both settings at the partial autocorrelation \<open>[[3/5, 0], [0, 0]]\<close> and the variance
  \<open>[[4, 2], [2, 2]]\<close>, for which \<open>T\<close> is not diagonal: the surrogate variance is
  \<open>3\<^sup>1\<^sup>0 I = 59049 I\<close>.
\<close>

lemma sqrt_59049: "sqrt 59049 = 243"
  by (rule real_sqrt_unique) simp_all

lemma sqrt_944784_25: "sqrt (944784 / 25) = 972 / 5"
  by (rule real_sqrt_unique) (simp_all add: power2_eq_square)

lemma pacf_surrogate_example:
  "compute_coefficients_from_multivariate_pacf_python [[[3 / 5, 0], [0, 0]]]
     (scale (real ((1 + 2) ^ 10)) (eye 2)) 1 2 True
   = Inr ([[3 / 5, 0], [0, 0]], [[944784 / 25, 0], [0, 59049]])"
  by (simp add: compute_coefficients_from_multivariate_pacf_python_def pacf_step_def
      pacf_init_def eval_simps forward_subst.simps sqrt_59049 sqrt_944784_25
      cong: ebind_weak_cong let_weak_cong)

lemma factor_examples:
  "cholesky [[4, 2], [2, 2]] = Inr [[2, 0], [1, 1]]"
  "cholesky [[944784 / 25, 0], [0, 59049]] = Inr [[972 / 5, 0], [0, 243]]"
  by (simp_all add: eval_simps forward_subst.simps sqrt_59049 sqrt_944784_25
      cong: ebind_weak_cong let_weak_cong)

lemma inverse_examples:
  "inv [[972 / 5, 0], [0, 243]] = Inr [[5 / 972, 0], [0, 1 / 243]]"
  "dot [[2, 0], [1, 1]] [[5 / 972, 0], [0, 1 / 243]] = [[5 / 486, 0], [5 / 972, 1 / 243]]"
  "inv [[5 / 486, 0], [5 / 972, 1 / 243]] = Inr [[486 / 5, 0], [- (243 / 2), 243]]"
  by (simp_all add: eval_simps cong: ebind_weak_cong let_weak_cong)

lemma pacf_False_example:
  "compute_coefficients_from_multivariate_pacf_python [[[3 / 5, 0], [0, 0]]]
     [[4, 2], [2, 2]] 1 2 False
   = Inr ([[3 / 5, 0], [3 / 10, 0]], [[944784 / 25, 0], [0, 59049]])"
  by (simp add: compute_coefficients_from_multivariate_pacf_python_def pacf_step_def
      pacf_init_def conjugate_blocks_def eval_simps forward_subst.simps sqrt_59049 sqrt_944784_25
      cong: ebind_weak_cong let_weak_cong)


lemma sqrt_64_25: "sqrt (64 / 25) = 8 / 5"
  by (rule real_sqrt_unique) (simp_all add: power2_eq_square)

lemma pacf_True_example:
  "compute_coefficients_from_multivariate_pacf_python [[[3 / 5, 0], [0, 0]]]
     [[4, 2], [2, 2]] 1 2 True
   = Inr ([[3 / 5, 0], [3 / 10, 0]], [[64 / 25, 32 / 25], [32 / 25, 41 / 25]])"
  by (simp add: compute_coefficients_from_multivariate_pacf_python_def pacf_step_def
      pacf_init_def eval_simps forward_subst.simps sqrt_64_25
      cong: ebind_weak_cong let_weak_cong)

theorem pacf_variance_settings_witness:
  "compute_coefficients_from_multivariate_pacf_python [[[3 / 5, 0], [0, 0]]]
     [[4, 2], [2, 2]] 1 2 True
   = Inr ([[3 / 5, 0], [3 / 10, 0]], [[64 / 25, 32 / 25], [32 / 25, 41 / 25]]) \<and>
   compute_coefficients_from_multivariate_pacf_python [[[3 / 5, 0], [0, 0]]]
     [[4, 2], [2, 2]] 1 2 False
   = Inr ([[3 / 5, 0], [3 / 10, 0]], [[944784 / 25, 0], [0, 59049]]) \<and>
   (\<exists>P L st. concatenate [[[3 / 5, 0], [0, 0]]] = Inr P \<and> cholesky [[4, 2], [2, 2]] = Inr L \<and>
      efold (pacf_step P 2) [0..<1] (pacf_init [[4, 2], [2, 2]] L 1 2) = Inr st \<and>
      [[3 / 5, 0], [3 / 10, 0]] = forwards st \<and>
      [[64 / 25, 32 / 25], [32 / 25, 41 / 25]] = forward_variance st) \<and>
   (\<exists>F L_init L_out L_out_inv T_inv.
      compute_coefficients_from_multivariate_pacf_python [[[3 / 5, 0], [0, 0]]]
        (scale (real ((1 + 2) ^ 10)) (eye 2)) 1 2 True
        = Inr (F, [[944784 / 25, 0], [0, 59049]]) \<and>
      cholesky [[4, 2], [2, 2]] = Inr L_init \<and>
      cholesky [[944784 / 25, 0], [0, 59049]] = Inr L_out \<and>
      inv L_out = Inr L_out_inv \<and> dot L_out_inv L_out = eye 2 \<and>
      inv (dot L_init L_out_inv) = Inr T_inv \<and>
      dot T_inv (dot L_init L_out_inv) = eye 2 \<and>
      (\<forall>s<1. block [[3 / 5, 0], [3 / 10, 0]] s 2
         = dot (dot (dot L_init L_out_inv) (block F s 2)) T_inv))"
  using pacf_variance_settings [of "[[[3 / 5, 0], [0, 0]]]" 2 1 "[[4, 2], [2, 2]]"
      "[[3 / 5, 0], [3 / 10, 0]]" "[[64 / 25, 32 / 25], [32 / 25, 41 / 25]]"
      "[[3 / 5, 0], [3 / 10, 0]]" "[[944784 / 25, 0], [0, 59049]]"]
  unfolding pacf_True_example pacf_False_example
  by (simp add: is_shape_def)

section \<open>Rounding to double precision\<close>

text \<open>
  The exponent of a number between two powers of two, and the integer nearest to a real.
\<close>

lemma powr_powi: "(2::real) powr of_int e = 2 powi e"
  by (simp add: powr_real_of_int power_int_def power_one_over inverse_eq_divide)

lemma expo_eq:
  assumes "2 powi e \<le> \<bar>x\<bar>" and "\<bar>x\<bar> < 2 powi (e + 1)" and "- 1022 \<le> e"
  shows "expo x = e"
proof -
  have pos: "0 < \<bar>x\<bar>"
    using assms(1) by (smt (verit) zero_less_power_int)
  have "\<lfloor>log 2 \<bar>x\<bar>\<rfloor> = e"
    using assms(1,2) pos
    by (subst floor_log_eq_powr_iff) (simp_all add: powr_powi [symmetric])
  then show ?thesis
    using assms(3) by (simp add: expo_def)
qed

lemma rne_nearest:
  assumes "of_int n - 1 / 2 < y" and "y < of_int n + 1 / 2"
  shows "rne y = n"
proof (cases "of_int n \<le> y")
  case True
  then have "\<lfloor>y\<rfloor> = n"
    using assms by (intro floor_unique) auto
  then show ?thesis
    using assms by (simp add: rne_def)
next
  case False
  then have "\<lfloor>y\<rfloor> = n - 1"
    using assms by (intro floor_unique) auto
  then show ?thesis
    using assms False by (simp add: rne_def Let_def)
qed

lemma rne_of_int [simp]: "rne (of_int n) = n"
  by (rule rne_nearest) simp_all

lemma rne_tie_even:
  assumes "even n"
  shows "rne (of_int n + 1 / 2) = n"
proof -
  have "\<lfloor>of_int n + 1 / 2 :: real\<rfloor> = n"
    by (intro floor_unique) auto
  then show ?thesis
    using assms by (simp add: rne_def)
qed

lemma rne_tie_odd:
  assumes "odd n"
  shows "rne (of_int n + 1 / 2) = n + 1"
proof -
  have "\<lfloor>of_int n + 1 / 2 :: real\<rfloor> = n"
    by (intro floor_unique) auto
  then show ?thesis
    using assms by (simp add: rne_def)
qed

text \<open>
  The certificate of a rounding: the binade of \<open>x\<close> and the integer nearest to \<open>x\<close> in
  units of the last place.
\<close>

lemma round64_eq:
  assumes e: "2 powi e \<le> \<bar>x\<bar>" "\<bar>x\<bar> < 2 powi (e + 1)" "- 1022 \<le> e"
    and n: "rne (x / 2 powi (e - 52)) = n"
    and fin: "\<bar>of_int n * 2 powi (e - 52)\<bar> < (2::real) ^ 1024"
  shows "round64 x = Fin (of_int n * 2 powi (e - 52))"
proof -
  have "x \<noteq> 0"
    using e(1) by (smt (verit) zero_less_power_int)
  then show ?thesis
    using n fin by (simp add: round64_def ulp_def expo_eq [OF e] Let_def)
qed


lemma rne_numeral [simp]: "rne (numeral k) = numeral k"
  using rne_of_int [of "numeral k"] by simp

lemma rne_neg_numeral [simp]: "rne (- numeral k) = - numeral k"
  using rne_of_int [of "- numeral k"] by simp

lemma rne_one [simp]: "rne 1 = 1"
  using rne_of_int [of 1] by simp

lemma round64_0 [simp]: "round64 0 = Fin 0"
  by (simp add: round64_def)





lemmas f64_ops = f_add_def f_sub_def f_mul_def f_div_def f_sqrt_def np_sub_def

lemmas f64_simps =
  f64_ops table_def width_def all_finite_def eye_f64_def transpose_f64_def add_f64_def
  sub_f64_def dot_f64_def sum_squares_def cho_factor_f64_def solve_triangular_f64_def
  squash_f64_def constrain_inner_f64_def constrain_step_f64_def constrain_y_f64_def
  constrain_stationary_univariate_f64_def has_rows_f64_def default_k_endog_f64_def
  constrain_sv_f64_def constrain_sv_less_than_one_python_f64_def unconstrain_sv_f64_def
  unconstrain_sv_less_than_one_f64_def

section \<open>\<^verbatim>\<open>constrain_stationary_univariate\<close> in double precision\<close>

text \<open>
  The unconstrained parameter \<open>10\<^sup>8\<close>: its square \<open>10\<^sup>1\<^sup>6\<close> is a double, \<open>1 + 10\<^sup>1\<^sup>6\<close>
  lies halfway between the doubles \<open>10\<^sup>1\<^sup>6\<close> and \<open>10\<^sup>1\<^sup>6 + 2\<close> and is rounded to the
  first, the root of \<open>10\<^sup>1\<^sup>6\<close> is \<open>10\<^sup>8\<close>, and the quotient is 1.
\<close>

lemma round64_1e16: "round64 10000000000000000 = Fin 10000000000000000"
  using round64_eq [of 53 10000000000000000 5000000000000000] by simp

lemma round64_1e16_plus_1: "round64 10000000000000001 = Fin 10000000000000000"
proof -
  have "rne (10000000000000001 / 2 powi (53 - 52)) = 5000000000000000"
    using rne_tie_even [of 5000000000000000] by simp
  from round64_eq [of 53 10000000000000001 5000000000000000, OF _ _ _ this]
  show ?thesis by simp
qed

lemma round64_1e8: "round64 100000000 = Fin 100000000"
  using round64_eq [of 26 100000000 6710886400000000] by simp

lemma round64_1: "round64 1 = Fin 1"
  using round64_eq [of 0 1 4503599627370496] by simp

lemma sqrt_1e16: "sqrt 10000000000000000 = 100000000"
  by (rule real_sqrt_unique) simp_all

lemma squash_f64_1e8: "squash_f64 (Fin 100000000) = Fin 1"
  by (simp add: squash_f64_def f64_ops round64_1e16 round64_1e16_plus_1 round64_1e8 round64_1
      sqrt_1e16)

lemma constrain_univariate_f64_1e8:
  "constrain_stationary_univariate_f64 [Fin 100000000] = Inr [Fin (- 1)]"
  by (simp add: constrain_stationary_univariate_f64_def constrain_y_f64_def
      constrain_step_f64_def constrain_inner_f64_def set_entry_def squash_f64_1e8)

lemma eigenvalue_minus_one: "eigenvalue [[- 1]] (- 1)"
  unfolding eigenvalue_def by (rule exI [of _ "\<lambda>_. 1"]) simp

lemma not_invertible_unit_root: "is_invertible (ar_polynomial [- 1]) 1 = Inr False"
proof -
  have "fst (companion_matrix (ar_polynomial [- 1])) = Inr [[- 1]]"
    by (simp add: ar_polynomial_def eval_simps cong: ebind_weak_cong let_weak_cong)
  moreover have "\<not> (\<forall>l. eigenvalue [[- 1]] l \<longrightarrow> cmod l < 1)"
    using eigenvalue_minus_one by force
  ultimately show ?thesis
    by (simp add: is_invertible_def ebind_Inr)
qed

text \<open>
  C1 (the code against its docstring, in double precision). On the array \<^verbatim>\<open>[1e8]\<close>
  \<^verbatim>\<open>constrain_stationary_univariate\<close> returns \<^verbatim>\<open>[-1.]\<close>, and on the lag polynomial
  \<^verbatim>\<open>np.r_[1, 1.]\<close> of this result \<^verbatim>\<open>is_invertible\<close> answers \<^verbatim>\<open>False\<close>: the companion
  matrix \<open>[[-1]]\<close> has the eigenvalue \<open>-1\<close>, of modulus 1. Over the reals the test
  answers \<^verbatim>\<open>True\<close> on every output (lemma \<open>constrain_univariate_stable\<close>).
\<close>

theorem constrain_univariate_f64_unit_root:
  "constrain_stationary_univariate_f64 [Fin 100000000] = Inr [Fin (- 1)] \<and>
   is_invertible (ar_polynomial [- 1]) 1 = Inr False"
  by (simp add: constrain_univariate_f64_1e8 not_invertible_unit_root)

text \<open>
  The eigenvalue that fails the test: \<open>-1\<close>, of the \<open>1 \<times> 1\<close> companion matrix of
  the result.
\<close>

theorem constrain_univariate_f64_unit_root_witness:
  "constrain_stationary_univariate_f64 [Fin 100000000] = Inr [Fin (- 1)] \<and>
   fst (companion_matrix (ar_polynomial [- 1])) = Inr [[- 1]] \<and>
   eigenvalue [[- 1]] (- 1) \<and> cmod (- 1) = 1 \<and>
   is_invertible (ar_polynomial [- 1]) 1 = Inr False"
  using constrain_univariate_f64_unit_root eigenvalue_minus_one
  by (simp add: ar_polynomial_def eval_simps cong: ebind_weak_cong let_weak_cong)

section \<open>\<^verbatim>\<open>_constrain_sv_less_than_one_python\<close> in double precision\<close>

lemma constrain_sv_f64_1e8:
  "constrain_sv_less_than_one_python_f64 [[[Fin 100000000]]] None None = Inr [[[Fin 1]]]"
  by (simp add: f64_simps eval_simps round64_1e16 round64_1e16_plus_1 round64_1e8 round64_1
      sqrt_1e16 cong: ebind_weak_cong let_weak_cong)

lemma singular_value_one: "singular_value 1 [[1]] 1"
  unfolding singular_value_def
  by (intro conjI exI [of _ "[1]"]) (simp_all add: mat_vec_def eval_simps)

text \<open>
  A finite entry whose square overflows: on \<^verbatim>\<open>[[2.**600]]\<close> the product \<open>A A\<^sup>T\<close> is
  \<open>+\<infinity>\<close>, and \<^verbatim>\<open>cho_factor\<close> raises \<^verbatim>\<open>ValueError\<close> on the matrix that is not
  finite.
\<close>

lemma round64_overflow: "round64 (2 ^ 1200) = PInf"
proof -
  have x: "(2::real) ^ 1200 = 2 powi 1200"
    by simp
  have e: "expo (2 powi 1200) = 1200"
    by (rule expo_eq) simp_all
  have q: "(2::real) powi 1200 / 2 powi (1200 - 52) = of_int (2 ^ 52)"
    by (simp add: power_int_diff)
  have r: "rne ((2::real) powi 1200 / 2 powi (1200 - 52)) = 2 ^ 52"
    unfolding q by (rule rne_of_int)
  have y: "of_int (2 ^ 52) * (2::real) powi (1200 - 52) = 2 powi 1200"
    by (simp add: power_int_diff)
  have big: "(2::real) ^ 1024 \<le> \<bar>2 powi 1200\<bar>"
    by simp
  show ?thesis
    unfolding x round64_def ulp_def e Let_def r y
    using big by (simp add: inf_of_sign_def)
qed

lemma constrain_sv_f64_overflow:
  "constrain_sv_less_than_one_python_f64 [[[Fin (2 ^ 600)]]] None None = Inl ValueError"
proof -
  have "dot_f64 [[Fin (2 ^ 600)]] (transpose_f64 [[Fin (2 ^ 600)]]) = [[PInf]]"
    by (simp add: dot_f64_def transpose_f64_def table_def width_def f64_ops round64_overflow
        del: power_numeral)
  then show ?thesis
    by (simp add: constrain_sv_less_than_one_python_f64_def constrain_sv_f64_def
        default_order_def default_k_endog_f64_def item_def has_rows_f64_def width_def
        add_f64_def eye_f64_def table_def f64_ops cho_factor_f64_def all_finite_def
        ebind_Inl ebind_Inr del: power_numeral)
qed

text \<open>
  C3 (the code against its docstring, in double precision). On the list of the one
  \<open>1 \<times> 1\<close> matrix \<^verbatim>\<open>[[1e8]]\<close> the function returns \<^verbatim>\<open>[[1.]]\<close>: \<open>I + A A\<^sup>T\<close> is
  rounded to \<open>10\<^sup>1\<^sup>6\<close>, its Cholesky factor is \<open>10\<^sup>8\<close>, and the triangular solve
  divides \<open>10\<^sup>8\<close> by it. The singular value of the result is 1, which is not less than
  one.
\<close>

theorem constrain_sv_f64_singular_value_one:
  "constrain_sv_less_than_one_python_f64 [[[Fin 100000000]]] None None = Inr [[[Fin 1]]] \<and>
   singular_value 1 [[1]] 1"
  by (intro conjI constrain_sv_f64_1e8 singular_value_one)

section \<open>\<^verbatim>\<open>_unconstrain_sv_less_than_one\<close> in double precision\<close>

































end
